(* ===== verification/Prelude.thy ===== *)
theory Prelude
  imports Main "HOL-Library.Word" "HOL-Library.List_Lexorder" "HOL-Library.Multiset"
begin

text \<open>
  The vocabulary the component theories share: the names of the machine integer types, byte strings,
  the outcome of a Rust computation, slices and vectors with their bounds checks, checked
  arithmetic, three-way comparison and little-endian byte order.

  A computation that can fail returns an \<open>outcome\<close>: \<open>Ok v\<close> for a value (or \<open>Result::Ok\<close>),
  \<open>Err e\<close> for \<open>Result::Err\<close>, \<open>Panic\<close> for a panic: a failed \<open>assert!\<close>, \<open>expect\<close> or
  \<open>unwrap\<close>, an index or a slice out of range, and an integer operation that overflows with the
  overflow checks of the development profile. A run that does not end in \<open>Panic\<close> is the same with
  the checks switched off.
\<close>

section \<open>Types\<close>

type_synonym u8 = "8 word"
type_synonym u32 = "32 word"
type_synonym u64 = "64 word"
type_synonym i64 = "64 word"
type_synonym bytes = "u8 list"
type_synonym entry = "bytes \<times> bytes"

text \<open>\<open>std::cmp::Ordering\<close>.\<close>

datatype ordering = Less | Equal | Greater

text \<open>
  The messages of \<open>Err(String)\<close>: a constant message is kept as \<open>Msg\<close> with its text, a formatted
  one as a constructor with the values that are printed.
\<close>

datatype error =
    Msg string
  | UnknownCompressionByte u8
  | CompressionNotSupported string
  | DecompressFailed string
  | BlockWrongSize nat nat
  | BlockChecksumMismatch u64 u32 u32
  | UnsupportedMagic u64
  | UnsupportedFormatVersion u32
  | UnsupportedChecksumByte u8
  | BadExtendedMagic bytes
  | FooterChecksumMismatch u64 u32 u32
  | BlockOutOfBounds u64
  | ReadFailed u64

datatype 'a outcome = Ok 'a | Err error | Panic

fun obind :: "'a outcome \<Rightarrow> ('a \<Rightarrow> 'b outcome) \<Rightarrow> 'b outcome" where
  "obind (Ok x) f = f x"
| "obind (Err e) f = Err e"
| "obind Panic f = Panic"

fun ok_or :: "'a option \<Rightarrow> error \<Rightarrow> 'a outcome" where
  "ok_or (Some x) e = Ok x"
| "ok_or None e = Err e"

fun expect :: "'a option \<Rightarrow> 'a outcome" where
  "expect (Some x) = Ok x"
| "expect None = Panic"

definition ensure :: "bool \<Rightarrow> unit outcome" where
  "ensure b = (if b then Ok () else Panic)"

text \<open>Mapping a fallible function over a list, stopping at the first failure.\<close>

fun omap :: "('a \<Rightarrow> 'b outcome) \<Rightarrow> 'a list \<Rightarrow> 'b list outcome" where
  "omap f [] = Ok []"
| "omap f (x # xs) = obind (f x) (\<lambda>y. obind (omap f xs) (\<lambda>ys. Ok (y # ys)))"

section \<open>Vectors, slices and checked arithmetic\<close>

definition vec_get :: "'a list \<Rightarrow> nat \<Rightarrow> 'a outcome" where
  "vec_get xs i = (if i < length xs then Ok (xs ! i) else Panic)"

definition vec_set :: "'a list \<Rightarrow> nat \<Rightarrow> 'a \<Rightarrow> 'a list outcome" where
  "vec_set xs i x = (if i < length xs then Ok (xs[i := x]) else Panic)"

definition get_range :: "'a list \<Rightarrow> nat \<Rightarrow> nat \<Rightarrow> 'a list option" where
  "get_range xs a b = (if a \<le> b \<and> b \<le> length xs then Some (take (b - a) (drop a xs)) else None)"

definition slice :: "'a list \<Rightarrow> nat \<Rightarrow> nat \<Rightarrow> 'a list outcome" where
  "slice xs a b = expect (get_range xs a b)"

definition usize_add :: "nat \<Rightarrow> nat \<Rightarrow> nat outcome" where
  "usize_add a b = (if a + b < 2 ^ 64 then Ok (a + b) else Panic)"

definition usize_sub :: "nat \<Rightarrow> nat \<Rightarrow> nat outcome" where
  "usize_sub a b = (if b \<le> a then Ok (a - b) else Panic)"

definition usize_mul :: "nat \<Rightarrow> nat \<Rightarrow> nat outcome" where
  "usize_mul a b = (if a * b < 2 ^ 64 then Ok (a * b) else Panic)"

definition u64_add :: "u64 \<Rightarrow> u64 \<Rightarrow> u64 outcome" where
  "u64_add a b = (if unat a + unat b < 2 ^ 64 then Ok (a + b) else Panic)"

definition u64_sub :: "u64 \<Rightarrow> u64 \<Rightarrow> u64 outcome" where
  "u64_sub a b = (if b \<le> a then Ok (a - b) else Panic)"

definition u32_add :: "u32 \<Rightarrow> u32 \<Rightarrow> u32 outcome" where
  "u32_add a b = (if unat a + unat b < 2 ^ 32 then Ok (a + b) else Panic)"

definition i64_add :: "i64 \<Rightarrow> i64 \<Rightarrow> i64 outcome" where
  "i64_add a b =
     (if - (2 ^ 63) \<le> sint a + sint b \<and> sint a + sint b < 2 ^ 63 then Ok (a + b) else Panic)"

definition i64_sub :: "i64 \<Rightarrow> i64 \<Rightarrow> i64 outcome" where
  "i64_sub a b =
     (if - (2 ^ 63) \<le> sint a - sint b \<and> sint a - sint b < 2 ^ 63 then Ok (a - b) else Panic)"

section \<open>Comparison of byte strings\<close>

text \<open>\<open>Ord::cmp\<close> on \<open>[u8]\<close>: lexicographic, a proper prefix first.\<close>

fun bytes_cmp :: "bytes \<Rightarrow> bytes \<Rightarrow> ordering" where
  "bytes_cmp [] [] = Equal"
| "bytes_cmp [] (_ # _) = Less"
| "bytes_cmp (_ # _) [] = Greater"
| "bytes_cmp (x # xs) (y # ys) =
     (if x < y then Less else if y < x then Greater else bytes_cmp xs ys)"

definition u64_cmp :: "u64 \<Rightarrow> u64 \<Rightarrow> ordering" where
  "u64_cmp a b = (if a < b then Less else if b < a then Greater else Equal)"

section \<open>Byte order\<close>

definition u32_to_le_bytes :: "u32 \<Rightarrow> bytes" where
  "u32_to_le_bytes w =
     [ucast w, ucast (drop_bit 8 w), ucast (drop_bit 16 w), ucast (drop_bit 24 w)]"

definition u64_to_le_bytes :: "u64 \<Rightarrow> bytes" where
  "u64_to_le_bytes w =
     [ucast w, ucast (drop_bit 8 w), ucast (drop_bit 16 w), ucast (drop_bit 24 w),
      ucast (drop_bit 32 w), ucast (drop_bit 40 w), ucast (drop_bit 48 w), ucast (drop_bit 56 w)]"

fun from_le_bytes :: "bytes \<Rightarrow> 'a::len word" where
  "from_le_bytes [] = 0"
| "from_le_bytes (b # bs) = or (ucast b) (push_bit 8 (from_le_bytes bs))"

definition from_be_bytes :: "bytes \<Rightarrow> 'a::len word" where
  "from_be_bytes bs = from_le_bytes (rev bs)"

section \<open>The shared lemma collections\<close>

named_theorems outcome_simps \<open>equations that run an outcome computation\<close>
named_theorems bounds_simps \<open>bounds checks as conditions on lengths\<close>

lemma obind_eq_Ok_iff [simp]: "obind m f = Ok y \<longleftrightarrow> (\<exists>x. m = Ok x \<and> f x = Ok y)"
  by (cases m) auto

lemma obind_assoc [outcome_simps]: "obind (obind m f) g = obind m (\<lambda>x. obind (f x) g)"
  by (cases m) auto

lemma obind_Ok_right [simp]: "obind m Ok = m"
  by (cases m) auto

lemma obind_eq_Panic_iff: "obind m f = Panic \<longleftrightarrow> m = Panic \<or> (\<exists>x. m = Ok x \<and> f x = Panic)"
  by (cases m) auto

lemma obind_cong [fundef_cong]:
  "m = m' \<Longrightarrow> (\<And>x. m' = Ok x \<Longrightarrow> f x = g x) \<Longrightarrow> obind m f = obind m' g"
  by (cases m') auto

lemma ok_or_eq_Ok_iff [simp]: "ok_or m e = Ok x \<longleftrightarrow> m = Some x"
  by (cases m) auto

lemma expect_eq_Ok_iff [simp]: "expect m = Ok x \<longleftrightarrow> m = Some x"
  by (cases m) auto

lemma ok_or_not_Panic [simp]: "ok_or m e \<noteq> Panic"
  by (cases m) auto

lemma ensure_simps [simp, outcome_simps]: "ensure True = Ok ()" "ensure False = Panic"
  by (simp_all add: ensure_def)

lemma omap_Ok: "(\<And>x. x \<in> set xs \<Longrightarrow> f x = Ok (g x)) \<Longrightarrow> omap f xs = Ok (map g xs)"
  by (induction xs) simp_all

lemma vec_get_Ok [simp, outcome_simps]: "i < length xs \<Longrightarrow> vec_get xs i = Ok (xs ! i)"
  by (simp add: vec_get_def)

lemma vec_set_Ok [simp, outcome_simps]: "i < length xs \<Longrightarrow> vec_set xs i x = Ok (xs[i := x])"
  by (simp add: vec_set_def)

lemma get_range_mid [simp]:
  "a = length xs \<Longrightarrow> b = length xs + length ys \<Longrightarrow> get_range (xs @ ys @ zs) a b = Some ys"
  by (simp add: get_range_def)

lemma get_range_end [simp]:
  "a = length xs \<Longrightarrow> b = length xs + length ys \<Longrightarrow> get_range (xs @ ys) a b = Some ys"
  using get_range_mid[of a xs b ys "[]"] by simp

lemma get_range_length: "get_range xs a b = Some ys \<Longrightarrow> length ys = b - a"
  by (auto simp: get_range_def split: if_splits)

lemma slice_Ok [simp]: "get_range xs a b = Some ys \<Longrightarrow> slice xs a b = Ok ys"
  by (simp add: slice_def)

lemma usize_add_Ok [simp]: "a + b < 2 ^ 64 \<Longrightarrow> usize_add a b = Ok (a + b)"
  by (simp add: usize_add_def)

lemma usize_sub_Ok [simp]: "b \<le> a \<Longrightarrow> usize_sub a b = Ok (a - b)"
  by (simp add: usize_sub_def)

lemmas checked_defs [bounds_simps] =
  usize_add_def usize_sub_def usize_mul_def u64_add_def u64_sub_def u32_add_def i64_add_def i64_sub_def

section \<open>Words and natural numbers\<close>

lemma unat_u32_less [simp]: "unat (w :: u32) < 2 ^ 32" "unat (w :: u32) < 4294967296"
  using unsigned_less[of w, where ?'a = nat] by simp_all

lemma unat_u64_less [simp]: "unat (w :: u64) < 2 ^ 64" "unat (w :: u64) < 18446744073709551616"
  using unsigned_less[of w, where ?'a = nat] by simp_all

lemma unat_ucast_u32_u64 [simp]: "unat (ucast (w :: u32) :: u64) = unat w"
proof -
  have "unat w < 18446744073709551616" using unat_u32_less(2)[of w] by linarith
  then show ?thesis by (simp add: unsigned_ucast_eq take_bit_nat_eq_self)
qed

lemma ucast_u64_u32 [simp]: "(ucast (ucast (w :: u32) :: u64) :: u32) = w"
  by (rule bit_word_eqI) (simp add: bit_simps)

lemma unat_ucast_u64_u32: "unat (w :: u64) < 2 ^ 32 \<Longrightarrow> unat (ucast w :: u32) = unat w"
  by (simp add: unsigned_ucast_eq take_bit_nat_eq_self)

lemma ucast_u32_u64: "unat (w :: u64) < 2 ^ 32 \<Longrightarrow> (ucast (ucast w :: u32) :: u64) = w"
  using unat_ucast_u64_u32[of w] by (simp add: word_unat_eq_iff)

lemma unat_of_nat_u32: "n < 2 ^ 32 \<Longrightarrow> unat (word_of_nat n :: u32) = n"
  by (simp add: unat_of_nat)

lemma unat_of_nat_u64: "n < 2 ^ 64 \<Longrightarrow> unat (word_of_nat n :: u64) = n"
  by (simp add: unat_of_nat)

section \<open>The byte order is the lexicographic order of the library\<close>

lemma bytes_cmp_Less [simp]: "bytes_cmp xs ys = Less \<longleftrightarrow> xs < ys"
  by (induction xs ys rule: bytes_cmp.induct) auto

lemma bytes_cmp_Greater [simp]: "bytes_cmp xs ys = Greater \<longleftrightarrow> ys < xs"
  by (induction xs ys rule: bytes_cmp.induct) auto

lemma bytes_cmp_Equal [simp]: "bytes_cmp xs ys = Equal \<longleftrightarrow> xs = ys"
  by (induction xs ys rule: bytes_cmp.induct) auto

lemma u64_cmp_simps [simp]:
  "u64_cmp a b = Less \<longleftrightarrow> a < b" "u64_cmp a b = Greater \<longleftrightarrow> b < a" "u64_cmp a b = Equal \<longleftrightarrow> a = b"
  by (auto simp: u64_cmp_def)

section \<open>Little-endian round trips\<close>

lemma length_to_le_bytes [simp]:
  "length (u32_to_le_bytes w) = 4" "length (u64_to_le_bytes v) = 8"
  by (simp_all add: u32_to_le_bytes_def u64_to_le_bytes_def)

lemma bit_from_le_bytes:
  "bit (from_le_bytes bs :: 'a::len word) i \<longleftrightarrow>
     i < LENGTH('a) \<and> i < 8 * length bs \<and> bit (bs ! (i div 8)) (i mod 8)"
proof (induction bs arbitrary: i)
  case Nil
  then show ?case by simp
next
  case (Cons b bs)
  show ?case
  proof (cases "i < 8")
    case True
    then show ?thesis by (auto simp: bit_simps)
  next
    case False
    then have "i div 8 = Suc ((i - 8) div 8)" "i mod 8 = (i - 8) mod 8"
      by (simp_all add: le_div_geq le_mod_geq)
    with False Cons.IH[of "i - 8"] show ?thesis
      by (auto simp: bit_simps dest: bit_imp_le_length)
  qed
qed

lemma nth_u32_to_le_bytes: "i < 4 \<Longrightarrow> u32_to_le_bytes w ! i = ucast (drop_bit (8 * i) w)"
  by (auto simp: u32_to_le_bytes_def numeral_eq_Suc less_Suc_eq)

lemma nth_u64_to_le_bytes: "i < 8 \<Longrightarrow> u64_to_le_bytes w ! i = ucast (drop_bit (8 * i) w)"
  by (auto simp: u64_to_le_bytes_def numeral_eq_Suc less_Suc_eq)

lemma from_le_bytes_u32 [simp]: "from_le_bytes (u32_to_le_bytes w) = w"
proof (rule bit_word_eqI)
  fix n
  assume "n < LENGTH(32)"
  then have "n div 8 < 4" by simp
  with \<open>n < LENGTH(32)\<close> show "bit (from_le_bytes (u32_to_le_bytes w) :: u32) n = bit w n"
    by (simp add: bit_from_le_bytes nth_u32_to_le_bytes bit_simps)
qed

lemma from_le_bytes_u64 [simp]: "from_le_bytes (u64_to_le_bytes w) = w"
proof (rule bit_word_eqI)
  fix n
  assume "n < LENGTH(64)"
  then have "n div 8 < 8" by simp
  with \<open>n < LENGTH(64)\<close> show "bit (from_le_bytes (u64_to_le_bytes w) :: u64) n = bit w n"
    by (simp add: bit_from_le_bytes nth_u64_to_le_bytes bit_simps)
qed

lemma nth_from_le_bytes:
  assumes "i < length bs" and "8 * length bs \<le> LENGTH('a::len)"
  shows "ucast (drop_bit (8 * i) (from_le_bytes bs :: 'a word)) = bs ! i"
  using assms by (intro bit_word_eqI) (auto simp: bit_simps bit_from_le_bytes)

lemma u64_to_le_bytes_from [simp]:
  assumes "length bs = 8"
  shows "u64_to_le_bytes (from_le_bytes bs) = bs"
  using assms
  by (intro nth_equalityI) (simp_all add: nth_u64_to_le_bytes nth_from_le_bytes)

lemma from_le_bytes_u64_inject:
  assumes "length xs = 8" and "length ys = 8"
    and "(from_le_bytes xs :: u64) = from_le_bytes ys"
  shows "xs = ys"
  using assms by (metis u64_to_le_bytes_from)

section \<open>Callbacks\<close>

text \<open>What a callback has done to its state after a list of entries.\<close>

definition feed :: "('st \<Rightarrow> 'k \<Rightarrow> 'v \<Rightarrow> 'st) \<Rightarrow> 'st \<Rightarrow> ('k \<times> 'v) list \<Rightarrow> 'st" where
  "feed f = foldl (\<lambda>st (k, v). f st k v)"

lemma feed_simps [simp]: "feed f st [] = st" "feed f st ((k, v) # es) = feed f (f st k v) es"
  by (simp_all add: feed_def)

lemma feed_append: "feed f st (xs @ ys) = feed f (feed f st xs) ys"
  by (simp add: feed_def)

lemma feed_collect: "feed (\<lambda>st k v. st @ [(k, v)]) st es = st @ es"
  by (induction es arbitrary: st) auto

section \<open>Sizes of entries\<close>

definition entries_size :: "entry list \<Rightarrow> nat" where
  "entries_size es = sum_list (map (\<lambda>(k, v). length k + length v) es)"

lemma entries_size_simps [simp]:
  "entries_size [] = 0" "entries_size ((k, v) # es) = length k + length v + entries_size es"
  by (simp_all add: entries_size_def)

lemma mset_concat_member: "xs \<in> set xss \<Longrightarrow> mset xs \<subseteq># mset (concat xss)"
  by (metis concat.simps(2) concat_append mset_append mset_subset_eq_add_left mset_subset_eq_add_right
      split_list subset_mset.order_trans)

lemma entries_size_mono: "mset xs \<subseteq># mset ys \<Longrightarrow> entries_size xs \<le> entries_size ys"
proof -
  assume "mset xs \<subseteq># mset ys"
  then obtain zs where "mset ys = mset xs + mset zs" by (metis ex_mset subset_mset.le_iff_add)
  then have "mset (map (\<lambda>(k, v). length k + length v) ys) =
      mset (map (\<lambda>(k, v). length k + length v) (xs @ zs))" by simp
  then have "entries_size ys = sum_list (map (\<lambda>(k, v). length k + length v) (xs @ zs))"
    unfolding entries_size_def by (metis sum_mset_sum_list)
  then show ?thesis by (simp add: entries_size_def)
qed

lemma entries_size_member: "(k, v) \<in> set es \<Longrightarrow> length k \<le> entries_size es \<and> length v \<le> entries_size es"
  by (induction es) fastforce+

end
