(* ===== verification/Checksum.thy ===== *)
theory Checksum
  imports Prelude
begin

unbundle bit_operations_syntax

text \<open>
  Checksums of blocks and footers (\<^verbatim>\<open>format/block.rs\<close>, \<^verbatim>\<open>format/footer.rs\<close>). The hash functions and the
  decompressors are crates outside the repository: the record \<open>ext\<close> is the parameter that stands
  for them. A streaming hash is the function of the seed and of the slices that \<open>update\<close> was called
  with, in order. A decompressor returns bytes or an error, or it panics, as \<^verbatim>\<open>lz4_flex\<close> documents for
  itself and as any of them may on an allocation of the size that the block announces: nothing is
  assumed about when.
\<close>

datatype codec_result = Decompressed bytes | CodecError | CodecPanic

record ext =
  crc32c :: "bytes \<Rightarrow> u32"
  crc32c_append :: "u32 \<Rightarrow> bytes \<Rightarrow> u32"
  xxh32 :: "bytes \<Rightarrow> u32 \<Rightarrow> u32"
  xxh32_stream :: "u32 \<Rightarrow> bytes list \<Rightarrow> u32"
  xxh64 :: "bytes \<Rightarrow> u64 \<Rightarrow> u64"
  xxh64_stream :: "u64 \<Rightarrow> bytes list \<Rightarrow> u64"
  xxh3_64 :: "bytes \<Rightarrow> u64"
  snappy_decompress :: "bytes \<Rightarrow> codec_result"
  lz4_decompress :: "bytes \<Rightarrow> nat \<Rightarrow> codec_result"
  zstd_decompress :: "bytes \<Rightarrow> nat \<Rightarrow> codec_result"

text \<open>
  Instances of the parameter, for concrete inputs: the hash is the length, and a decompressor refuses
  its input; in the second one it panics on a size that cannot be allocated.
\<close>

definition example_ext :: ext where
  "example_ext = \<lparr>crc32c = (\<lambda>d. of_nat (length d)), crc32c_append = (\<lambda>c d. c + of_nat (length d)),
     xxh32 = (\<lambda>d s. s + of_nat (length d)), xxh32_stream = (\<lambda>s ds. s + of_nat (length (concat ds))),
     xxh64 = (\<lambda>d s. s + of_nat (length d)), xxh64_stream = (\<lambda>s ds. s + of_nat (length (concat ds))),
     xxh3_64 = (\<lambda>d. of_nat (length d)), snappy_decompress = (\<lambda>d. CodecError),
     lz4_decompress = (\<lambda>d n. CodecError), zstd_decompress = (\<lambda>d n. CodecError)\<rparr>"

definition allocating_ext :: ext where
  "allocating_ext = example_ext
     \<lparr>lz4_decompress := (\<lambda>d n. if n < 2 ^ 63 then CodecError else CodecPanic),
      zstd_decompress := (\<lambda>d n. if n < 2 ^ 63 then CodecError else CodecPanic)\<rparr>"

datatype ChecksumType = NoChecksum | Crc32c | XxHash | XxHash64 | XxH3

definition checksum_type_from_byte :: "u8 \<Rightarrow> ChecksumType option" where
  "checksum_type_from_byte b =
     (if b = 0x0 then Some NoChecksum
      else if b = 0x1 then Some Crc32c
      else if b = 0x2 then Some XxHash
      else if b = 0x3 then Some XxHash64
      else if b = 0x4 then Some XxH3
      else None)"

text \<open>The match in \<open>encode_footer_v6_plus\<close>.\<close>

fun checksum_byte :: "ChecksumType \<Rightarrow> u8" where
  "checksum_byte NoChecksum = 0x0"
| "checksum_byte Crc32c = 0x1"
| "checksum_byte XxHash = 0x2"
| "checksum_byte XxHash64 = 0x3"
| "checksum_byte XxH3 = 0x4"

definition checksum_modifier_for_context :: "u32 \<Rightarrow> u64 \<Rightarrow> u32" where
  "checksum_modifier_for_context base_context_checksum offset =
     (if base_context_checksum = 0 then 0
      else let lower = ucast offset :: u32;
               upper = ucast (drop_bit 32 offset) :: u32
           in base_context_checksum XOR (lower + upper))"

definition modify_checksum_for_last_byte :: "u32 \<Rightarrow> u8 \<Rightarrow> u32" where
  "modify_checksum_for_last_byte checksum last_byte = checksum XOR (ucast last_byte * 0x6b9083d9)"

definition mask_crc32c :: "u32 \<Rightarrow> u32" where
  "mask_crc32c crc = word_rotr 15 crc + 0xa282ead8"

fun compute_checksum_plain :: "ext \<Rightarrow> ChecksumType \<Rightarrow> bytes \<Rightarrow> u32" where
  "compute_checksum_plain X NoChecksum data = 0"
| "compute_checksum_plain X Crc32c data = word_rotr 15 (crc32c X data) + 0xa282ead8"
| "compute_checksum_plain X XxHash data = xxh32 X data 0"
| "compute_checksum_plain X XxHash64 data = ucast (xxh64 X data 0 AND 0xffffffff)"
| "compute_checksum_plain X XxH3 data =
     (if data = [] then 0
      else let v = ucast (xxh3_64 X (butlast data) AND 0xffffffff)
           in modify_checksum_for_last_byte v (last data))"

fun compute_checksum_with_last_byte :: "ext \<Rightarrow> ChecksumType \<Rightarrow> bytes \<Rightarrow> u8 \<Rightarrow> u32" where
  "compute_checksum_with_last_byte X NoChecksum data last_byte = 0"
| "compute_checksum_with_last_byte X Crc32c data last_byte =
     mask_crc32c (crc32c_append X (crc32c X data) [last_byte])"
| "compute_checksum_with_last_byte X XxHash data last_byte = xxh32_stream X 0 [data, [last_byte]]"
| "compute_checksum_with_last_byte X XxHash64 data last_byte =
     ucast (xxh64_stream X 0 [data, [last_byte]] AND 0xffffffff)"
| "compute_checksum_with_last_byte X XxH3 data last_byte =
     modify_checksum_for_last_byte (ucast (xxh3_64 X data AND 0xffffffff)) last_byte"

lemma checksum_type_roundtrip [simp]: "checksum_type_from_byte (checksum_byte t) = Some t"
  by (cases t) (simp_all add: checksum_type_from_byte_def)

text \<open>
  The modifier tells blocks at different offsets apart: at one offset below 4 GiB and another the
  checksum of the same bytes differs, because the modifier is injective there.
\<close>

lemma checksum_modifier_low:
  assumes "b \<noteq> 0" and "unat off < 2 ^ 32"
  shows "checksum_modifier_for_context b off = b XOR ucast off"
proof -
  have "drop_bit 32 off = 0"
    using assms(2) by (simp add: word_unat_eq_iff drop_bit_eq_div unat_div)
  then show ?thesis using assms(1) by (simp add: checksum_modifier_for_context_def Let_def)
qed

lemma xor_cancel_left: "a XOR b = a XOR (c :: 'a::len word) \<Longrightarrow> b = c"
  by (metis xor.left_commute xor_self_eq xor.right_neutral)

lemma checksum_modifier_inject:
  assumes "b \<noteq> 0" and "unat x < 2 ^ 32" and "unat y < 2 ^ 32"
    and "checksum_modifier_for_context b x = checksum_modifier_for_context b y"
  shows "x = y"
proof -
  have "(ucast x :: u32) = ucast y"
    using assms by (auto simp: checksum_modifier_low dest: xor_cancel_left)
  then have "unat (ucast x :: u32) = unat (ucast y :: u32)" by simp
  then show ?thesis
    using assms(2,3) by (simp add: unsigned_ucast_eq take_bit_nat_eq_self word_unat_eq_iff)
qed

end
