(* ===== verification/Varint.thy ===== *)
theory Varint
  imports Prelude
begin

unbundle bit_operations_syntax

text \<open>
  The variable-length integer codec of \<^verbatim>\<open>format/varint.rs\<close>: seven bits per byte, low bits first,
  the top bit of a byte set when another byte follows. A reader takes the buffer and the position
  and returns the value, if any, with the position it leaves behind; a writer takes the output
  vector and returns it extended.
\<close>

section \<open>Model\<close>

function varint_loop :: "bytes \<Rightarrow> nat \<Rightarrow> u64 \<Rightarrow> nat \<Rightarrow> (u64 \<times> nat) option" where
  "varint_loop buf p result shift =
     (if p < length buf then
        let byte = buf ! p;
            result' = result OR push_bit shift (ucast (byte AND 0x7f))
        in if byte AND 0x80 = 0 then Some (result', p + 1)
           else if shift + 7 \<ge> 64 then None
           else varint_loop buf (p + 1) result' (shift + 7)
      else None)"
  by pat_completeness auto
termination
  by (relation "measure (\<lambda>(buf, p, result, shift). length buf - p)") auto

declare varint_loop.simps [simp del]

definition get_varint64 :: "bytes \<Rightarrow> nat \<Rightarrow> u64 option \<times> nat" where
  "get_varint64 buf pos =
     (case varint_loop buf pos 0 0 of
        None \<Rightarrow> (None, pos)
      | Some (v, p) \<Rightarrow> (Some v, p))"

definition get_varint32 :: "bytes \<Rightarrow> nat \<Rightarrow> u32 option \<times> nat" where
  "get_varint32 buf pos =
     (case get_varint64 buf pos of
        (None, p) \<Rightarrow> (None, p)
      | (Some v, p) \<Rightarrow> if v > 0xffffffff then (None, p) else (Some (ucast v), p))"

lemma unat_drop_bit_7_less: "\<not> v < 0x80 \<Longrightarrow> unat (drop_bit 7 (v :: u64)) < unat v"
  by (simp add: word_less_nat_alt drop_bit_eq_div unat_div del: drop_bit_numeral_minus_bit0)

function put_varint64 :: "bytes \<Rightarrow> u64 \<Rightarrow> bytes" where
  "put_varint64 out v =
     (if v < 0x80 then out @ [ucast v]
      else put_varint64 (out @ [(ucast v AND 0x7f) OR 0x80]) (drop_bit 7 v))"
  by pat_completeness auto
termination
  by (relation "measure (\<lambda>(out, v). unat v)") (simp_all add: unat_drop_bit_7_less)

declare put_varint64.simps [simp del]

definition put_varint32 :: "bytes \<Rightarrow> u32 \<Rightarrow> bytes" where
  "put_varint32 out v = put_varint64 out (ucast v)"

section \<open>The encoding\<close>

text \<open>The bytes that a writer appends.\<close>

abbreviation varint :: "u64 \<Rightarrow> bytes" where
  "varint v \<equiv> put_varint64 [] v"

abbreviation varint32 :: "u32 \<Rightarrow> bytes" where
  "varint32 v \<equiv> put_varint32 [] v"

lemma put_varint64_append: "put_varint64 out v = out @ varint v"
proof (induction "unat v" arbitrary: out v rule: less_induct)
  case less
  show ?case
  proof (cases "v < 0x80")
    case True
    then show ?thesis by (simp add: put_varint64.simps[of _ v])
  next
    case False
    let ?b = "(ucast v AND 0x7f) OR 0x80 :: u8"
    have "put_varint64 pre (drop_bit 7 v) = pre @ varint (drop_bit 7 v)" for pre
      using False by (intro less.hyps unat_drop_bit_7_less)
    from this[of "out @ [?b]"] this[of "[?b]"] show ?thesis
      using False by (simp add: put_varint64.simps[of _ v])
  qed
qed

lemma put_varint32_append: "put_varint32 out v = out @ varint32 v"
  by (simp add: put_varint32_def put_varint64_append[of out])

lemma varint_short: "v < 0x80 \<Longrightarrow> varint v = [ucast v]"
  by (simp add: put_varint64.simps)

lemma varint_long:
  "\<not> v < 0x80 \<Longrightarrow> varint v = ((ucast v AND 0x7f) OR 0x80) # varint (drop_bit 7 v)"
  by (simp add: put_varint64.simps[of "[]" v] put_varint64_append[of "[_]"])

lemma varint_induct [case_names short long]:
  assumes "\<And>v. v < 0x80 \<Longrightarrow> P v"
    and "\<And>v. \<not> v < 0x80 \<Longrightarrow> P (drop_bit 7 v) \<Longrightarrow> P v"
  shows "P (v :: u64)"
  by (induction "unat v" arbitrary: v rule: less_induct) (metis assms unat_drop_bit_7_less)

lemma varint_nonempty [simp]: "varint v \<noteq> []" "varint32 w \<noteq> []"
  by (cases "v < 0x80"; cases "ucast w < (0x80::u64)";
      simp add: put_varint32_def varint_short varint_long)+

section \<open>Length bounds\<close>

lemma varint_length_le:
  "unat v < 2 ^ (7 * n) \<Longrightarrow> 0 < n \<Longrightarrow> length (varint v) \<le> n"
proof (induction v arbitrary: n rule: varint_induct)
  case (short v)
  then show ?case by (simp add: varint_short)
next
  case (long v)
  have big: "128 \<le> unat v" using long.hyps by (simp add: word_less_nat_alt)
  with long.prems obtain m where n: "n = Suc m" and m: "0 < m"
    by (cases n; cases "n - 1") auto
  have "unat (drop_bit 7 v) < 2 ^ (7 * m)"
    using long.prems(1) n
    by (simp add: drop_bit_eq_div unat_div power_add less_mult_imp_div_less mult.commute
             del: drop_bit_numeral_minus_bit0)
  with long m n show ?case by (simp add: varint_long)
qed

section \<open>Reading back\<close>

lemma byte_and_7f: "(b :: u8) AND 0x7f = take_bit 7 b"
  by (simp add: take_bit_eq_mask mask_numeral)

lemma byte_and_80: "(b :: u8) AND 0x80 = 0 \<longleftrightarrow> \<not> bit b 7"
  using and_exp_eq_0_iff_not_bit[of b 7] by simp

lemma short_byte:
  assumes "(v :: u64) < 0x80"
  shows "(ucast v :: u8) AND 0x80 = 0" and "(ucast ((ucast v :: u8) AND 0x7f) :: u64) = v"
proof -
  have v: "take_bit 7 v = v"
    using assms
    by (simp add: word_unat_eq_iff unsigned_take_bit_eq word_less_nat_alt take_bit_nat_eq_self)
  then have low: "bit v n \<Longrightarrow> n < 7" for n
    by (metis bit_take_bit_iff)
  show "(ucast v :: u8) AND 0x80 = 0" and "(ucast ((ucast v :: u8) AND 0x7f) :: u64) = v"
    unfolding byte_and_80 byte_and_7f
    by (fastforce intro!: bit_word_eqI simp: bit_simps dest: low)+
qed

lemma long_byte:
  "((ucast (v :: u64) AND 0x7f) OR 0x80 :: u8) AND 0x80 \<noteq> 0"
  "ucast (((ucast v AND 0x7f) OR 0x80 :: u8) AND 0x7f) = take_bit 7 v"
proof -
  have b80: "bit (0x80 :: u8) n \<longleftrightarrow> n = 7" for n
    using bit_exp_iff[where 'a = u8, of 7 n] by auto
  show "((ucast v AND 0x7f) OR 0x80 :: u8) AND 0x80 \<noteq> 0"
    unfolding byte_and_80 by (simp add: bit_or_iff b80)
  show "ucast (((ucast v AND 0x7f) OR 0x80 :: u8) AND 0x7f) = take_bit 7 v"
    unfolding byte_and_7f by (rule bit_word_eqI) (auto simp: bit_simps b80)
qed

lemma merge_low_bits:
  "(r OR push_bit s (take_bit 7 v)) OR push_bit (s + 7) (drop_bit 7 v) = r OR push_bit s (v :: u64)"
proof (rule bit_word_eqI)
  fix n
  assume "n < LENGTH(64)"
  show "bit ((r OR push_bit s (take_bit 7 v)) OR push_bit (s + 7) (drop_bit 7 v)) n =
        bit (r OR push_bit s v) n"
  proof (cases "n - s < 7")
    case False
    then have "7 + (n - (s + 7)) = n - s" by simp
    with False show ?thesis by (auto simp: bit_simps)
  qed (auto simp: bit_simps)
qed

lemma varint_loop_varint:
  assumes "unat v < 2 ^ (64 - s)" and "s < 64"
  shows "varint_loop (pre @ varint v @ post) (length pre) r s =
           Some (r OR push_bit s v, length pre + length (varint v))"
  using assms
proof (induction v arbitrary: pre r s rule: varint_induct)
  case (short v)
  then show ?case
    by (simp add: varint_loop.simps varint_short short_byte)
next
  case (long v)
  let ?b = "(ucast v AND 0x7f) OR 0x80 :: u8"
  have big: "2 ^ 7 \<le> unat v" using long.hyps by (simp add: word_less_nat_alt)
  then have s: "s + 7 < 64"
    using long.prems power_less_imp_less_exp[of "2 :: nat" 7 "64 - s"] by fastforce
  have "unat (drop_bit 7 v) < 2 ^ (64 - (s + 7))"
  proof -
    have "64 - s = (64 - (s + 7)) + 7" using s by simp
    then have "unat v < 2 ^ (64 - (s + 7)) * 2 ^ 7"
      using long.prems(1) by (simp only: power_add)
    then show ?thesis
      by (simp add: drop_bit_eq_div unat_div less_mult_imp_div_less)
  qed
  from long.IH[OF this s, of "pre @ [?b]" "r OR push_bit s (take_bit 7 v)"]
  show ?case
    using s long.hyps
    by (simp add: varint_loop.simps[of _ "length pre"] varint_long long_byte merge_low_bits Let_def)
qed

lemma get_varint64_varint [simp]:
  "get_varint64 (pre @ varint v @ post) (length pre) = (Some v, length pre + length (varint v))"
proof -
  have "unat v < 2 ^ (64 - 0)" by simp
  from varint_loop_varint[OF this] show ?thesis by (simp add: get_varint64_def)
qed

lemma get_varint32_varint [simp]:
  "get_varint32 (pre @ varint32 v @ post) (length pre) = (Some v, length pre + length (varint32 v))"
proof -
  have "unat v \<le> 0xffffffff"
    using unat_u32_less(2)[of v] by linarith
  then have "\<not> (ucast v :: u64) > 0xffffffff"
    by (simp add: word_less_nat_alt)
  then show ?thesis by (simp add: get_varint32_def put_varint32_def)
qed

section \<open>Progress of the reader\<close>

lemma varint_loop_progress:
  "varint_loop buf p r s = Some (v, q) \<Longrightarrow> p < q \<and> q \<le> length buf"
proof (induction buf p r s rule: varint_loop.induct)
  case (1 buf p r s)
  from "1.prems" show ?case
    by (subst (asm) varint_loop.simps) (fastforce dest: "1.IH"[OF _ refl refl] simp: Let_def split: if_splits)
qed

lemma get_varint64_progress:
  "get_varint64 buf pos = (Some v, p) \<Longrightarrow> pos < p \<and> p \<le> length buf"
  by (auto simp: get_varint64_def dest: varint_loop_progress split: option.splits prod.splits)

lemma get_varint32_progress:
  "get_varint32 buf pos = (Some v, p) \<Longrightarrow> pos < p \<and> p \<le> length buf"
  by (auto simp: get_varint32_def dest: get_varint64_progress split: option.splits prod.splits if_splits)

section \<open>Properties\<close>

text \<open>
  C27. What the writers append, the readers read back, wherever it stands in a buffer; the position
  moves past it; and no encoding is longer than ten bytes (five for 32 bits).
\<close>

theorem varint_roundtrip:
  "get_varint64 (put_varint64 out v @ rest) (length out) = (Some v, length (put_varint64 out v)) \<and>
   get_varint32 (put_varint32 out w @ rest) (length out) = (Some w, length (put_varint32 out w)) \<and>
   length (put_varint64 out v) \<le> length out + 10 \<and>
   length (put_varint32 out w) \<le> length out + 5"
proof (intro conjI)
  have "unat v < 2 ^ (7 * 10)" by (rule less_trans[OF unat_u64_less(2)]) simp
  then have "length (varint v) \<le> 10" by (rule varint_length_le) simp
  then show "length (put_varint64 out v) \<le> length out + 10"
    by (simp add: put_varint64_append[of out])
  have "unat (ucast w :: u64) < 2 ^ (7 * 5)" using unat_u32_less(2)[of w] by (simp add: less_trans[of _ "2 ^ 32"])
  then have "length (varint (ucast w)) \<le> 5" by (rule varint_length_le) simp
  then show "length (put_varint32 out w) \<le> length out + 5"
    by (simp add: put_varint32_def put_varint64_append[of out])
qed (simp_all add: put_varint64_append[of out] put_varint32_append[of out])

end
