(* ===== verification/Footer.thy ===== *)
theory Footer
  imports Checksum Varint
begin

unbundle bit_operations_syntax

text \<open>
  The footer of a table file (\<^verbatim>\<open>format/footer.rs\<close>): the writer for format versions from 6 and the
  reader for the versions 2 to 7.
\<close>

section \<open>Model\<close>

definition BLOCK_BASED_TABLE_MAGIC :: u64 where
  "BLOCK_BASED_TABLE_MAGIC = 0x88e241b785f4cff7"

definition NEW_VERSIONS_ENCODED_LEN :: nat where
  "NEW_VERSIONS_ENCODED_LEN = 1 + 2 * 20 + 4 + 8"

definition MAX_FOOTER_ENCODED_LEN :: nat where
  "MAX_FOOTER_ENCODED_LEN = NEW_VERSIONS_ENCODED_LEN"

definition FOOTER_TAIL_LEN :: nat where
  "FOOTER_TAIL_LEN = NEW_VERSIONS_ENCODED_LEN"

definition EXTENDED_MAGIC :: bytes where
  "EXTENDED_MAGIC = [0x3e, 0x00, 0x7a, 0x00]"

record BlockHandle =
  handle_offset :: u64
  handle_size :: u64

record Footer =
  table_magic_number :: u64
  format_version :: u32
  checksum_type :: ChecksumType
  metaindex_handle :: BlockHandle
  index_handle :: "BlockHandle option"
  block_trailer_size :: nat
  base_context_checksum :: u32

definition decode_varint64 :: "bytes \<Rightarrow> nat \<Rightarrow> u64 option \<times> nat" where
  [simp]: "decode_varint64 buf pos = get_varint64 buf pos"

definition decode_block_handle :: "bytes \<Rightarrow> nat \<Rightarrow> BlockHandle option \<times> nat" where
  "decode_block_handle buf pos =
     (case decode_varint64 buf pos of
        (None, p) \<Rightarrow> (None, p)
      | (Some offset, p) \<Rightarrow>
          (case decode_varint64 buf p of
             (None, q) \<Rightarrow> (None, q)
           | (Some sz, q) \<Rightarrow> (Some \<lparr>handle_offset = offset, handle_size = sz\<rparr>, q)))"

definition encode_footer_v6_plus ::
    "ext \<Rightarrow> u32 \<Rightarrow> ChecksumType \<Rightarrow> BlockHandle \<Rightarrow> u32 \<Rightarrow> u64 \<Rightarrow> bytes outcome" where
  "encode_footer_v6_plus X fv ct mih bcc footer_offset =
     obind (ensure (fv \<ge> 6)) (\<lambda>_.
     let buf0 = [checksum_byte ct] @ EXTENDED_MAGIC;
         checksum_field_pos = length buf0;
         buf1 = buf0 @ u32_to_le_bytes 0 @ u32_to_le_bytes bcc
     in obind (ensure (unat (handle_size mih) < 2 ^ 32)) (\<lambda>_.
        let metaindex_size = ucast (handle_size mih) :: u32;
            buf = buf1 @ u32_to_le_bytes metaindex_size @ replicate 24 0 @ u32_to_le_bytes fv @
                  u64_to_le_bytes BLOCK_BASED_TABLE_MAGIC;
            checksum = compute_checksum_plain X ct buf + checksum_modifier_for_context bcc footer_offset
        in Ok (take checksum_field_pos buf @ u32_to_le_bytes checksum @
               drop (checksum_field_pos + 4) buf)))"

text \<open>
  The two branches of \<open>decode_footer\<close>, after the common part. The \<^verbatim>\<open>debug_assert_eq!\<close> of the first one
  holds on tails of the documented length, which the callers pass, and panics on longer ones.
\<close>

definition decode_footer_v6_plus ::
    "ext \<Rightarrow> bytes \<Rightarrow> u64 \<Rightarrow> u32 \<Rightarrow> u64 \<Rightarrow> ChecksumType \<Rightarrow> Footer outcome" where
  "decode_footer_v6_plus X tail magic fv footer_offset ct =
     obind (slice tail 1 5) (\<lambda>ext_magic.
     if ext_magic \<noteq> EXTENDED_MAGIC then Err (BadExtendedMagic ext_magic)
     else
     obind (slice tail 5 9) (\<lambda>b1. let stored_checksum = from_le_bytes b1 :: u32 in
     obind (slice tail 9 13) (\<lambda>b2. let bcc = from_le_bytes b2 :: u32 in
     obind (slice tail 13 17) (\<lambda>b3. let metaindex_size = ucast (from_le_bytes b3 :: u32) :: u64;
       zeroed = take 5 tail @ replicate 4 0 @ drop 9 tail;
       computed = compute_checksum_plain X ct zeroed + checksum_modifier_for_context bcc footer_offset
     in
     if ct \<noteq> NoChecksum \<and> computed \<noteq> stored_checksum
     then Err (FooterChecksumMismatch footer_offset stored_checksum computed)
     else
     obind (u64_sub footer_offset 5) (\<lambda>metaindex_end.
     obind (u64_sub metaindex_end metaindex_size) (\<lambda>off.
     obind (slice tail 33 41) (\<lambda>b4. let reserved = from_le_bytes b4 :: u64 in
     if reserved \<noteq> 0
     then Err (Msg ''file uses a future feature not supported by this reader'')
     else
     obind (ensure (41 = length tail - 8 - 4)) (\<lambda>_.
     Ok \<lparr>table_magic_number = magic, format_version = fv, checksum_type = ct,
         metaindex_handle = \<lparr>handle_offset = off, handle_size = metaindex_size\<rparr>,
         index_handle = None, block_trailer_size = 5, base_context_checksum = bcc\<rparr>))))))))"

definition decode_footer_old ::
    "bytes \<Rightarrow> u64 \<Rightarrow> u32 \<Rightarrow> ChecksumType \<Rightarrow> Footer outcome" where
  "decode_footer_old tail magic fv ct =
     obind (slice tail 1 (length tail - 8 - 4)) (\<lambda>part2.
     case decode_block_handle part2 0 of
       (None, _) \<Rightarrow> Err (Msg ''failed to decode metaindex handle'')
     | (Some mih, p2pos) \<Rightarrow>
         (case decode_block_handle part2 p2pos of
            (None, _) \<Rightarrow> Err (Msg ''failed to decode index handle'')
          | (Some ih, _) \<Rightarrow>
              Ok \<lparr>table_magic_number = magic, format_version = fv, checksum_type = ct,
                  metaindex_handle = mih, index_handle = Some ih, block_trailer_size = 5,
                  base_context_checksum = 0\<rparr>))"

definition decode_footer :: "ext \<Rightarrow> bytes \<Rightarrow> u64 \<Rightarrow> Footer outcome" where
  "decode_footer X tail file_size =
     (if length tail < NEW_VERSIONS_ENCODED_LEN
      then Err (Msg ''footer tail shorter than minimum encoded length'')
      else
        let magic_pos = length tail - 8 in
        obind (slice tail magic_pos (magic_pos + 8)) (\<lambda>mb. let magic = from_le_bytes mb :: u64 in
        if magic \<noteq> BLOCK_BASED_TABLE_MAGIC then Err (UnsupportedMagic magic)
        else
        obind (slice tail (magic_pos - 4) magic_pos) (\<lambda>vb. let fv = from_le_bytes vb :: u32 in
        if \<not> (2 \<le> fv \<and> fv \<le> 7) then Err (UnsupportedFormatVersion fv)
        else
        obind (u64_sub file_size (of_nat NEW_VERSIONS_ENCODED_LEN)) (\<lambda>footer_offset.
        obind (vec_get tail 0) (\<lambda>cb.
        obind (ok_or (checksum_type_from_byte cb) (UnsupportedChecksumByte cb)) (\<lambda>ct.
        if fv \<ge> 6 then decode_footer_v6_plus X tail magic fv footer_offset ct
        else decode_footer_old tail magic fv ct))))))"

section \<open>Reading a footer back\<close>

text \<open>The bytes of a written footer, with its checksum field.\<close>

definition footer_bytes :: "ChecksumType \<Rightarrow> u32 \<Rightarrow> u32 \<Rightarrow> u32 \<Rightarrow> u32 \<Rightarrow> bytes" where
  "footer_bytes ct checksum bcc ms fv =
     [checksum_byte ct] @ EXTENDED_MAGIC @ u32_to_le_bytes checksum @ u32_to_le_bytes bcc @
     u32_to_le_bytes ms @ replicate 24 0 @ u32_to_le_bytes fv @ u64_to_le_bytes BLOCK_BASED_TABLE_MAGIC"

lemma length_EXTENDED_MAGIC [simp]: "length EXTENDED_MAGIC = 4"
  by (simp add: EXTENDED_MAGIC_def)

lemma length_footer_bytes [simp]: "length (footer_bytes ct c bcc ms fv) = NEW_VERSIONS_ENCODED_LEN"
  by (simp add: footer_bytes_def NEW_VERSIONS_ENCODED_LEN_def)

lemma encode_footer_bytes:
  assumes "6 \<le> fv" and "unat (handle_size mih) < 2 ^ 32"
  shows "encode_footer_v6_plus X fv ct mih bcc fo =
           Ok (footer_bytes ct
                 (compute_checksum_plain X ct (footer_bytes ct 0 bcc (ucast (handle_size mih)) fv) +
                  checksum_modifier_for_context bcc fo) bcc (ucast (handle_size mih)) fv)"
  using assms by (simp add: encode_footer_v6_plus_def footer_bytes_def ensure_def Let_def)

lemma slice_append:
  "length a = i \<Longrightarrow> i + length b = j \<Longrightarrow> slice (a @ b @ c) i j = Ok b"
  by (auto simp: slice_def get_range_def)

lemma footer_bytes_slices:
  "slice (footer_bytes ct c bcc ms fv) 1 5 = Ok EXTENDED_MAGIC"
  "slice (footer_bytes ct c bcc ms fv) 5 9 = Ok (u32_to_le_bytes c)"
  "slice (footer_bytes ct c bcc ms fv) 9 13 = Ok (u32_to_le_bytes bcc)"
  "slice (footer_bytes ct c bcc ms fv) 13 17 = Ok (u32_to_le_bytes ms)"
  "slice (footer_bytes ct c bcc ms fv) 33 41 = Ok (replicate 8 0)"
  "slice (footer_bytes ct c bcc ms fv) 41 45 = Ok (u32_to_le_bytes fv)"
  "slice (footer_bytes ct c bcc ms fv) 45 53 = Ok (u64_to_le_bytes BLOCK_BASED_TABLE_MAGIC)"
  "take 5 (footer_bytes ct c bcc ms fv) @ replicate 4 0 @ drop 9 (footer_bytes ct c bcc ms fv) =
     footer_bytes ct 0 bcc ms fv"
  by (simp_all add: footer_bytes_def slice_def get_range_def u32_to_le_bytes_def[of 0] numeral_eq_Suc)

lemma footer_slices_at:
  assumes "tail = footer_bytes ct c bcc ms fv"
  shows "slice tail (length tail - 8) (length tail - 8 + 8) = Ok (u64_to_le_bytes BLOCK_BASED_TABLE_MAGIC)"
    and "slice tail (length tail - 8 - 4) (length tail - 8) = Ok (u32_to_le_bytes fv)"
    and "vec_get tail 0 = Ok (checksum_byte ct)"
  using footer_bytes_slices(6,7)[of ct c bcc ms fv]
  by (simp_all add: assms NEW_VERSIONS_ENCODED_LEN_def vec_get_def) (simp add: footer_bytes_def)

lemma decode_encoded_footer:
  assumes fv: "6 \<le> fv" "fv \<le> 7" and fo: "unat fo + NEW_VERSIONS_ENCODED_LEN < 2 ^ 64"
    and h: "unat (handle_offset h) + unat (handle_size h) + 5 = unat fo"
    and sz: "unat (handle_size h) < 2 ^ 32"
    and enc: "encode_footer_v6_plus X fv ct h bcc fo = Ok b"
  shows "decode_footer X b (fo + of_nat NEW_VERSIONS_ENCODED_LEN) =
           Ok \<lparr>table_magic_number = BLOCK_BASED_TABLE_MAGIC, format_version = fv, checksum_type = ct,
               metaindex_handle = h, index_handle = None, block_trailer_size = 5,
               base_context_checksum = bcc\<rparr>"
proof -
  let ?ms = "ucast (handle_size h) :: u32"
  let ?c = "compute_checksum_plain X ct (footer_bytes ct 0 bcc ?ms fv) + checksum_modifier_for_context bcc fo"
  have b: "b = footer_bytes ct ?c bcc ?ms fv"
    using enc encode_footer_bytes[OF fv(1) sz] by simp
  have ms: "ucast ?ms = handle_size h"
    using sz by (rule ucast_u32_u64)
  have sub53: "u64_sub (fo + of_nat NEW_VERSIONS_ENCODED_LEN) (of_nat NEW_VERSIONS_ENCODED_LEN) = Ok fo"
    using fo by (simp add: u64_sub_def word_le_nat_alt unat_word_ariths NEW_VERSIONS_ENCODED_LEN_def)
  have sub5: "u64_sub fo 5 = Ok (fo - 5)"
    using h by (simp add: u64_sub_def word_le_nat_alt)
  have fo5: "unat (fo - 5) = unat fo - 5"
    using h unat_sub[of 5 fo] by (simp add: word_le_nat_alt)
  have le: "handle_size h \<le> fo - 5"
    using h fo5 by (simp add: word_le_nat_alt)
  then have subm: "u64_sub (fo - 5) (handle_size h) = Ok (fo - 5 - handle_size h)"
    by (simp add: u64_sub_def)
  have off: "fo - 5 - handle_size h = handle_offset h"
    using h fo5 unat_sub[OF le] by (simp add: word_unat_eq_iff)
  have zero: "from_le_bytes (replicate 8 0) = (0 :: u64)"
    by (simp add: numeral_eq_Suc)
  have fv2: "2 \<le> fv" by (rule order_trans[OF _ fv(1)]) simp
  have len: "length b = NEW_VERSIONS_ENCODED_LEN" using b by simp
  have "decode_footer X b (fo + of_nat NEW_VERSIONS_ENCODED_LEN) =
      decode_footer_v6_plus X b BLOCK_BASED_TABLE_MAGIC fv fo ct"
    using fv fv2 footer_slices_at[OF b] len sub53 by (simp add: decode_footer_def Let_def)
  also have "\<dots> = Ok \<lparr>table_magic_number = BLOCK_BASED_TABLE_MAGIC, format_version = fv,
      checksum_type = ct, metaindex_handle = h, index_handle = None, block_trailer_size = 5,
      base_context_checksum = bcc\<rparr>"
    unfolding b decode_footer_v6_plus_def
    by (simp only: footer_bytes_slices obind.simps Let_def from_le_bytes_u32 zero sub5 subm ms off
          simp_thms if_False) (simp add: ensure_def NEW_VERSIONS_ENCODED_LEN_def)
  finally show ?thesis .
qed

section \<open>What the reader accepts\<close>

lemma decode_footer_v6_plus_OkD:
  assumes "decode_footer_v6_plus X tail magic fv fo ct = Ok ft"
  shows "format_version ft = fv \<and> table_magic_number ft = magic \<and> checksum_type ft = ct \<and>
         index_handle ft = None \<and>
         unat (handle_offset (metaindex_handle ft)) + unat (handle_size (metaindex_handle ft)) + 5 = unat fo \<and>
         (ct \<noteq> NoChecksum \<longrightarrow>
            from_le_bytes (take 4 (drop 5 tail)) =
              compute_checksum_plain X ct (take 5 tail @ replicate 4 0 @ drop 9 tail) +
              checksum_modifier_for_context (base_context_checksum ft) fo)"
proof -
  let ?ms = "ucast (from_le_bytes (take 4 (drop 13 tail)) :: u32) :: u64"
  have a: "5 \<le> fo" "?ms \<le> fo - 5" "metaindex_handle ft = \<lparr>handle_offset = fo - 5 - ?ms, handle_size = ?ms\<rparr>"
    using assms
    by (auto simp: decode_footer_v6_plus_def Let_def obind_eq_Ok_iff slice_def get_range_def u64_sub_def
          split: if_splits)
  have "unat (fo - 5) = unat fo - 5" "5 \<le> unat fo"
    using a(1) unat_sub[of 5 fo] by (simp_all add: word_le_nat_alt)
  then have "unat (fo - 5 - ?ms) + unat ?ms + 5 = unat fo"
    using unat_sub[OF a(2)] a(2) by (simp add: word_le_nat_alt)
  with a(3) assms show ?thesis
    by (auto simp: decode_footer_v6_plus_def Let_def obind_eq_Ok_iff slice_def get_range_def split: if_splits)
qed

lemma decode_footer_old_OkD:
  assumes "decode_footer_old tail magic fv ct = Ok ft"
  shows "format_version ft = fv \<and> table_magic_number ft = magic \<and> checksum_type ft = ct \<and>
         (\<exists>ih. index_handle ft = Some ih)"
proof -
  obtain x where x: "slice tail 1 (length tail - 8 - 4) = Ok x"
    using assms by (auto simp: decode_footer_old_def)
  obtain m p where m: "decode_block_handle x 0 = (m, p)" by (cases "decode_block_handle x 0")
  obtain i q where i: "decode_block_handle x p = (i, q)" by (cases "decode_block_handle x p")
  from assms x m i show ?thesis
    by (cases m; cases i) (auto simp: decode_footer_old_def)
qed

section \<open>Where reading a footer panics\<close>

text \<open>
  The bytes of a footer that passes the checks of \<open>decode_footer\<close>, and whose announced metaindex size
  does not fit in front of the footer; or a file said to be shorter than the tail that was read.
\<close>

definition footer_overflows :: "ext \<Rightarrow> bytes \<Rightarrow> u64 \<Rightarrow> bool" where
  "footer_overflows X tail file_size \<longleftrightarrow>
     FOOTER_TAIL_LEN \<le> length tail \<and>
     from_le_bytes (take 8 (drop (length tail - 8) tail)) = BLOCK_BASED_TABLE_MAGIC \<and>
     (let fv = from_le_bytes (take 4 (drop (length tail - 12) tail)) :: u32;
          footer_offset = file_size - of_nat FOOTER_TAIL_LEN;
          bcc = from_le_bytes (take 4 (drop 9 tail)) :: u32
      in 2 \<le> fv \<and> fv \<le> 7 \<and>
         (unat file_size < FOOTER_TAIL_LEN \<or>
          (case checksum_type_from_byte (tail ! 0) of
             None \<Rightarrow> False
           | Some ct \<Rightarrow>
               6 \<le> fv \<and> take 4 (drop 1 tail) = EXTENDED_MAGIC \<and>
               (ct = NoChecksum \<or>
                from_le_bytes (take 4 (drop 5 tail)) =
                  compute_checksum_plain X ct (take 5 tail @ replicate 4 0 @ drop 9 tail) +
                  checksum_modifier_for_context bcc footer_offset) \<and>
               unat file_size < FOOTER_TAIL_LEN + 5 + unat (from_le_bytes (take 4 (drop 13 tail)) :: u32))))"

lemma slice_range: "a \<le> b \<Longrightarrow> b \<le> length xs \<Longrightarrow> slice xs a b = Ok (take (b - a) (drop a xs))"
  by (simp add: slice_def get_range_def)

lemma decode_footer_old_not_Panic: "53 \<le> length tail \<Longrightarrow> decode_footer_old tail magic fv ct \<noteq> Panic"
  by (auto simp: decode_footer_old_def slice_range split: prod.splits option.splits)

lemma decode_footer_v6_plus_Panic_iff:
  assumes "length tail = 53"
  shows "decode_footer_v6_plus X tail magic fv fo ct = Panic \<longleftrightarrow>
    take 4 (drop 1 tail) = EXTENDED_MAGIC \<and>
    (ct = NoChecksum \<or>
     from_le_bytes (take 4 (drop 5 tail)) =
       compute_checksum_plain X ct (take 5 tail @ replicate 4 0 @ drop 9 tail) +
       checksum_modifier_for_context (from_le_bytes (take 4 (drop 9 tail))) fo) \<and>
    unat fo < 5 + unat (from_le_bytes (take 4 (drop 13 tail)) :: u32)"
proof -
  let ?ms = "from_le_bytes (take 4 (drop 13 tail)) :: u32"
  have ms: "unat (ucast ?ms :: u64) = unat ?ms" by simp
  have "unat (fo - 5) = unat fo - 5" if "5 \<le> unat fo"
    using that unat_sub[of 5 fo] by (simp add: word_le_nat_alt)
  then have sub: "obind (u64_sub fo 5) (\<lambda>e. obind (u64_sub e (ucast ?ms)) g) = Panic \<longleftrightarrow>
      unat fo < 5 + unat ?ms" if "\<And>off. g off \<noteq> Panic" for g :: "u64 \<Rightarrow> Footer outcome"
    using that ms by (auto simp: obind_eq_Panic_iff u64_sub_def word_le_nat_alt)
  show ?thesis
    using assms sub
    by (simp add: decode_footer_v6_plus_def slice_range Let_def ensure_def) metis
qed

lemma decode_footer_Panic_iff:
  assumes "length tail \<le> FOOTER_TAIL_LEN"
  shows "decode_footer X tail fs = Panic \<longleftrightarrow> footer_overflows X tail fs"
proof (cases "53 \<le> length tail")
  case True
  have eq: "length tail = 53" using assms True by (simp add: FOOTER_TAIL_LEN_def NEW_VERSIONS_ENCODED_LEN_def)
  let ?fv = "from_le_bytes (take 4 (drop (length tail - 12) tail)) :: u32"
  have s: "slice tail (length tail - 8) (length tail - 8 + 8) = Ok (take 8 (drop (length tail - 8) tail))"
      "slice tail (length tail - 8 - 4) (length tail - 8) = Ok (take 4 (drop (length tail - 12) tail))"
      "vec_get tail 0 = Ok (tail ! 0)"
    using True by (auto simp: slice_range vec_get_def)
  have off: "unat (fs - 53) = unat fs - 53" if "53 \<le> unat fs"
    using that unat_sub[of 53 fs] by (simp add: word_le_nat_alt)
  show ?thesis
  proof (cases "checksum_type_from_byte (tail ! 0)")
    case None
    then show ?thesis
      using True s by (auto simp: decode_footer_def footer_overflows_def NEW_VERSIONS_ENCODED_LEN_def
          FOOTER_TAIL_LEN_def Let_def u64_sub_def word_le_nat_alt)
  next
    case (Some ct)
    then show ?thesis
      using True s off decode_footer_old_not_Panic[OF True, of _ ?fv ct]
        decode_footer_v6_plus_Panic_iff[OF eq, of X _ ?fv "fs - 53" ct]
      by (auto simp: decode_footer_def footer_overflows_def NEW_VERSIONS_ENCODED_LEN_def
          FOOTER_TAIL_LEN_def Let_def u64_sub_def word_le_nat_alt)
  qed
qed (simp add: decode_footer_def footer_overflows_def NEW_VERSIONS_ENCODED_LEN_def FOOTER_TAIL_LEN_def)

section \<open>Properties\<close>

text \<open>
  C34. The footer that the writer encodes for a metaindex block that ends, with its trailer, where
  the footer begins is decoded to the same format version, checksum type, context checksum and
  metaindex handle.
\<close>

theorem footer_roundtrip:
  assumes "6 \<le> fv" and "fv \<le> 7" and "unat fo + NEW_VERSIONS_ENCODED_LEN < 2 ^ 64"
    and "unat (handle_offset h) + unat (handle_size h) + 5 = unat fo"
    and "unat (handle_size h) < 2 ^ 32"
  shows "\<exists>b. encode_footer_v6_plus X fv ct h bcc fo = Ok b \<and> length b = FOOTER_TAIL_LEN \<and>
             decode_footer X b (fo + of_nat FOOTER_TAIL_LEN) =
               Ok \<lparr>table_magic_number = BLOCK_BASED_TABLE_MAGIC, format_version = fv, checksum_type = ct,
                   metaindex_handle = h, index_handle = None, block_trailer_size = 5,
                   base_context_checksum = bcc\<rparr>"
  using encode_footer_bytes[OF assms(1,5)] decode_encoded_footer[OF assms]
  by (simp add: FOOTER_TAIL_LEN_def)

theorem footer_roundtrip_witness:
  "\<exists>b. encode_footer_v6_plus example_ext 7 XxH3 \<lparr>handle_offset = 100, handle_size = 40\<rparr> 1 145 = Ok b \<and>
       length b = FOOTER_TAIL_LEN \<and>
       decode_footer example_ext b (145 + of_nat FOOTER_TAIL_LEN) =
         Ok \<lparr>table_magic_number = BLOCK_BASED_TABLE_MAGIC, format_version = 7, checksum_type = XxH3,
             metaindex_handle = \<lparr>handle_offset = 100, handle_size = 40\<rparr>, index_handle = None,
             block_trailer_size = 5, base_context_checksum = 1\<rparr>"
  by (rule footer_roundtrip) (simp_all add: NEW_VERSIONS_ENCODED_LEN_def)

text \<open>
  C35. What the footer reader accepts, whatever the bytes: the table magic number, a version from 2 to
  7, and from version 6 on a metaindex block that ends right before the footer and a stored checksum
  that matches the footer's bytes; the index handle comes with the footer exactly before version 6.
\<close>

theorem decode_footer_accepts:
  assumes "decode_footer X tail file_size = Ok ft"
  shows "FOOTER_TAIL_LEN \<le> length tail \<and> table_magic_number ft = BLOCK_BASED_TABLE_MAGIC \<and>
         2 \<le> format_version ft \<and> format_version ft \<le> 7 \<and>
         (index_handle ft = None \<longleftrightarrow> 6 \<le> format_version ft) \<and>
         (6 \<le> format_version ft \<longrightarrow>
            unat (handle_offset (metaindex_handle ft)) + unat (handle_size (metaindex_handle ft)) + 5 +
              FOOTER_TAIL_LEN = unat file_size \<and>
            (checksum_type ft \<noteq> NoChecksum \<longrightarrow>
               from_le_bytes (take 4 (drop 5 tail)) =
                 compute_checksum_plain X (checksum_type ft) (take 5 tail @ replicate 4 0 @ drop 9 tail) +
                 checksum_modifier_for_context (base_context_checksum ft)
                   (file_size - of_nat FOOTER_TAIL_LEN)))"
proof -
  let ?magic = "from_le_bytes (take 8 (drop (length tail - 8) tail)) :: u64"
  obtain fv ct where
      len: "NEW_VERSIONS_ENCODED_LEN \<le> length tail" and fv: "2 \<le> fv" "fv \<le> 7" and
      fs: "of_nat NEW_VERSIONS_ENCODED_LEN \<le> file_size" and
      dec: "(if fv \<ge> 6 then decode_footer_v6_plus X tail BLOCK_BASED_TABLE_MAGIC fv
              (file_size - of_nat NEW_VERSIONS_ENCODED_LEN) ct
             else decode_footer_old tail BLOCK_BASED_TABLE_MAGIC fv ct) = Ok ft"
    using assms
    by (auto simp: decode_footer_def Let_def obind_eq_Ok_iff u64_sub_def not_less simp del: of_nat_numeral
          split: if_splits) metis
  have 53: "unat (file_size - of_nat NEW_VERSIONS_ENCODED_LEN) + NEW_VERSIONS_ENCODED_LEN = unat file_size"
    using fs unat_sub[OF fs] by (simp add: word_le_nat_alt NEW_VERSIONS_ENCODED_LEN_def)
  show ?thesis
  proof (cases "6 \<le> fv")
    case True
    with dec have "decode_footer_v6_plus X tail BLOCK_BASED_TABLE_MAGIC fv
        (file_size - of_nat NEW_VERSIONS_ENCODED_LEN) ct = Ok ft" by simp
    from decode_footer_v6_plus_OkD[OF this] True len fv 53 show ?thesis
      by (simp add: FOOTER_TAIL_LEN_def)
  next
    case False
    with dec have "decode_footer_old tail BLOCK_BASED_TABLE_MAGIC fv ct = Ok ft" by simp
    from decode_footer_old_OkD[OF this] False len fv show ?thesis
      by (auto simp: FOOTER_TAIL_LEN_def)
  qed
qed

theorem decode_footer_accepts_witness:
  "\<exists>ft. decode_footer example_ext (footer_bytes NoChecksum 0 0 40 7) 198 = Ok ft \<and>
        format_version ft \<le> 7"
proof -
  let ?ft = "\<lparr>table_magic_number = BLOCK_BASED_TABLE_MAGIC, format_version = 7,
      checksum_type = NoChecksum, metaindex_handle = \<lparr>handle_offset = 100, handle_size = 40\<rparr>,
      index_handle = None, block_trailer_size = 5, base_context_checksum = 0\<rparr>"
  have ok: "decode_footer example_ext (footer_bytes NoChecksum 0 0 40 7) 198 = Ok ?ft"
    by code_simp
  with decode_footer_accepts[OF ok] show ?thesis by blast
qed

text \<open>
  C39. A footer is not fully validated before its sizes are used: a well-formed footer of version 6 or 7
  without checksum makes \<open>decode_footer\<close> panic, in place of the error that its type announces,
  exactly when the file is too small for the footer, the trailer of the metaindex block and the
  metaindex size that the footer states; the subtraction of the metaindex offset then underflows.
\<close>

theorem decode_footer_underflow:
  assumes "6 \<le> fv" and "fv \<le> 7"
  shows "decode_footer X (footer_bytes NoChecksum checksum bcc ms fv) file_size = Panic \<longleftrightarrow>
           unat file_size < 53 + 5 + unat ms"
proof -
  let ?t = "footer_bytes NoChecksum checksum bcc ms fv"
  have fields: "take 8 (drop 45 ?t) = u64_to_le_bytes BLOCK_BASED_TABLE_MAGIC" "take 4 (drop 41 ?t) = u32_to_le_bytes fv"
      "take 4 (drop 1 ?t) = EXTENDED_MAGIC" "take 4 (drop 13 ?t) = u32_to_le_bytes ms"
    using footer_bytes_slices[of NoChecksum checksum bcc ms fv]
    by (simp_all add: slice_range NEW_VERSIONS_ENCODED_LEN_def)
  have "checksum_type_from_byte (?t ! 0) = Some NoChecksum" by (simp add: footer_bytes_def checksum_type_from_byte_def)
  moreover have "2 \<le> fv" by (rule order_trans[OF _ assms(1)]) simp
  ultimately show ?thesis
    using fields assms
    by (auto simp: decode_footer_Panic_iff footer_overflows_def FOOTER_TAIL_LEN_def NEW_VERSIONS_ENCODED_LEN_def Let_def)
qed

theorem decode_footer_underflow_witness:
  "decode_footer example_ext (footer_bytes NoChecksum 0 0 40 7) 97 = Panic \<and>
   decode_footer example_ext (footer_bytes NoChecksum 0 0 40 7) 98 \<noteq> Panic"
  by (simp add: decode_footer_underflow)

end
