(* ===== verification/Block.thy ===== *)
theory Block
  imports Footer
begin

unbundle bit_operations_syntax

text \<open>
  Blocks as they are read (\<^verbatim>\<open>format/block.rs\<close>): the trailer with compression type and checksum, the
  restart array, and the walks over the entries of data and index blocks.

  A walk calls its callback on every entry, threading the callback's state, and returns the state
  with the result: the state also holds what was done before an error. \<open>key_scratch\<close> is cleared at the
  start and is local here. Sums of a position in a vector and a 32-bit length are below the range of
  \<open>usize\<close> and written as sums of natural numbers.
\<close>

section \<open>Model\<close>

datatype CompressionType =
    NoCompression | Snappy | Zlib | BZip2 | Lz4 | Lz4Hc | Xpress | Zstd

definition compression_from_byte :: "u8 \<Rightarrow> CompressionType outcome" where
  "compression_from_byte b =
     (if b = 0x00 then Ok NoCompression
      else if b = 0x01 then Ok Snappy
      else if b = 0x02 then Ok Zlib
      else if b = 0x03 then Ok BZip2
      else if b = 0x04 then Ok Lz4
      else if b = 0x05 then Ok Lz4Hc
      else if b = 0x06 then Ok Xpress
      else if b = 0x07 then Ok Zstd
      else Err (UnknownCompressionByte b))"

fun compression_to_byte :: "CompressionType \<Rightarrow> u8" where
  "compression_to_byte NoCompression = 0x00"
| "compression_to_byte Snappy = 0x01"
| "compression_to_byte Zlib = 0x02"
| "compression_to_byte BZip2 = 0x03"
| "compression_to_byte Lz4 = 0x04"
| "compression_to_byte Lz4Hc = 0x05"
| "compression_to_byte Xpress = 0x06"
| "compression_to_byte Zstd = 0x07"

definition BLOCK_TRAILER_SIZE :: nat where
  "BLOCK_TRAILER_SIZE = 5"

definition block_read_len :: "BlockHandle \<Rightarrow> nat outcome" where
  "block_read_len handle = usize_add (unat (handle_size handle)) BLOCK_TRAILER_SIZE"

definition encode_block_with_trailer :: "ext \<Rightarrow> bytes \<Rightarrow> u64 \<Rightarrow> ChecksumType \<Rightarrow> u32 \<Rightarrow> bytes" where
  "encode_block_with_trailer X raw_contents offset ct bcc =
     (let comp_byte = compression_to_byte NoCompression;
          checksum = compute_checksum_with_last_byte X ct raw_contents comp_byte +
                     checksum_modifier_for_context bcc offset
      in raw_contents @ [comp_byte] @ u32_to_le_bytes checksum)"

definition split_uncompressed_size_prefix :: "bytes \<Rightarrow> (nat \<times> bytes) outcome" where
  "split_uncompressed_size_prefix data =
     (case get_varint64 data 0 of
        (None, _) \<Rightarrow> Err (Msg ''failed to read uncompressed-size prefix'')
      | (Some sz, pos) \<Rightarrow> obind (slice data pos (length data)) (\<lambda>rest. Ok (unat sz, rest)))"

fun from_codec :: "string \<Rightarrow> codec_result \<Rightarrow> bytes outcome" where
  "from_codec name (Decompressed data) = Ok data"
| "from_codec name CodecError = Err (DecompressFailed name)"
| "from_codec name CodecPanic = Panic"

fun decompress :: "ext \<Rightarrow> CompressionType \<Rightarrow> bytes \<Rightarrow> bytes outcome" where
  "decompress X NoCompression data = Ok data"
| "decompress X Snappy data = from_codec ''snappy'' (snappy_decompress X data)"
| "decompress X Lz4 data =
     obind (split_uncompressed_size_prefix data) (\<lambda>(n, payload).
       from_codec ''lz4'' (lz4_decompress X payload n))"
| "decompress X Lz4Hc data =
     obind (split_uncompressed_size_prefix data) (\<lambda>(n, payload).
       from_codec ''lz4'' (lz4_decompress X payload n))"
| "decompress X Zstd data =
     obind (split_uncompressed_size_prefix data) (\<lambda>(n, payload).
       from_codec ''zstd'' (zstd_decompress X payload n))"
| "decompress X Zlib data = Err (CompressionNotSupported ''Zlib'')"
| "decompress X BZip2 data = Err (CompressionNotSupported ''BZip2'')"
| "decompress X Xpress data = Err (CompressionNotSupported ''Xpress'')"

text \<open>
  A borrowed result of \<open>decompress\<close> is the raw part of the buffer, which the source then truncates
  in place: both arms return the decompressed bytes.
\<close>

definition decode_block_contents ::
    "ext \<Rightarrow> bytes \<Rightarrow> BlockHandle \<Rightarrow> ChecksumType \<Rightarrow> u32 \<Rightarrow> bytes outcome" where
  "decode_block_contents X raw_with_trailer handle ct bcc =
     (let raw_len = unat (handle_size handle) in
      obind (usize_add raw_len BLOCK_TRAILER_SIZE) (\<lambda>expected.
      if length raw_with_trailer \<noteq> expected
      then Err (BlockWrongSize expected (length raw_with_trailer))
      else
      let raw = take raw_len raw_with_trailer;
          trailer = drop raw_len raw_with_trailer
      in obind (vec_get trailer 0) (\<lambda>comp_byte.
         obind (slice trailer 1 5) (\<lambda>b.
         let stored_checksum = from_le_bytes b :: u32;
             computed = compute_checksum_with_last_byte X ct raw comp_byte +
                        checksum_modifier_for_context bcc (handle_offset handle)
         in if ct \<noteq> NoChecksum \<and> computed \<noteq> stored_checksum
            then Err (BlockChecksumMismatch (handle_offset handle) stored_checksum computed)
            else obind (compression_from_byte comp_byte) (\<lambda>compression.
                 decompress X compression raw)))))"

record ParsedBlock =
  contents :: bytes
  restarts :: "u32 list"

fun read_restarts :: "bytes \<Rightarrow> nat \<Rightarrow> nat \<Rightarrow> u32 list outcome" where
  "read_restarts cs off 0 = Ok []"
| "read_restarts cs off (Suc n) =
     obind (slice cs off (off + 4)) (\<lambda>b.
     obind (read_restarts cs (off + 4) n) (\<lambda>rs. Ok (from_le_bytes b # rs)))"

definition parse_block :: "bytes \<Rightarrow> ParsedBlock outcome" where
  "parse_block cs =
     (if length cs < 4 then Err (Msg ''block too small to contain restart trailer'')
      else
        let n = length cs in
        obind (slice cs (n - 4) n) (\<lambda>b.
        let num_restarts = unat (from_le_bytes b :: u32);
            restarts_len = num_restarts * 4
        in if n < 4 + restarts_len then Err (Msg ''block restart array out of bounds'')
           else
             let restarts_start = n - 4 - restarts_len in
             obind (read_restarts cs restarts_start num_restarts) (\<lambda>rs.
             Ok \<lparr>contents = cs, restarts = rs\<rparr>)))"

definition block_data :: "ParsedBlock \<Rightarrow> bytes outcome" where
  "block_data block =
     (let restarts_len = length (restarts block) * 4 in
      obind (usize_sub (length (contents block)) 4) (\<lambda>n.
      obind (usize_sub n restarts_len) (\<lambda>entries_end.
      slice (contents block) 0 entries_end)))"

text \<open>
  One iteration of the loop of \<open>for_each_entry\<close>: the key, the value and the position it leaves.
\<close>

definition decode_entry :: "bytes \<Rightarrow> bytes \<Rightarrow> nat \<Rightarrow> (bytes \<times> bytes \<times> nat) outcome" where
  "decode_entry data key_scratch pos0 =
     (case get_varint32 data pos0 of
        (None, _) \<Rightarrow> Err (Msg ''truncated entry: shared_bytes'')
      | (Some shared, pos1) \<Rightarrow>
     (case get_varint32 data pos1 of
        (None, _) \<Rightarrow> Err (Msg ''truncated entry: unshared_bytes'')
      | (Some unshared, pos2) \<Rightarrow>
     (case get_varint32 data pos2 of
        (None, _) \<Rightarrow> Err (Msg ''truncated entry: value_length'')
      | (Some value_len, pos3) \<Rightarrow>
        if unat shared > length key_scratch
        then Err (Msg ''corrupt entry: shared_bytes exceeds last key length'')
        else
          obind (ok_or (get_range data pos3 (pos3 + unat unshared))
                   (Msg ''truncated entry: key_delta'')) (\<lambda>key_delta.
          let pos4 = pos3 + unat unshared;
              key = take (unat shared) key_scratch @ key_delta
          in obind (ok_or (get_range data pos4 (pos4 + unat value_len))
                      (Msg ''truncated entry: value'')) (\<lambda>val.
             Ok (key, val, pos4 + unat value_len))))))"

lemma decode_entry_progress:
  assumes "decode_entry data ks pos = Ok (k, v, p)"
  shows "pos < p \<and> p \<le> length data"
proof -
  obtain a p1 where a: "get_varint32 data pos = (a, p1)" by (cases "get_varint32 data pos")
  obtain b p2 where b: "get_varint32 data p1 = (b, p2)" by (cases "get_varint32 data p1")
  obtain c p3 where c: "get_varint32 data p2 = (c, p3)" by (cases "get_varint32 data p2")
  show ?thesis
    using assms a b c
    by (cases a; cases b; cases c)
       (auto simp: decode_entry_def get_range_def Let_def dest!: get_varint32_progress split: if_splits)
qed

function entry_loop ::
    "('st \<Rightarrow> bytes \<Rightarrow> bytes \<Rightarrow> 'st) \<Rightarrow> bytes \<Rightarrow> 'st \<Rightarrow> bytes \<Rightarrow> nat \<Rightarrow> 'st \<times> unit outcome" where
  "entry_loop f data st key_scratch pos =
     (if pos < length data then
        case decode_entry data key_scratch pos of
          Ok (k, v, pos') \<Rightarrow> entry_loop f data (f st k v) k pos'
        | Err e \<Rightarrow> (st, Err e)
        | Panic \<Rightarrow> (st, Panic)
      else (st, Ok ()))"
  by pat_completeness auto
termination
  by (relation "measure (\<lambda>(f, data, st, ks, pos). length data - pos)")
     (auto dest: decode_entry_progress)

declare entry_loop.simps [simp del]

definition for_each_entry ::
    "ParsedBlock \<Rightarrow> ('st \<Rightarrow> bytes \<Rightarrow> bytes \<Rightarrow> 'st) \<Rightarrow> 'st \<Rightarrow> 'st \<times> unit outcome" where
  "for_each_entry block f st =
     (case block_data block of
        Ok data \<Rightarrow> entry_loop f data st [] 0
      | Err e \<Rightarrow> (st, Err e)
      | Panic \<Rightarrow> (st, Panic))"

definition get_varsigned64 :: "bytes \<Rightarrow> nat \<Rightarrow> i64 option \<times> nat" where
  "get_varsigned64 buf pos =
     (case get_varint64 buf pos of
        (None, p) \<Rightarrow> (None, p)
      | (Some u, p) \<Rightarrow> (Some (drop_bit 1 u XOR - (u AND 1)), p))"

text \<open>
  The handle of an index entry: in full, or as the difference of its size to that of the previous
  handle.
\<close>

definition decode_index_value ::
    "bytes \<Rightarrow> bool \<Rightarrow> BlockHandle option \<Rightarrow> nat \<Rightarrow> (BlockHandle \<times> nat) outcome" where
  "decode_index_value data full last_handle pos0 =
     (if full then
        (case get_varint64 data pos0 of
           (None, _) \<Rightarrow> Err (Msg ''truncated index value: offset'')
         | (Some offset, pos1) \<Rightarrow>
        (case get_varint64 data pos1 of
           (None, _) \<Rightarrow> Err (Msg ''truncated index value: size'')
         | (Some sz, pos2) \<Rightarrow> Ok (\<lparr>handle_offset = offset, handle_size = sz\<rparr>, pos2)))
      else
        obind (ok_or last_handle (Msg ''delta-encoded index value with no previous handle'')) (\<lambda>prev.
        case get_varsigned64 data pos0 of
          (None, _) \<Rightarrow> Err (Msg ''truncated index value: size delta'')
        | (Some delta, pos1) \<Rightarrow>
            obind (i64_add (handle_size prev) delta) (\<lambda>new_size.
            obind (u64_add (handle_offset prev) (handle_size prev)) (\<lambda>o1.
            obind (u64_add o1 (of_nat BLOCK_TRAILER_SIZE)) (\<lambda>o2.
            Ok (\<lparr>handle_offset = o2, handle_size = new_size\<rparr>, pos1))))))"

definition decode_index_entry ::
    "nat list \<Rightarrow> bytes \<Rightarrow> bytes \<Rightarrow> BlockHandle option \<Rightarrow> nat \<Rightarrow> (bytes \<times> BlockHandle \<times> nat) outcome" where
  "decode_index_entry restart_offsets data key_scratch last_handle pos0 =
     (let at_restart = (pos0 \<in> set restart_offsets) in
      case get_varint32 data pos0 of
        (None, _) \<Rightarrow> Err (Msg ''truncated index entry: shared_bytes'')
      | (Some shared, pos1) \<Rightarrow>
     (case get_varint32 data pos1 of
        (None, _) \<Rightarrow> Err (Msg ''truncated index entry: non_shared_bytes'')
      | (Some unshared, pos2) \<Rightarrow>
        if unat shared > length key_scratch
        then Err (Msg ''corrupt index entry: shared_bytes exceeds last key length'')
        else
          obind (ok_or (get_range data pos2 (pos2 + unat unshared))
                   (Msg ''truncated index entry: key_delta'')) (\<lambda>key_delta.
          let pos3 = pos2 + unat unshared;
              key = take (unat shared) key_scratch @ key_delta;
              is_shared = (unat shared \<noteq> 0)
          in obind (decode_index_value data (at_restart \<or> \<not> is_shared) last_handle pos3) (\<lambda>(h, pos4).
             Ok (key, h, pos4)))))"

lemma get_varsigned64_progress:
  "get_varsigned64 buf pos = (Some v, p) \<Longrightarrow> pos < p \<and> p \<le> length buf"
  by (auto simp: get_varsigned64_def dest: get_varint64_progress split: prod.splits option.splits)

lemma decode_index_value_progress:
  assumes "decode_index_value data full lh pos = Ok (h, p)"
  shows "pos < p \<and> p \<le> length data"
proof -
  obtain a p1 where a: "get_varint64 data pos = (a, p1)" by (cases "get_varint64 data pos")
  obtain b p2 where b: "get_varint64 data p1 = (b, p2)" by (cases "get_varint64 data p1")
  obtain c p3 where c: "get_varsigned64 data pos = (c, p3)" by (cases "get_varsigned64 data pos")
  show ?thesis
    using assms a b c
    by (cases a; cases b; cases c)
       (auto simp: decode_index_value_def
          dest!: get_varint64_progress get_varsigned64_progress split: if_splits)
qed

lemma decode_index_entry_progress:
  assumes "decode_index_entry ro data ks lh pos = Ok (k, h, p)"
  shows "pos < p \<and> p \<le> length data"
proof -
  obtain a p1 where a: "get_varint32 data pos = (a, p1)" by (cases "get_varint32 data pos")
  obtain b p2 where b: "get_varint32 data p1 = (b, p2)" by (cases "get_varint32 data p1")
  show ?thesis
    using assms a b
    by (cases a; cases b)
       (auto simp: decode_index_entry_def get_range_def Let_def
          dest!: get_varint32_progress decode_index_value_progress split: if_splits)
qed

function index_loop ::
    "('st \<Rightarrow> bytes \<Rightarrow> BlockHandle \<Rightarrow> 'st) \<Rightarrow> nat list \<Rightarrow> bytes \<Rightarrow> 'st \<Rightarrow> bytes \<Rightarrow> BlockHandle option \<Rightarrow> nat \<Rightarrow>
       'st \<times> unit outcome" where
  "index_loop f restart_offsets data st key_scratch last_handle pos =
     (if pos < length data then
        case decode_index_entry restart_offsets data key_scratch last_handle pos of
          Ok (k, h, pos') \<Rightarrow> index_loop f restart_offsets data (f st k h) k (Some h) pos'
        | Err e \<Rightarrow> (st, Err e)
        | Panic \<Rightarrow> (st, Panic)
      else (st, Ok ()))"
  by pat_completeness auto
termination
  by (relation "measure (\<lambda>(f, ro, data, st, ks, lh, pos). length data - pos)")
     (auto dest: decode_index_entry_progress)

declare index_loop.simps [simp del]

definition for_each_index_entry ::
    "ParsedBlock \<Rightarrow> ('st \<Rightarrow> bytes \<Rightarrow> BlockHandle \<Rightarrow> 'st) \<Rightarrow> 'st \<Rightarrow> 'st \<times> unit outcome" where
  "for_each_index_entry block f st =
     (case block_data block of
        Ok data \<Rightarrow> index_loop f (sort (map unat (restarts block))) data st [] None 0
      | Err e \<Rightarrow> (st, Err e)
      | Panic \<Rightarrow> (st, Panic))"

section \<open>Trailer\<close>

lemma length_encode_block [simp]: "length (encode_block_with_trailer X raw off ct bcc) = length raw + 5"
  by (simp add: encode_block_with_trailer_def Let_def)

lemma decode_encoded_block:
  assumes "length raw + 5 < 2 ^ 64"
  shows "decode_block_contents X (encode_block_with_trailer X raw off ct bcc)
           \<lparr>handle_offset = off, handle_size = of_nat (length raw)\<rparr> ct bcc = Ok raw"
proof -
  have len: "unat (of_nat (length raw) :: u64) = length raw"
    using assms by (intro unat_of_nat_u64) simp
  have "slice (0 # u32_to_le_bytes c) 1 5 = Ok (u32_to_le_bytes c)" for c
    by (simp add: slice_def get_range_def)
  with assms show ?thesis
    by (simp add: decode_block_contents_def encode_block_with_trailer_def Let_def len usize_add_def
          BLOCK_TRAILER_SIZE_def compression_from_byte_def)
qed

section \<open>Restart array\<close>

definition restart_trailer :: "u32 list \<Rightarrow> bytes" where
  "restart_trailer rs = concat (map u32_to_le_bytes rs) @ u32_to_le_bytes (of_nat (length rs))"

lemma length_concat_u32 [simp]: "length (concat (map u32_to_le_bytes rs)) = 4 * length rs"
  by (induction rs) auto

lemma length_restart_trailer [simp]: "length (restart_trailer rs) = 4 * length rs + 4"
  by (simp add: restart_trailer_def)

lemma read_restarts_concat:
  "read_restarts (pre @ concat (map u32_to_le_bytes rs) @ post) (length pre) (length rs) = Ok rs"
proof (induction rs arbitrary: pre)
  case (Cons r rs)
  from Cons.IH[of "pre @ u32_to_le_bytes r"] show ?case
    by (simp add: slice_def)
qed simp

lemma parse_block_restarts:
  assumes "length rs < 2 ^ 32"
  shows "parse_block (data @ restart_trailer rs) = Ok \<lparr>contents = data @ restart_trailer rs, restarts = rs\<rparr>"
proof -
  let ?cs = "data @ restart_trailer rs" and ?n = "of_nat (length rs) :: u32"
  have num: "unat ?n = length rs" using assms by (intro unat_of_nat_u32) simp
  have tail: "slice ?cs (length ?cs - 4) (length ?cs) = Ok (u32_to_le_bytes ?n)"
    by (simp add: restart_trailer_def slice_def get_range_def)
  have "read_restarts ?cs (length data) (length rs) = Ok rs"
    using read_restarts_concat[of data rs "u32_to_le_bytes ?n"] by (simp add: restart_trailer_def)
  with tail num show ?thesis
    by (simp add: parse_block_def Let_def)
qed

lemma block_data_restarts:
  "block_data \<lparr>contents = data @ restart_trailer rs, restarts = rs\<rparr> = Ok data"
  by (simp add: block_data_def usize_sub_def slice_def get_range_def Let_def)

section \<open>Walks over malformed blocks\<close>

lemma read_restarts_Ok:
  "off + 4 * n \<le> length cs \<Longrightarrow> \<exists>rs. read_restarts cs off n = Ok rs \<and> length rs = n"
proof (induction n arbitrary: off)
  case (Suc n)
  from Suc.IH[of "off + 4"] Suc.prems show ?case by (auto simp: slice_def get_range_def)
qed simp

lemma parse_block_not_Panic: "parse_block cs \<noteq> Panic"
proof (cases "length cs < 4")
  case False
  let ?n = "unat (from_le_bytes (take 4 (drop (length cs - 4) cs)) :: u32)"
  have "slice cs (length cs - 4) (length cs) = Ok (take 4 (drop (length cs - 4) cs))"
    using False by (simp add: slice_def get_range_def)
  then show ?thesis
    using False read_restarts_Ok[of "length cs - 4 - ?n * 4" ?n cs]
    by (auto simp: parse_block_def Let_def)
qed (simp add: parse_block_def)

lemma parse_block_data:
  assumes "parse_block cs = Ok b"
  shows "\<exists>data. block_data b = Ok data"
proof -
  let ?n = "unat (from_le_bytes (take 4 (drop (length cs - 4) cs)) :: u32)"
  have len: "4 \<le> length cs" using assms by (auto simp: parse_block_def split: if_splits)
  then have "slice cs (length cs - 4) (length cs) = Ok (take 4 (drop (length cs - 4) cs))"
    by (simp add: slice_def get_range_def)
  then have "4 + 4 * length (restarts b) \<le> length cs" "contents b = cs"
    using assms len read_restarts_Ok[of "length cs - 4 - ?n * 4" ?n cs]
    by (auto simp: parse_block_def Let_def split: if_splits)
  then show ?thesis by (simp add: block_data_def usize_sub_def slice_def get_range_def Let_def)
qed

lemma decode_entry_not_Panic: "decode_entry data ks pos \<noteq> Panic"
proof -
  obtain a p1 where a: "get_varint32 data pos = (a, p1)" by (cases "get_varint32 data pos")
  obtain b p2 where b: "get_varint32 data p1 = (b, p2)" by (cases "get_varint32 data p1")
  obtain c p3 where c: "get_varint32 data p2 = (c, p3)" by (cases "get_varint32 data p2")
  have ok_or: "obind (ok_or m e) g \<noteq> Panic" if "\<And>x. g x \<noteq> Panic" for m :: "'x option" and e and g :: "'x \<Rightarrow> 'y outcome"
    using that by (cases m) simp_all
  show ?thesis
    using a b c by (cases a; cases b; cases c) (simp_all add: decode_entry_def Let_def ok_or)
qed

lemma entry_loop_not_Panic: "snd (entry_loop f data st ks pos) \<noteq> Panic"
proof (induction f data st ks pos rule: entry_loop.induct)
  case (1 f data st ks pos)
  show ?case
    using "1.IH" decode_entry_not_Panic[of data ks pos]
    by (subst entry_loop.simps) (auto split: outcome.split)
qed

section \<open>Properties\<close>

text \<open>
  A block written with its trailer is read back: checksum and compression byte are accepted and
  the raw contents returned, for every checksum type and hash function.
\<close>

theorem block_trailer_roundtrip:
  assumes "length raw + BLOCK_TRAILER_SIZE < 2 ^ 64"
  shows "decode_block_contents X (encode_block_with_trailer X raw off ct bcc)
           \<lparr>handle_offset = off, handle_size = of_nat (length raw)\<rparr> ct bcc = Ok raw \<and>
         block_read_len \<lparr>handle_offset = off, handle_size = of_nat (length raw)\<rparr> =
           Ok (length (encode_block_with_trailer X raw off ct bcc))"
proof -
  have "length raw + 5 < 2 ^ 64" using assms by (simp add: BLOCK_TRAILER_SIZE_def)
  moreover from this have "unat (of_nat (length raw) :: u64) = length raw"
    by (intro unat_of_nat_u64) simp
  ultimately show ?thesis
    by (simp add: decode_encoded_block block_read_len_def usize_add_def BLOCK_TRAILER_SIZE_def)
qed

theorem block_trailer_roundtrip_witness:
  "decode_block_contents example_ext (encode_block_with_trailer example_ext [1, 2, 3] 77 XxH3 9)
     \<lparr>handle_offset = 77, handle_size = 3\<rparr> XxH3 9 = Ok [1, 2, 3]"
  using block_trailer_roundtrip[of "[1, 2, 3]" example_ext 77 XxH3 9]
  by (simp add: BLOCK_TRAILER_SIZE_def)

text \<open>
  The decompressor that the compression byte selects is called on these bytes, and it panics;
  and the block, with its trailer, gets that far: it has the announced length and passes its checksum.
\<close>

definition codec_panics :: "ext \<Rightarrow> u8 \<Rightarrow> bytes \<Rightarrow> bool" where
  "codec_panics X comp_byte data \<longleftrightarrow>
     comp_byte = 0x01 \<and> snappy_decompress X data = CodecPanic \<or>
     (\<exists>n pos. get_varint64 data 0 = (Some n, pos) \<and>
       (comp_byte \<in> {0x04, 0x05} \<and> lz4_decompress X (drop pos data) (unat n) = CodecPanic \<or>
        comp_byte = 0x07 \<and> zstd_decompress X (drop pos data) (unat n) = CodecPanic))"

definition block_codec_panics :: "ext \<Rightarrow> bytes \<Rightarrow> BlockHandle \<Rightarrow> ChecksumType \<Rightarrow> u32 \<Rightarrow> bool" where
  "block_codec_panics X raw_with_trailer h ct bcc \<longleftrightarrow>
     (let n = unat (handle_size h); raw = take n raw_with_trailer; comp_byte = raw_with_trailer ! n in
      length raw_with_trailer = n + BLOCK_TRAILER_SIZE \<and>
      (ct \<noteq> NoChecksum \<longrightarrow>
         from_le_bytes (drop (n + 1) raw_with_trailer) =
           compute_checksum_with_last_byte X ct raw comp_byte +
           checksum_modifier_for_context bcc (handle_offset h)) \<and>
      codec_panics X comp_byte raw)"

lemma from_codec_Panic_iff: "from_codec name r = Panic \<longleftrightarrow> r = CodecPanic"
  by (cases r) simp_all

lemma split_size_prefix:
  "split_uncompressed_size_prefix d \<noteq> Panic"
  "split_uncompressed_size_prefix d = Ok (n, payload) \<longleftrightarrow>
     (\<exists>sz pos. get_varint64 d 0 = (Some sz, pos) \<and> n = unat sz \<and> payload = drop pos d)"
  using get_varint64_progress[of d 0]
  by (auto simp: split_uncompressed_size_prefix_def slice_def get_range_def split: prod.splits option.splits)

lemma decompress_Panic_iff:
  "obind (compression_from_byte b) (\<lambda>c. decompress X c d) = Panic \<longleftrightarrow> codec_panics X b d"
proof -
  have size: "obind (split_uncompressed_size_prefix d) (\<lambda>(n, payload). from_codec name (f payload n)) = Panic \<longleftrightarrow>
      (\<exists>n pos. get_varint64 d 0 = (Some n, pos) \<and> f (drop pos d) (unat n) = CodecPanic)" for name f
    by (auto simp: obind_eq_Panic_iff split_size_prefix from_codec_Panic_iff)
  show ?thesis
    by (simp add: compression_from_byte_def codec_panics_def size from_codec_Panic_iff)
qed

lemma decode_block_intact:
  fixes h :: BlockHandle
  defines "n \<equiv> unat (handle_size h)"
  assumes "n + BLOCK_TRAILER_SIZE < 2 ^ 64" and "length raw_with_trailer = n + BLOCK_TRAILER_SIZE"
  shows "decode_block_contents X raw_with_trailer h ct bcc =
    (let stored = from_le_bytes (drop (n + 1) raw_with_trailer);
         computed = compute_checksum_with_last_byte X ct (take n raw_with_trailer) (raw_with_trailer ! n) +
           checksum_modifier_for_context bcc (handle_offset h)
     in if ct \<noteq> NoChecksum \<and> computed \<noteq> stored
        then Err (BlockChecksumMismatch (handle_offset h) stored computed)
        else obind (compression_from_byte (raw_with_trailer ! n)) (\<lambda>c. decompress X c (take n raw_with_trailer)))"
proof -
  let ?t = "drop n raw_with_trailer"
  have "vec_get ?t 0 = Ok (raw_with_trailer ! n)" "slice ?t 1 5 = Ok (drop (n + 1) raw_with_trailer)"
    using assms(3) by (simp_all add: vec_get_def slice_def get_range_def BLOCK_TRAILER_SIZE_def)
  then show ?thesis
    using assms by (simp add: decode_block_contents_def Let_def usize_add_def)
qed

lemma decode_block_Panic_iff:
  "decode_block_contents X raw_with_trailer h ct bcc = Panic \<longleftrightarrow>
     unat (handle_size h) + BLOCK_TRAILER_SIZE \<ge> 2 ^ 64 \<or> block_codec_panics X raw_with_trailer h ct bcc"
proof (cases "unat (handle_size h) + BLOCK_TRAILER_SIZE < 2 ^ 64 \<and>
    length raw_with_trailer = unat (handle_size h) + BLOCK_TRAILER_SIZE")
  case True
  then show ?thesis
    by (auto simp: decode_block_intact block_codec_panics_def decompress_Panic_iff Let_def)
next
  case False
  then show ?thesis
    by (auto simp: decode_block_contents_def block_codec_panics_def Let_def usize_add_def)
qed

text \<open>
  C36. A block is only accepted with the length that its handle announces and, unless checksums are
  off, with the stored checksum equal to the one computed over its bytes, its compression byte and its
  offset. Reading one panics exactly when the announced length overflows, or when the block has
  passed these checks and the decompressor that its compression byte selects panics on its bytes, given,
  for LZ4 and Zstd, the size that the block itself announces.
\<close>

theorem decode_block_accepts:
  "(decode_block_contents X raw_with_trailer h ct bcc = Ok out \<longrightarrow>
      length raw_with_trailer = unat (handle_size h) + BLOCK_TRAILER_SIZE \<and>
      (ct \<noteq> NoChecksum \<longrightarrow>
         from_le_bytes (drop (unat (handle_size h) + 1) raw_with_trailer) =
           compute_checksum_with_last_byte X ct (take (unat (handle_size h)) raw_with_trailer)
             (raw_with_trailer ! unat (handle_size h)) +
           checksum_modifier_for_context bcc (handle_offset h))) \<and>
   (decode_block_contents X raw_with_trailer h ct bcc = Panic \<longleftrightarrow>
      unat (handle_size h) + BLOCK_TRAILER_SIZE \<ge> 2 ^ 64 \<or> block_codec_panics X raw_with_trailer h ct bcc)"
proof (cases "unat (handle_size h) + BLOCK_TRAILER_SIZE < 2 ^ 64 \<and>
    length raw_with_trailer = unat (handle_size h) + BLOCK_TRAILER_SIZE")
  case True
  then show ?thesis
    unfolding decode_block_Panic_iff by (auto simp: decode_block_intact Let_def split: if_splits)
next
  case False
  then show ?thesis
    unfolding decode_block_Panic_iff by (auto simp: decode_block_contents_def Let_def usize_add_def)
qed

theorem decode_block_accepts_witness:
  "decode_block_contents example_ext [1, 0, 0, 0, 0, 0] \<lparr>handle_offset = 0, handle_size = 1\<rparr> NoChecksum 0 =
     Ok [1] \<and>
   decode_block_contents allocating_ext ([128, 128, 128, 128, 128, 128, 128, 128, 128, 1] @ [4, 0, 0, 0, 0])
     \<lparr>handle_offset = 0, handle_size = 10\<rparr> NoChecksum 0 = Panic"
proof -
  let ?raw = "[128, 128, 128, 128, 128, 128, 128, 128, 128, 1] @ [4, 0, 0, 0, 0]"
  have "get_varint64 (take 10 ?raw) 0 = (Some 0x8000000000000000, 10)" by code_simp
  then have "block_codec_panics allocating_ext ?raw \<lparr>handle_offset = 0, handle_size = 10\<rparr> NoChecksum 0"
    by (simp add: block_codec_panics_def codec_panics_def BLOCK_TRAILER_SIZE_def allocating_ext_def)
  then have "decode_block_contents allocating_ext ?raw \<lparr>handle_offset = 0, handle_size = 10\<rparr> NoChecksum 0 = Panic"
    using decode_block_accepts[of allocating_ext ?raw "\<lparr>handle_offset = 0, handle_size = 10\<rparr>" NoChecksum 0 "[]"]
    by blast
  moreover have "decode_block_contents example_ext [1, 0, 0, 0, 0, 0] \<lparr>handle_offset = 0, handle_size = 1\<rparr>
      NoChecksum 0 = Ok [1]"
    by (simp add: decode_block_intact BLOCK_TRAILER_SIZE_def Let_def compression_from_byte_def)
  ultimately show ?thesis by blast
qed

text \<open>
  C38. Whatever the bytes of a block, parsing it does not panic, and neither does the walk over the
  entries of what was parsed: a corrupt data block gives an error.
\<close>

theorem data_block_walk_no_panic:
  "parse_block cs \<noteq> Panic \<and>
   (parse_block cs = Ok b \<longrightarrow> snd (for_each_entry b f st) \<noteq> Panic)"
  using parse_block_not_Panic parse_block_data entry_loop_not_Panic
  by (fastforce simp: for_each_entry_def)

theorem data_block_walk_no_panic_witness:
  "parse_block [5, 0, 0, 0, 0, 0, 0, 1, 0, 0, 0] \<noteq> Panic \<and>
   snd (for_each_entry \<lparr>contents = [5, 0, 0, 0, 0, 0, 0, 1, 0, 0, 0], restarts = [0]\<rparr>
          (\<lambda>st k v. st @ [(k, v)]) []) \<noteq> Panic"
proof -
  have "parse_block [5, 0, 0, 0, 0, 0, 0, 1, 0, 0, 0] =
      Ok \<lparr>contents = [5, 0, 0, 0, 0, 0, 0, 1, 0, 0, 0], restarts = [0]\<rparr>"
    by code_simp
  then show ?thesis
    using data_block_walk_no_panic[of "[5, 0, 0, 0, 0, 0, 0, 1, 0, 0, 0]"
        "\<lparr>contents = [5, 0, 0, 0, 0, 0, 0, 1, 0, 0, 0], restarts = [0]\<rparr>" "\<lambda>st k v. st @ [(k, v)]" "[]"]
    by blast
qed

end
