(* ===== verification/Block_Builder.thy ===== *)
theory Block_Builder
  imports Block
begin

unbundle bit_operations_syntax

text \<open>
  The builders of data and index blocks (\<^verbatim>\<open>format/block_builder.rs\<close>), and that the walks of
  \<^verbatim>\<open>format/block.rs\<close> read back what they wrote. The encodings are described by the relations
  \<open>data_enc\<close> and \<open>index_enc\<close>, which the builders establish and the walks decode; neither depends on
  where the restart points are.
\<close>

section \<open>Model\<close>

definition DEFAULT_RESTART_INTERVAL :: nat where
  "DEFAULT_RESTART_INTERVAL = 16"

definition shared_prefix_len :: "bytes \<Rightarrow> bytes \<Rightarrow> nat" where
  "shared_prefix_len a b = length (takeWhile (\<lambda>(x, y). x = y) (zip a b))"

record BlockBuilder =
  bb_restart_interval :: nat
  bb_buffer :: bytes
  bb_restarts :: "u32 list"
  bb_last_key :: bytes
  bb_counter :: nat
  bb_finished :: bool

definition block_builder_new :: "nat \<Rightarrow> BlockBuilder outcome" where
  "block_builder_new restart_interval =
     obind (ensure (restart_interval \<ge> 1)) (\<lambda>_.
     Ok \<lparr>bb_restart_interval = restart_interval, bb_buffer = [], bb_restarts = [0], bb_last_key = [],
         bb_counter = 0, bb_finished = False\<rparr>)"

definition block_builder_is_empty :: "BlockBuilder \<Rightarrow> bool" where
  "block_builder_is_empty b \<longleftrightarrow> bb_buffer b = []"

definition block_builder_current_size_estimate :: "BlockBuilder \<Rightarrow> nat" where
  "block_builder_current_size_estimate b = length (bb_buffer b) + length (bb_restarts b) * 4 + 4"

definition block_builder_add :: "BlockBuilder \<Rightarrow> bytes \<Rightarrow> bytes \<Rightarrow> BlockBuilder outcome" where
  "block_builder_add b key val =
     obind (ensure (\<not> bb_finished b)) (\<lambda>_.
     obind (ensure (bb_counter b \<le> bb_restart_interval b)) (\<lambda>_.
     let shared = (if bb_counter b \<ge> bb_restart_interval b then 0
                   else shared_prefix_len (bb_last_key b) key);
         b1 = (if bb_counter b \<ge> bb_restart_interval b
               then b\<lparr>bb_restarts := bb_restarts b @ [of_nat (length (bb_buffer b))], bb_counter := 0\<rparr>
               else b);
         non_shared = length key - shared;
         buf1 = put_varint32 (bb_buffer b1) (of_nat shared);
         buf2 = put_varint32 buf1 (of_nat non_shared);
         buf3 = put_varint32 buf2 (of_nat (length val));
         buf4 = buf3 @ drop shared key @ val
     in Ok (b1\<lparr>bb_buffer := buf4, bb_last_key := key, bb_counter := bb_counter b1 + 1\<rparr>)))"

definition block_builder_finish :: "BlockBuilder \<Rightarrow> bytes" where
  "block_builder_finish b =
     bb_buffer b @ concat (map u32_to_le_bytes (bb_restarts b)) @
     u32_to_le_bytes (of_nat (length (bb_restarts b)))"

record IndexBlockBuilder =
  ib_restart_interval :: nat
  ib_buffer :: bytes
  ib_restarts :: "u32 list"
  ib_last_key :: bytes
  ib_last_handle :: "BlockHandle option"
  ib_counter :: nat

definition index_builder_new :: "nat \<Rightarrow> IndexBlockBuilder outcome" where
  "index_builder_new restart_interval =
     obind (ensure (restart_interval \<ge> 1)) (\<lambda>_.
     Ok \<lparr>ib_restart_interval = restart_interval, ib_buffer = [], ib_restarts = [0], ib_last_key = [],
         ib_last_handle = None, ib_counter = 0\<rparr>)"

definition index_builder_is_empty :: "IndexBlockBuilder \<Rightarrow> bool" where
  "index_builder_is_empty b \<longleftrightarrow> ib_buffer b = []"

definition index_builder_current_size_estimate :: "IndexBlockBuilder \<Rightarrow> nat" where
  "index_builder_current_size_estimate b = length (ib_buffer b) + length (ib_restarts b) * 4 + 4"

definition put_varsigned64 :: "bytes \<Rightarrow> i64 \<Rightarrow> bytes" where
  "put_varsigned64 out v = put_varint64 out (push_bit 1 v XOR signed_drop_bit 63 v)"

definition index_builder_add :: "IndexBlockBuilder \<Rightarrow> bytes \<Rightarrow> BlockHandle \<Rightarrow> IndexBlockBuilder outcome" where
  "index_builder_add b key handle =
     (let at_restart = (ib_counter b \<ge> ib_restart_interval b);
          shared = (if at_restart then 0 else shared_prefix_len (ib_last_key b) key);
          b1 = (if at_restart
                then b\<lparr>ib_restarts := ib_restarts b @ [of_nat (length (ib_buffer b))], ib_counter := 0\<rparr>
                else b);
          non_shared = length key - shared;
          buf1 = put_varint32 (ib_buffer b1) (of_nat shared);
          buf2 = put_varint32 buf1 (of_nat non_shared);
          buf3 = buf2 @ drop shared key
      in obind (if at_restart \<or> shared = 0
                then Ok (put_varint64 (put_varint64 buf3 (handle_offset handle)) (handle_size handle))
                else obind (expect (ib_last_handle b1)) (\<lambda>prev.
                     obind (i64_sub (handle_size handle) (handle_size prev)) (\<lambda>delta.
                     Ok (put_varsigned64 buf3 delta)))) (\<lambda>buf4.
         Ok (b1\<lparr>ib_buffer := buf4, ib_last_key := key, ib_last_handle := Some handle,
                ib_counter := ib_counter b1 + 1\<rparr>)))"

definition index_builder_finish :: "IndexBlockBuilder \<Rightarrow> bytes" where
  "index_builder_finish b =
     ib_buffer b @ concat (map u32_to_le_bytes (ib_restarts b)) @
     u32_to_le_bytes (of_nat (length (ib_restarts b)))"

fun block_builder_add_all :: "BlockBuilder \<Rightarrow> entry list \<Rightarrow> BlockBuilder outcome" where
  "block_builder_add_all b [] = Ok b"
| "block_builder_add_all b ((k, v) # es) = obind (block_builder_add b k v) (\<lambda>b'. block_builder_add_all b' es)"

fun index_builder_add_all ::
    "IndexBlockBuilder \<Rightarrow> (bytes \<times> BlockHandle) list \<Rightarrow> IndexBlockBuilder outcome" where
  "index_builder_add_all b [] = Ok b"
| "index_builder_add_all b ((k, h) # hs) = obind (index_builder_add b k h) (\<lambda>b'. index_builder_add_all b' hs)"

section \<open>Shared prefixes\<close>

lemma shared_prefix_len_Nil [simp]: "shared_prefix_len [] b = 0"
  by (simp add: shared_prefix_len_def)

lemma shared_prefix_len_Cons [simp]:
  "shared_prefix_len (x # a) (y # b) = (if x = y then Suc (shared_prefix_len a b) else 0)"
  "shared_prefix_len a [] = 0"
  by (simp_all add: shared_prefix_len_def)

lemma shared_prefix_len_le: "shared_prefix_len a b \<le> length a" "shared_prefix_len a b \<le> length b"
proof -
  have "shared_prefix_len a b \<le> length a \<and> shared_prefix_len a b \<le> length b"
    by (induction a b rule: list_induct2') auto
  then show "shared_prefix_len a b \<le> length a" "shared_prefix_len a b \<le> length b" by auto
qed

lemma shared_prefix_take: "take (shared_prefix_len a b) a = take (shared_prefix_len a b) b"
  by (induction a b rule: list_induct2') auto

text \<open>A count of shared bytes that the reader can use.\<close>

definition shares :: "nat \<Rightarrow> bytes \<Rightarrow> bytes \<Rightarrow> bool" where
  "shares sh prev key \<longleftrightarrow> sh \<le> length prev \<and> sh \<le> length key \<and> take sh prev = take sh key"

lemma shares_0 [simp]: "shares 0 prev key"
  by (simp add: shares_def)

lemma shares_prefix_len [simp]: "shares (shared_prefix_len prev key) prev key"
  by (simp add: shares_def shared_prefix_len_le shared_prefix_take)

lemma shares_key: "shares sh prev key \<Longrightarrow> take sh prev @ drop sh key = key"
  by (simp add: shares_def)

section \<open>Data blocks\<close>

definition entry_bytes :: "nat \<Rightarrow> bytes \<Rightarrow> bytes \<Rightarrow> bytes" where
  "entry_bytes sh key val =
     varint32 (of_nat sh) @ varint32 (of_nat (length key - sh)) @ varint32 (of_nat (length val)) @
     drop sh key @ val"

abbreviation small_entry :: "bytes \<Rightarrow> bytes \<Rightarrow> bool" where
  "small_entry key val \<equiv> length key < 2 ^ 32 \<and> length val < 2 ^ 32"

inductive data_enc :: "bytes \<Rightarrow> bytes \<Rightarrow> entry list \<Rightarrow> bool" where
  data_enc_Nil: "data_enc prev [] []"
| data_enc_Cons: "shares sh prev key \<Longrightarrow> small_entry key val \<Longrightarrow> data_enc key buf es \<Longrightarrow>
    data_enc prev (entry_bytes sh key val @ buf) ((key, val) # es)"

inductive_cases data_enc_NilE: "data_enc prev buf []"
inductive_cases data_enc_ConsE: "data_enc prev buf (e # es)"

lemma entry_bytes_nonempty [simp]: "entry_bytes sh k v \<noteq> []"
  by (simp add: entry_bytes_def)

lemma decode_entry_bytes:
  assumes sh: "shares sh ks key" and small: "small_entry key val"
  shows "decode_entry (pre @ entry_bytes sh key val @ post) ks (length pre) =
           Ok (key, val, length pre + length (entry_bytes sh key val))"
proof -
  let ?a = "varint32 (of_nat sh)" and ?b = "varint32 (of_nat (length key - sh))"
    and ?c = "varint32 (of_nat (length val))"
  let ?data = "pre @ entry_bytes sh key val @ post"
  have d1: "?data = pre @ ?a @ (?b @ ?c @ drop sh key @ val @ post)"
    and d2: "?data = (pre @ ?a) @ ?b @ (?c @ drop sh key @ val @ post)"
    and d3: "?data = (pre @ ?a @ ?b) @ ?c @ (drop sh key @ val @ post)"
    and d4: "?data = (pre @ ?a @ ?b @ ?c) @ drop sh key @ (val @ post)"
    and d5: "?data = (pre @ ?a @ ?b @ ?c @ drop sh key) @ val @ post"
    by (simp_all add: entry_bytes_def)
  have g1: "get_varint32 ?data (length pre) = (Some (of_nat sh), length (pre @ ?a))"
    unfolding d1 by simp
  have g2: "get_varint32 ?data (length (pre @ ?a)) = (Some (of_nat (length key - sh)), length (pre @ ?a @ ?b))"
    unfolding d2 by (subst get_varint32_varint) simp
  have g3: "get_varint32 ?data (length (pre @ ?a @ ?b)) = (Some (of_nat (length val)), length (pre @ ?a @ ?b @ ?c))"
    unfolding d3 by (subst get_varint32_varint) simp
  have sh_le: "sh \<le> length ks" "sh \<le> length key" using sh by (simp_all add: shares_def)
  have u: "unat (of_nat sh :: u32) = sh" "unat (of_nat (length key - sh) :: u32) = length key - sh"
    "unat (of_nat (length val) :: u32) = length val"
    using small sh_le by (simp_all add: unat_of_nat_u32 less_imp_diff_less del: of_nat_diff)
  have r1: "get_range ?data (length (pre @ ?a @ ?b @ ?c)) (length (pre @ ?a @ ?b @ ?c) + (length key - sh)) =
      Some (drop sh key)"
    unfolding d4 by (rule get_range_mid) simp_all
  have r2: "get_range ?data (length (pre @ ?a @ ?b @ ?c) + (length key - sh))
      (length (pre @ ?a @ ?b @ ?c) + (length key - sh) + length val) = Some val"
    unfolding d5 by (rule get_range_mid) simp_all
  have len: "length (pre @ ?a @ ?b @ ?c) + (length key - sh) + length val =
      length pre + length (entry_bytes sh key val)"
    by (simp add: entry_bytes_def)
  show ?thesis
    unfolding decode_entry_def g1 prod.case option.case g2 g3 u r1 ok_or.simps obind.simps Let_def r2
    unfolding len using sh_le shares_key[OF sh] by simp
qed

lemma entry_loop_data_enc:
  assumes "data_enc ks buf es"
  shows "entry_loop f (pre @ buf) st ks (length pre) = (feed f st es, Ok ())"
  using assms
proof (induction ks buf es arbitrary: pre st rule: data_enc.induct)
  case (data_enc_Nil prev)
  then show ?case by (simp add: entry_loop.simps)
next
  case (data_enc_Cons sh prev key val buf es)
  have "entry_loop f (pre @ entry_bytes sh key val @ buf) st prev (length pre) =
      entry_loop f ((pre @ entry_bytes sh key val) @ buf) (f st key val) key
        (length (pre @ entry_bytes sh key val))"
    using decode_entry_bytes[OF data_enc_Cons.hyps(1,2), of pre buf]
    by (subst entry_loop.simps) simp
  with data_enc_Cons.IH[of "pre @ entry_bytes sh key val" "f st key val"] show ?case by simp
qed

lemma data_enc_snoc:
  assumes "data_enc ks buf es" and "shares sh (last (ks # map fst es)) key" and "small_entry key val"
  shows "data_enc ks (buf @ entry_bytes sh key val) (es @ [(key, val)])"
  using assms
proof (induction ks buf es rule: data_enc.induct)
  case (data_enc_Nil prev)
  then show ?case using data_enc_Cons[OF _ _ data_enc.data_enc_Nil] by fastforce
next
  case (data_enc_Cons sh' prev key' val' buf es)
  then show ?case by (auto intro!: data_enc.data_enc_Cons)
qed

text \<open>Every entry takes at least three bytes, and at most fifteen beside its key and value.\<close>

lemma length_varint32_le: "length (varint32 w) \<le> 5" "1 \<le> length (varint32 w)"
proof -
  have "unat (ucast w :: u64) < 2 ^ (7 * 5)" using unat_u32_less(2)[of w] by (simp add: less_trans[of _ "2 ^ 32"])
  then have "length (varint (ucast w)) \<le> 5" by (rule varint_length_le) simp
  then show "length (varint32 w) \<le> 5" by (simp add: put_varint32_def)
  show "1 \<le> length (varint32 w)" by (simp add: Suc_le_eq)
qed

lemma entry_bytes_length:
  "3 \<le> length (entry_bytes sh key val)" "length (entry_bytes sh key val) \<le> 15 + length key + length val"
  using length_varint32_le[of "of_nat sh"] length_varint32_le[of "of_nat (length key - sh)"]
    length_varint32_le[of "of_nat (length val)"]
  unfolding entry_bytes_def length_append length_drop by linarith+

lemma data_enc_length:
  "data_enc ks buf es \<Longrightarrow> 3 * length es \<le> length buf \<and> length buf \<le> 15 * length es + entries_size es"
proof (induction rule: data_enc.induct)
  case (data_enc_Cons sh prev key val buf es)
  then show ?case using entry_bytes_length[of sh key val] by simp
qed simp

section \<open>The data block builder\<close>

definition bb_inv :: "BlockBuilder \<Rightarrow> entry list \<Rightarrow> bool" where
  "bb_inv b es \<longleftrightarrow>
     data_enc [] (bb_buffer b) es \<and> bb_last_key b = last ([] # map fst es) \<and>
     1 \<le> bb_restart_interval b \<and> bb_counter b \<le> bb_restart_interval b \<and> \<not> bb_finished b \<and>
     length (bb_restarts b) \<le> length es + 1"

lemma block_builder_new_inv:
  "1 \<le> ri \<Longrightarrow> \<exists>b. block_builder_new ri = Ok b \<and> bb_inv b [] \<and> bb_buffer b = []"
  by (simp add: block_builder_new_def bb_inv_def data_enc_Nil)

lemma block_builder_add_inv:
  assumes "bb_inv b es" and "small_entry k v"
  shows "\<exists>b'. block_builder_add b k v = Ok b' \<and> bb_inv b' (es @ [(k, v)])"
proof -
  let ?full = "bb_restart_interval b \<le> bb_counter b"
  let ?sh = "if ?full then 0 else shared_prefix_len (bb_last_key b) k"
  have sh: "shares ?sh (last ([] # map fst es)) k"
    using assms(1) by (simp add: bb_inv_def)
  obtain b' where b': "block_builder_add b k v = Ok b'"
    and buf: "bb_buffer b' = bb_buffer b @ entry_bytes ?sh k v"
    and rest: "bb_last_key b' = k" "bb_restart_interval b' = bb_restart_interval b"
      "bb_finished b' = bb_finished b" "bb_counter b' = (if ?full then 1 else bb_counter b + 1)"
      "length (bb_restarts b') \<le> length (bb_restarts b) + 1"
    using assms(1)
    by (cases ?full)
       (simp_all add: bb_inv_def block_builder_add_def Let_def entry_bytes_def
          put_varint32_append[of "bb_buffer b"] put_varint32_append[of "_ @ _"])
  have "data_enc [] (bb_buffer b') (es @ [(k, v)])"
    unfolding buf using assms by (intro data_enc_snoc[OF _ sh]) (simp_all add: bb_inv_def)
  with b' rest assms(1) show ?thesis by (auto simp: bb_inv_def)
qed

lemma block_builder_add_all_inv:
  assumes "bb_inv b es" and "\<forall>(k, v) \<in> set xs. small_entry k v"
  shows "\<exists>b'. block_builder_add_all b xs = Ok b' \<and> bb_inv b' (es @ xs)"
  using assms
proof (induction xs arbitrary: b es)
  case (Cons x xs)
  obtain k v where x: "x = (k, v)" by (cases x)
  obtain b1 where b1: "block_builder_add b k v = Ok b1" "bb_inv b1 (es @ [(k, v)])"
    using block_builder_add_inv[of b es k v] Cons.prems x by auto
  show ?case using Cons.IH[OF b1(2)] Cons.prems(2) b1(1) x by simp
qed simp

lemma block_builder_finish_trailer: "block_builder_finish b = bb_buffer b @ restart_trailer (bb_restarts b)"
  by (simp add: block_builder_finish_def restart_trailer_def)

lemma finished_block_walk:
  assumes "bb_inv b es" and "length es + 1 < 2 ^ 32"
  shows "\<exists>p. parse_block (block_builder_finish b) = Ok p \<and> for_each_entry p f st = (feed f st es, Ok ())"
proof -
  let ?p = "\<lparr>contents = block_builder_finish b, restarts = bb_restarts b\<rparr>"
  have "length (bb_restarts b) < 2 ^ 32" using assms by (simp add: bb_inv_def)
  then have "parse_block (block_builder_finish b) = Ok ?p"
    unfolding block_builder_finish_trailer by (rule parse_block_restarts)
  moreover have "for_each_entry ?p f st = (feed f st es, Ok ())"
    using assms(1) entry_loop_data_enc[of "[]" "bb_buffer b" es f "[]" st]
    by (simp add: for_each_entry_def block_builder_finish_trailer block_data_restarts bb_inv_def)
  ultimately show ?thesis by blast
qed

section \<open>Zigzag\<close>

definition zigzag :: "i64 \<Rightarrow> u64" where
  "zigzag v = push_bit 1 v XOR signed_drop_bit 63 v"

lemma unzigzag: "drop_bit 1 (zigzag v) XOR - (zigzag v AND 1) = v"
proof -
  have sign: "bit (signed_drop_bit 63 v) n = (n < 64 \<and> bit v 63)" for n
    by (cases "n = 0") (auto simp: bit_signed_drop_bit_iff bit_simps dest: bit_imp_le_length)
  have zz: "bit (zigzag v) n = ((1 \<le> n \<and> n < 64 \<and> bit v (n - 1)) \<noteq> (n < 64 \<and> bit v 63))" for n
    unfolding zigzag_def bit_xor_iff bit_push_bit_iff sign by auto
  then have "bit (zigzag v) 0 = bit v 63" by simp
  then have "zigzag v AND 1 = (if bit v 63 then 1 else 0)"
    by (auto simp: and_one_eq bit_0 odd_iff_mod_2_eq_one even_iff_mod_2_eq_zero)
  then have mask: "bit (- (zigzag v AND 1)) n = (n < 64 \<and> bit v 63)" for n
    by (simp add: bit_minus_iff bit_simps)
  show ?thesis
  proof (rule bit_word_eqI)
    fix n assume "n < LENGTH(64)"
    then show "bit (drop_bit 1 (zigzag v) XOR - (zigzag v AND 1)) n = bit v n"
      unfolding bit_xor_iff bit_drop_bit_eq mask comp_def zz
      by (cases "n = 63") auto
  qed
qed

lemma put_varsigned64_append: "put_varsigned64 out v = out @ varint (zigzag v)"
  by (simp add: put_varsigned64_def zigzag_def put_varint64_append[of out])

lemma get_varsigned64_zigzag:
  "get_varsigned64 (pre @ varint (zigzag v) @ post) (length pre) =
     (Some v, length pre + length (varint (zigzag v)))"
  using unzigzag[of v] by (simp add: get_varsigned64_def)

section \<open>Index blocks\<close>

text \<open>
  \<open>follows p h\<close>: the block of \<open>h\<close> begins where the trailer of the block of \<open>p\<close> ends, which is what a
  handle encoded as a difference of sizes relies on.
\<close>

definition follows :: "BlockHandle \<Rightarrow> BlockHandle \<Rightarrow> bool" where
  "follows p h \<longleftrightarrow> unat (handle_offset p) + unat (handle_size p) + 5 = unat (handle_offset h) \<and>
     unat (handle_size p) < 2 ^ 63 \<and> unat (handle_size h) < 2 ^ 63"

definition handle_bytes :: "nat \<Rightarrow> BlockHandle option \<Rightarrow> BlockHandle \<Rightarrow> bytes" where
  "handle_bytes sh lh h =
     (if sh = 0 then varint (handle_offset h) @ varint (handle_size h)
      else varint (zigzag (handle_size h - handle_size (the lh))))"

definition index_bytes :: "nat \<Rightarrow> bytes \<Rightarrow> BlockHandle option \<Rightarrow> BlockHandle \<Rightarrow> bytes" where
  "index_bytes sh key lh h =
     varint32 (of_nat sh) @ varint32 (of_nat (length key - sh)) @ drop sh key @ handle_bytes sh lh h"

definition index_entry_ok :: "nat \<Rightarrow> bytes \<Rightarrow> BlockHandle option \<Rightarrow> bytes \<Rightarrow> BlockHandle \<Rightarrow> bool" where
  "index_entry_ok sh ks lh key h \<longleftrightarrow> shares sh ks key \<and> length key < 2 ^ 32 \<and>
     (sh \<noteq> 0 \<longrightarrow> (\<exists>p. lh = Some p \<and> follows p h))"

inductive index_enc ::
    "nat set \<Rightarrow> nat \<Rightarrow> bytes \<Rightarrow> BlockHandle option \<Rightarrow> bytes \<Rightarrow> (bytes \<times> BlockHandle) list \<Rightarrow> bool"
  for R :: "nat set" where
  index_enc_Nil: "index_enc R base ks lh [] []"
| index_enc_Cons: "index_entry_ok sh ks lh key h \<Longrightarrow> (base \<in> R \<longrightarrow> sh = 0) \<Longrightarrow>
    index_enc R (base + length (index_bytes sh key lh h)) key (Some h) buf hs \<Longrightarrow>
    index_enc R base ks lh (index_bytes sh key lh h @ buf) ((key, h) # hs)"

lemma index_bytes_nonempty [simp]: "index_bytes sh k lh h \<noteq> []"
  by (simp add: index_bytes_def)

lemma sint_small:
  assumes "unat (w :: u64) < 2 ^ 63"
  shows "sint w = uint w \<and> uint w < 2 ^ 63"
proof -
  have "int (unat w) < int (2 ^ 63)" using assms by (simp only: of_nat_less_iff)
  then have "uint w < 2 ^ 63" by simp
  moreover have "- (2 ^ 63) \<le> uint w" by (rule order_trans[OF _ uint_ge_0]) simp
  ultimately have "signed_take_bit 63 (uint w) = uint w" by (intro signed_take_bit_int_eq_self)
  with \<open>uint w < 2 ^ 63\<close> show ?thesis by (simp add: sint_uint)
qed

lemma i64_size_delta:
  assumes "follows p h"
  shows "i64_sub (handle_size h) (handle_size p) = Ok (handle_size h - handle_size p)"
    and "i64_add (handle_size p) (handle_size h - handle_size p) = Ok (handle_size h)"
proof -
  let ?s = "handle_size h" and ?p = "handle_size p"
  have s: "sint ?s = uint ?s" "sint ?p = uint ?p" "uint ?s < 2 ^ 63" "uint ?p < 2 ^ 63"
    "0 \<le> uint ?s" "0 \<le> uint ?p"
    using assms sint_small[of ?s] sint_small[of ?p] by (simp_all add: follows_def)
  then have d: "- (2 ^ 63) \<le> uint ?s - uint ?p" "uint ?s - uint ?p < 2 ^ 63" by linarith+
  with s show "i64_sub ?s ?p = Ok (?s - ?p)"
    by (simp add: i64_sub_def)
  have "sint (?s - ?p) = sint ?s - sint ?p"
    using s d by (simp add: sint_word_ariths signed_take_bit_int_eq_self)
  with s have "sint ?p + sint (?s - ?p) = uint ?s" by simp
  moreover have "- (2 ^ 63) \<le> uint ?s" by (rule order_trans[OF _ s(5)]) simp
  ultimately have "- (2 ^ 63) \<le> sint ?p + sint (?s - ?p) \<and> sint ?p + sint (?s - ?p) < 2 ^ 63"
    using s(3) by (simp only: simp_thms)
  then show "i64_add ?p (?s - ?p) = Ok ?s"
    unfolding i64_add_def by (simp only: if_True simp_thms) simp
qed

lemma u64_next_offset:
  assumes "follows p h"
  shows "u64_add (handle_offset p) (handle_size p) = Ok (handle_offset p + handle_size p)"
    and "u64_add (handle_offset p + handle_size p) (of_nat BLOCK_TRAILER_SIZE) = Ok (handle_offset h)"
proof -
  let ?o = "handle_offset p" and ?z = "handle_size p"
  have sum: "unat ?o + unat ?z + 5 < 2 ^ 64"
    using assms unat_u64_less(2)[of "handle_offset h"] by (simp add: follows_def)
  then have oz: "unat (?o + ?z) = unat ?o + unat ?z"
    by (simp add: unat_word_ariths)
  have "unat (?o + ?z + 5) = unat (handle_offset h)"
    using sum oz assms by (simp add: unat_word_ariths follows_def)
  then have "?o + ?z + 5 = handle_offset h" by (simp only: word_unat_eq_iff)
  with sum oz show "u64_add ?o ?z = Ok (?o + ?z)"
    "u64_add (?o + ?z) (of_nat BLOCK_TRAILER_SIZE) = Ok (handle_offset h)"
    by (simp_all add: u64_add_def BLOCK_TRAILER_SIZE_def)
qed

lemma decode_handle_bytes:
  assumes "sh \<noteq> 0 \<Longrightarrow> \<exists>p. lh = Some p \<and> follows p h" and "full \<longleftrightarrow> sh = 0"
  shows "decode_index_value (pre @ handle_bytes sh lh h @ post) full lh (length pre) =
           Ok (h, length pre + length (handle_bytes sh lh h))"
proof (cases "sh = 0")
  case True
  have "get_varint64 (pre @ varint (handle_offset h) @ varint (handle_size h) @ post)
      (length pre + length (varint (handle_offset h))) =
    (Some (handle_size h), length pre + length (varint (handle_offset h)) + length (varint (handle_size h)))"
    using get_varint64_varint[of "pre @ varint (handle_offset h)" "handle_size h" post] by simp
  with True assms(2) show ?thesis by (simp add: decode_index_value_def handle_bytes_def)
next
  case False
  then obtain p where p: "lh = Some p" "follows p h" using assms(1) by blast
  with False assms(2) show ?thesis
    using get_varsigned64_zigzag[of pre "handle_size h - handle_size p" post]
    by (simp add: decode_index_value_def handle_bytes_def i64_size_delta u64_next_offset)
qed

lemma decode_index_bytes:
  assumes ok: "index_entry_ok sh ks lh key h" and restart: "length pre \<in> set ro \<longrightarrow> sh = 0"
  shows "decode_index_entry ro (pre @ index_bytes sh key lh h @ post) ks lh (length pre) =
           Ok (key, h, length pre + length (index_bytes sh key lh h))"
proof -
  let ?a = "varint32 (of_nat sh)" and ?b = "varint32 (of_nat (length key - sh))"
    and ?c = "handle_bytes sh lh h"
  let ?data = "pre @ index_bytes sh key lh h @ post"
  have sh: "shares sh ks key" and small: "length key < 2 ^ 32" using ok by (simp_all add: index_entry_ok_def)
  have d1: "?data = pre @ ?a @ (?b @ drop sh key @ ?c @ post)"
    and d2: "?data = (pre @ ?a) @ ?b @ (drop sh key @ ?c @ post)"
    and d3: "?data = (pre @ ?a @ ?b) @ drop sh key @ (?c @ post)"
    and d4: "?data = (pre @ ?a @ ?b @ drop sh key) @ ?c @ post"
    by (simp_all add: index_bytes_def)
  have g1: "get_varint32 ?data (length pre) = (Some (of_nat sh), length (pre @ ?a))"
    unfolding d1 by simp
  have g2: "get_varint32 ?data (length (pre @ ?a)) = (Some (of_nat (length key - sh)), length (pre @ ?a @ ?b))"
    unfolding d2 by (subst get_varint32_varint) simp
  have sh_le: "sh \<le> length ks" "sh \<le> length key" using sh by (simp_all add: shares_def)
  have u: "unat (of_nat sh :: u32) = sh" "unat (of_nat (length key - sh) :: u32) = length key - sh"
    using small sh_le by (simp_all add: unat_of_nat_u32 less_imp_diff_less del: of_nat_diff)
  have r1: "get_range ?data (length (pre @ ?a @ ?b)) (length (pre @ ?a @ ?b) + (length key - sh)) =
      Some (drop sh key)"
    unfolding d3 by (rule get_range_mid) simp_all
  have iff: "(length pre \<in> set ro \<or> sh = 0) = (sh = 0)" using restart by blast
  have v: "decode_index_value ?data (length pre \<in> set ro \<or> sh = 0) lh (length (pre @ ?a @ ?b) + (length key - sh)) =
      Ok (h, length pre + length (index_bytes sh key lh h))"
    using decode_handle_bytes[of sh lh h "sh = 0" "pre @ ?a @ ?b @ drop sh key" post] ok
    unfolding d4 iff by (simp add: index_entry_ok_def index_bytes_def add.assoc)
  show ?thesis
    unfolding decode_index_entry_def Let_def g1 prod.case option.case g2 u r1 ok_or.simps obind.simps not_not v
    using sh_le shares_key[OF sh] by simp
qed

lemma index_loop_enc:
  assumes "index_enc (set ro) base ks lh buf hs" and "base = length pre"
  shows "index_loop f ro (pre @ buf) st ks lh (length pre) = (feed f st hs, Ok ())"
  using assms
proof (induction base ks lh buf hs arbitrary: pre st rule: index_enc.induct)
  case (index_enc_Nil base ks lh)
  then show ?case by (simp add: index_loop.simps)
next
  case (index_enc_Cons sh ks lh key h base buf hs)
  have "index_loop f ro (pre @ index_bytes sh key lh h @ buf) st ks lh (length pre) =
      index_loop f ro ((pre @ index_bytes sh key lh h) @ buf) (f st key h) key (Some h)
        (length (pre @ index_bytes sh key lh h))"
    using decode_index_bytes[OF index_enc_Cons.hyps(1), of pre ro buf] index_enc_Cons.hyps(2) index_enc_Cons.prems
    by (subst index_loop.simps) simp
  with index_enc_Cons.IH[of "pre @ index_bytes sh key lh h" "f st key h"] index_enc_Cons.prems
  show ?case by simp
qed

section \<open>The index block builder\<close>

lemma index_enc_length: "index_enc R base ks lh buf hs \<Longrightarrow> buf = [] \<longleftrightarrow> hs = []"
  by (induction rule: index_enc.induct) auto

lemma index_enc_restarts:
  assumes "index_enc R base ks lh buf hs" and "\<forall>r \<in> R' - R. base + length buf \<le> r"
  shows "index_enc R' base ks lh buf hs"
  using assms
proof (induction base ks lh buf hs rule: index_enc.induct)
  case (index_enc_Cons sh ks lh key h base buf hs)
  have "base \<in> R'  \<longrightarrow> base \<in> R"
  proof
    assume "base \<in> R'"
    then show "base \<in> R"
      using index_enc_Cons.prems index_bytes_nonempty[of sh key lh h]
      by (metis DiffI add_le_same_cancel1 append_is_Nil_conv le_zero_eq length_0_conv)
  qed
  moreover have "index_enc R' (base + length (index_bytes sh key lh h)) key (Some h) buf hs"
    using index_enc_Cons.prems by (intro index_enc_Cons.IH) (simp add: add.assoc)
  ultimately show ?case
    using index_enc_Cons.hyps(1,2) by (intro index_enc.index_enc_Cons) blast+
qed (rule index_enc_Nil)

lemma index_enc_snoc:
  assumes "index_enc R base ks lh buf hs"
    and "index_entry_ok sh (last (ks # map fst hs)) (last (lh # map (\<lambda>e. Some (snd e)) hs)) key h"
    and "base + length buf \<in> R \<longrightarrow> sh = 0"
  shows "index_enc R base ks lh
           (buf @ index_bytes sh key (last (lh # map (\<lambda>e. Some (snd e)) hs)) h) (hs @ [(key, h)])"
  using assms
proof (induction base ks lh buf hs rule: index_enc.induct)
  case (index_enc_Nil base ks lh)
  then show ?case using index_enc_Cons[OF _ _ index_enc.index_enc_Nil] by fastforce
next
  case (index_enc_Cons sh' ks lh key' h' base buf hs)
  have "index_enc R (base + length (index_bytes sh' key' lh h')) key' (Some h')
      (buf @ index_bytes sh key (last (Some h' # map (\<lambda>e. Some (snd e)) hs)) h) (hs @ [(key, h)])"
    using index_enc_Cons.prems by (intro index_enc_Cons.IH) (simp_all add: add.assoc)
  from index_enc.index_enc_Cons[OF index_enc_Cons.hyps(1,2) this] show ?case by simp
qed

definition ib_inv :: "IndexBlockBuilder \<Rightarrow> (bytes \<times> BlockHandle) list \<Rightarrow> bool" where
  "ib_inv b hs \<longleftrightarrow>
     (\<exists>rs. ib_restarts b = map of_nat rs \<and> index_enc (set rs) 0 [] None (ib_buffer b) hs \<and>
           (\<forall>r \<in> set rs. r < length (ib_buffer b) \<or> r = 0)) \<and>
     ib_last_key b = last ([] # map fst hs) \<and> ib_last_handle b = last (None # map (\<lambda>e. Some (snd e)) hs) \<and>
     1 \<le> ib_restart_interval b \<and> (hs \<noteq> [] \<longrightarrow> 1 \<le> ib_counter b) \<and>
     length (ib_restarts b) \<le> length hs + 1"

lemma index_builder_new_inv:
  "1 \<le> ri \<Longrightarrow> \<exists>b. index_builder_new ri = Ok b \<and> ib_inv b [] \<and> ib_restart_interval b = ri"
  by (simp add: index_builder_new_def ib_inv_def) (intro exI[of _ "[0]"], simp add: index_enc_Nil)

text \<open>
  The number of bytes \<open>add\<close> shares with the previous key; where it is not zero, the handle is stored as a
  delta, which is right when the block follows the previous one.
\<close>

definition ib_shared :: "IndexBlockBuilder \<Rightarrow> bytes \<Rightarrow> nat" where
  "ib_shared b key =
     (if ib_restart_interval b \<le> ib_counter b then 0 else shared_prefix_len (ib_last_key b) key)"

lemma ib_shared_follows:
  assumes inv: "ib_inv b hs" and next_block: "hs \<noteq> [] \<Longrightarrow> ib_restart_interval b = 1 \<or> follows (snd (last hs)) h"
    and sh: "ib_shared b key \<noteq> 0"
  shows "\<exists>p. ib_last_handle b = Some p \<and> follows p h"
proof -
  have lk: "ib_last_key b = last ([] # map fst hs)"
    and lh: "ib_last_handle b = last (None # map (\<lambda>e. Some (snd e)) hs)"
    using inv by (simp_all add: ib_inv_def)
  have hs: "hs \<noteq> []" and nf: "\<not> ib_restart_interval b \<le> ib_counter b"
    using sh lk by (auto simp: ib_shared_def split: if_splits)
  then have "ib_restart_interval b \<noteq> 1" using inv by (auto simp: ib_inv_def)
  with next_block hs have "follows (snd (last hs)) h" by blast
  moreover have "ib_last_handle b = Some (snd (last hs))" using lh hs by (simp add: last_map)
  ultimately show ?thesis by blast
qed

lemma index_builder_add_Ok:
  assumes delta: "ib_shared b key \<noteq> 0 \<Longrightarrow> \<exists>p. ib_last_handle b = Some p \<and> follows p h"
  shows "\<exists>b'. index_builder_add b key h = Ok b' \<and>
    ib_buffer b' = ib_buffer b @ index_bytes (ib_shared b key) key (ib_last_handle b) h \<and>
    ib_last_key b' = key \<and> ib_last_handle b' = Some h \<and>
    ib_restarts b' = (if ib_restart_interval b \<le> ib_counter b
       then ib_restarts b @ [of_nat (length (ib_buffer b))] else ib_restarts b) \<and>
    ib_restart_interval b' = ib_restart_interval b \<and> 1 \<le> ib_counter b'"
proof -
  let ?full = "ib_restart_interval b \<le> ib_counter b"
  let ?sh = "if ?full then 0 else shared_prefix_len (ib_last_key b) key"
  let ?lh = "ib_last_handle b" and ?buf = "ib_buffer b"
  have val: "(if ?full \<or> ?sh = 0
      then Ok (put_varint64 (put_varint64 x (handle_offset h)) (handle_size h))
      else obind (expect ?lh) (\<lambda>prev. obind (i64_sub (handle_size h) (handle_size prev)) (\<lambda>delta.
           Ok (put_varsigned64 x delta)))) = Ok (x @ handle_bytes ?sh ?lh h)" for x
  proof (cases "?sh = 0")
    case True
    then show ?thesis
      by (simp add: handle_bytes_def put_varint64_append[of x] put_varint64_append[of "x @ _"])
  next
    case False
    with delta show ?thesis
      by (auto simp: ib_shared_def handle_bytes_def i64_size_delta put_varsigned64_append)
  qed
  let ?b1 = "if ?full then b\<lparr>ib_restarts := ib_restarts b @ [of_nat (length ?buf)], ib_counter := 0\<rparr> else b"
  have b1: "ib_buffer ?b1 = ?buf" "ib_last_handle ?b1 = ?lh" by simp_all
  have "index_builder_add b key h = Ok (?b1\<lparr>ib_buffer := ?buf @ index_bytes ?sh key ?lh h,
      ib_last_key := key, ib_last_handle := Some h, ib_counter := ib_counter ?b1 + 1\<rparr>)"
    unfolding index_builder_add_def Let_def b1 val obind.simps index_bytes_def
      put_varint32_append[of ?buf] put_varint32_append[of "_ @ _"] append_assoc ..
  then show ?thesis unfolding ib_shared_def by simp
qed

lemma index_builder_add_inv:
  assumes inv: "ib_inv b hs" and small: "length key < 2 ^ 32"
    and next_block: "hs \<noteq> [] \<Longrightarrow> ib_restart_interval b = 1 \<or> follows (snd (last hs)) h"
  shows "\<exists>b'. index_builder_add b key h = Ok b' \<and> ib_inv b' (hs @ [(key, h)]) \<and>
              ib_restart_interval b' = ib_restart_interval b"
proof -
  let ?full = "ib_restart_interval b \<le> ib_counter b" and ?sh = "ib_shared b key"
  let ?lh = "ib_last_handle b" and ?buf = "ib_buffer b"
  obtain rs where rs: "ib_restarts b = map of_nat rs" "index_enc (set rs) 0 [] None ?buf hs"
      "\<forall>r \<in> set rs. r < length ?buf \<or> r = 0"
    using inv by (auto simp: ib_inv_def)
  let ?rs = "if ?full then rs @ [length ?buf] else rs"
  have delta: "\<exists>p. ?lh = Some p \<and> follows p h" if "?sh \<noteq> 0" using ib_shared_follows[OF inv next_block that] .
  obtain b' where b': "index_builder_add b key h = Ok b'"
    and buf: "ib_buffer b' = ?buf @ index_bytes ?sh key ?lh h"
    and rest: "ib_last_key b' = key" "ib_last_handle b' = Some h" "ib_restarts b' = map of_nat ?rs"
      "ib_restart_interval b' = ib_restart_interval b" "1 \<le> ib_counter b'"
    using index_builder_add_Ok[OF delta] unfolding rs(1) if_distrib[of "map of_nat"] map_append list.map by blast
  have lk: "ib_last_key b = last ([] # map fst hs)" and lh: "?lh = last (None # map (\<lambda>e. Some (snd e)) hs)"
    using inv by (simp_all add: ib_inv_def)
  have entry: "index_entry_ok ?sh (ib_last_key b) ?lh key h"
    using small delta by (simp add: index_entry_ok_def ib_shared_def)
  have enc: "index_enc (set ?rs) 0 [] None ?buf hs" using rs(2) by (rule index_enc_restarts) auto
  have at: "0 + length ?buf \<in> set ?rs \<longrightarrow> ?sh = 0"
    using rs(3) index_enc_length[OF rs(2)] lk by (auto simp: ib_shared_def)
  have "index_enc (set ?rs) 0 [] None (ib_buffer b') (hs @ [(key, h)])"
    unfolding buf using index_enc_snoc[OF enc, of ?sh key h] entry at lk lh by simp
  moreover have "\<forall>r \<in> set ?rs. r < length (ib_buffer b') \<or> r = 0" using rs(3) by (auto simp: buf)
  moreover have "ib_last_key b' = last ([] # map fst (hs @ [(key, h)]))"
    "ib_last_handle b' = last (None # map (\<lambda>e. Some (snd e)) (hs @ [(key, h)]))"
    using rest(1,2) by simp_all
  moreover have "length (ib_restarts b') \<le> length (hs @ [(key, h)]) + 1" "1 \<le> ib_restart_interval b"
    using inv rs(1) rest(3) by (auto simp: ib_inv_def)
  ultimately have "ib_inv b' (hs @ [(key, h)])" unfolding ib_inv_def rest(4) using rest(3,5) by blast
  with b' rest(4) show ?thesis by blast
qed

lemma index_builder_finish_trailer: "index_builder_finish b = ib_buffer b @ restart_trailer (ib_restarts b)"
  by (simp add: index_builder_finish_def restart_trailer_def)

lemma finished_index_walk:
  assumes inv: "ib_inv b hs" and len: "length hs + 1 < 2 ^ 32" and buf: "length (ib_buffer b) < 2 ^ 32"
  shows "\<exists>p. parse_block (index_builder_finish b) = Ok p \<and>
             for_each_index_entry p f st = (feed f st hs, Ok ())"
proof -
  let ?p = "\<lparr>contents = index_builder_finish b, restarts = ib_restarts b\<rparr>"
  obtain rs where rs: "ib_restarts b = map of_nat rs" "index_enc (set rs) 0 [] None (ib_buffer b) hs"
      "\<forall>r \<in> set rs. r < length (ib_buffer b) \<or> r = 0"
    using inv by (auto simp: ib_inv_def)
  have "\<forall>r \<in> set rs. unat (of_nat r :: u32) = r"
    using rs(3) buf by (auto intro!: unat_of_nat_u32)
  then have unat: "map unat (ib_restarts b) = rs"
    using rs(1) by (simp add: map_idI)
  have "length (ib_restarts b) < 2 ^ 32" using inv len by (simp add: ib_inv_def)
  then have "parse_block (index_builder_finish b) = Ok ?p"
    unfolding index_builder_finish_trailer by (rule parse_block_restarts)
  moreover have "for_each_index_entry ?p f st = (feed f st hs, Ok ())"
    using index_loop_enc[of "sort rs" 0 "[]" None "ib_buffer b" hs "[]" f st] rs(2)
    by (simp add: for_each_index_entry_def index_builder_finish_trailer block_data_restarts unat)
  ultimately show ?thesis by blast
qed

text \<open>Handles of blocks that lie one behind the other.\<close>

fun contiguous :: "BlockHandle list \<Rightarrow> bool" where
  "contiguous (p # h # hs) \<longleftrightarrow> follows p h \<and> contiguous (h # hs)"
| "contiguous hs \<longleftrightarrow> True"

lemma contiguous_snoc: "contiguous (hs @ [p, h]) \<Longrightarrow> follows p h"
  by (induction hs rule: contiguous.induct) auto

lemma contiguous_prefix: "contiguous (hs @ hs') \<Longrightarrow> contiguous hs"
  by (induction hs rule: contiguous.induct) auto

lemma index_builder_add_all_inv:
  assumes "ib_inv b hs" and "\<forall>(k, h) \<in> set xs. length k < 2 ^ 32"
    and "contiguous (map snd (hs @ xs))"
  shows "\<exists>b'. index_builder_add_all b xs = Ok b' \<and> ib_inv b' (hs @ xs)"
  using assms
proof (induction xs arbitrary: b hs)
  case (Cons x xs)
  obtain k h where x: "x = (k, h)" by (cases x)
  have "follows (snd (last hs)) h" if "hs \<noteq> []"
  proof -
    have "contiguous (map snd (butlast hs) @ [snd (last hs), h] @ map snd xs)"
      using Cons.prems(3) that x by (metis append.assoc append_Cons append_Nil append_butlast_last_id
          list.simps(9) map_append snd_conv)
    then have "contiguous (map snd (butlast hs) @ [snd (last hs), h])"
      using contiguous_prefix[of "map snd (butlast hs) @ [snd (last hs), h]" "map snd xs"] by simp
    then show ?thesis by (rule contiguous_snoc)
  qed
  then obtain b1 where b1: "index_builder_add b k h = Ok b1" "ib_inv b1 (hs @ [(k, h)])"
    using index_builder_add_inv[OF Cons.prems(1), of k h] Cons.prems(2) x by auto
  show ?case using Cons.IH[OF b1(2)] Cons.prems(2,3) b1(1) x by simp
qed simp

section \<open>Properties\<close>

text \<open>
  C32. Data blocks round-trip: for every restart interval and any entries whose lengths fit 32 bits the
  builder returns a block without a panic, and the reader's walk over that block calls its callback
  with exactly these entries, in order, and succeeds.
\<close>

theorem data_block_roundtrip:
  assumes "1 \<le> ri" and "\<forall>(k, v) \<in> set es. length k < 2 ^ 32 \<and> length v < 2 ^ 32"
    and "length es + 1 < 2 ^ 32"
  shows "\<exists>b b' p. block_builder_new ri = Ok b \<and> block_builder_add_all b es = Ok b' \<and>
                  parse_block (block_builder_finish b') = Ok p \<and>
                  for_each_entry p f st = (feed f st es, Ok ())"
proof -
  obtain b where b: "block_builder_new ri = Ok b" "bb_inv b []"
    using block_builder_new_inv[OF assms(1)] by blast
  obtain b' where b': "block_builder_add_all b es = Ok b'" "bb_inv b' es"
    using block_builder_add_all_inv[OF b(2) assms(2)] by auto
  from finished_block_walk[OF b'(2) assms(3), of f st] b(1) b'(1) show ?thesis by blast
qed

theorem data_block_roundtrip_witness:
  "\<exists>b b' p. block_builder_new 2 = Ok b \<and>
      block_builder_add_all b [([97, 98], [1]), ([97, 99], []), ([97, 99, 1], [2])] = Ok b' \<and>
      parse_block (block_builder_finish b') = Ok p \<and>
      for_each_entry p (\<lambda>st k v. st @ [(k, v)]) [] =
        (feed (\<lambda>st k v. st @ [(k, v)]) [] [([97, 98], [1]), ([97, 99], []), ([97, 99, 1], [2])], Ok ())"
  by (rule data_block_roundtrip) simp_all

text \<open>
  C33. Index blocks round-trip: for every restart interval and any keys with the handles of blocks that
  lie one behind the other, the walk over the built block returns the keys with their handles, those
  stored as differences of sizes included, as long as the block's positions fit 32 bits.
\<close>

theorem index_block_roundtrip:
  assumes "1 \<le> ri" and "\<forall>(k, h) \<in> set hs. length k < 2 ^ 32" and "contiguous (map snd hs)"
    and "length hs + 1 < 2 ^ 32"
  shows "\<exists>b b'. index_builder_new ri = Ok b \<and> index_builder_add_all b hs = Ok b' \<and>
           (length (ib_buffer b') < 2 ^ 32 \<longrightarrow>
              (\<exists>p. parse_block (index_builder_finish b') = Ok p \<and>
                   for_each_index_entry p f st = (feed f st hs, Ok ())))"
proof -
  obtain b where b: "index_builder_new ri = Ok b" "ib_inv b []"
    using index_builder_new_inv[OF assms(1)] by blast
  obtain b' where b': "index_builder_add_all b hs = Ok b'" "ib_inv b' hs"
    using index_builder_add_all_inv[OF b(2) assms(2)] assms(3) by auto
  from finished_index_walk[OF b'(2) assms(4), of f st] b(1) b'(1) show ?thesis by blast
qed

theorem index_block_roundtrip_witness:
  "\<exists>b b'. index_builder_new 3 = Ok b \<and>
     index_builder_add_all b
       [([97, 98], \<lparr>handle_offset = 0, handle_size = 100\<rparr>),
        ([97, 99], \<lparr>handle_offset = 105, handle_size = 90\<rparr>)] = Ok b'"
  using index_block_roundtrip[of 3
      "[([97, 98], \<lparr>handle_offset = 0, handle_size = 100\<rparr>),
        ([97, 99], \<lparr>handle_offset = 105, handle_size = 90\<rparr>)]" "\<lambda>st k h. st" "()"]
  by (auto simp: follows_def)

text \<open>
  Signed varints round-trip: the zigzag encoding of every 64-bit integer is decoded to the same
  integer, in place.
\<close>

theorem varsigned_roundtrip:
  "get_varsigned64 (put_varsigned64 out v @ rest) (length out) = (Some v, length (put_varsigned64 out v))"
  using get_varsigned64_zigzag[of out v rest] by (simp add: put_varsigned64_append)

end
