(* ===== verification/Table_Properties.thy ===== *)
theory Table_Properties
  imports Block_Builder
begin

text \<open>
  The properties block and the metaindex block (\<^verbatim>\<open>format/properties.rs\<close>). Names are the bytes of
  their ASCII strings; the two strings of \<open>PropertiesInput\<close> are given as bytes. \<open>sort_by\<close> is stable,
  as is \<open>sort_key\<close>.
\<close>

section \<open>Model\<close>

definition as_bytes :: "string \<Rightarrow> bytes" where
  "as_bytes = map of_char"

definition PROPERTIES_BLOCK_NAME :: bytes where
  "PROPERTIES_BLOCK_NAME = as_bytes ''rocksdb.properties''"

definition INDEX_BLOCK_NAME :: bytes where
  "INDEX_BLOCK_NAME = as_bytes ''rocksdb.index''"

definition KEY_INDEX_TYPE :: bytes where
  "KEY_INDEX_TYPE = as_bytes ''rocksdb.block.based.table.index.type''"

definition KEY_NUM_ENTRIES :: bytes where
  "KEY_NUM_ENTRIES = as_bytes ''rocksdb.num.entries''"

definition KEY_RAW_KEY_SIZE :: bytes where
  "KEY_RAW_KEY_SIZE = as_bytes ''rocksdb.raw.key.size''"

definition KEY_RAW_VALUE_SIZE :: bytes where
  "KEY_RAW_VALUE_SIZE = as_bytes ''rocksdb.raw.value.size''"

definition KEY_DATA_SIZE :: bytes where
  "KEY_DATA_SIZE = as_bytes ''rocksdb.data.size''"

definition KEY_INDEX_SIZE :: bytes where
  "KEY_INDEX_SIZE = as_bytes ''rocksdb.index.size''"

definition KEY_INDEX_KEY_IS_USER_KEY :: bytes where
  "KEY_INDEX_KEY_IS_USER_KEY = as_bytes ''rocksdb.index.key.is.user.key''"

definition KEY_INDEX_VALUE_IS_DELTA_ENCODED :: bytes where
  "KEY_INDEX_VALUE_IS_DELTA_ENCODED = as_bytes ''rocksdb.index.value.is.delta.encoded''"

definition KEY_COMPARATOR :: bytes where
  "KEY_COMPARATOR = as_bytes ''rocksdb.comparator''"

definition KEY_COLUMN_FAMILY_ID :: bytes where
  "KEY_COLUMN_FAMILY_ID = as_bytes ''rocksdb.column.family.id''"

definition KEY_COLUMN_FAMILY_NAME :: bytes where
  "KEY_COLUMN_FAMILY_NAME = as_bytes ''rocksdb.column.family.name''"

definition KEY_EXTERNAL_VERSION :: bytes where
  "KEY_EXTERNAL_VERSION = as_bytes ''rocksdb.external_sst_file.version''"

definition KEY_EXTERNAL_GLOBAL_SEQNO :: bytes where
  "KEY_EXTERNAL_GLOBAL_SEQNO = as_bytes ''rocksdb.external_sst_file.global_seqno''"

definition EXTERNAL_SST_VERSION :: u32 where
  "EXTERNAL_SST_VERSION = 2"

definition INDEX_TYPE_BINARY_SEARCH :: u32 where
  "INDEX_TYPE_BINARY_SEARCH = 0"

definition BYTEWISE_COMPARATOR_NAME :: bytes where
  "BYTEWISE_COMPARATOR_NAME = as_bytes ''leveldb.BytewiseComparator''"

record PropertiesInput =
  p_num_entries :: u64
  p_raw_key_size :: u64
  p_raw_value_size :: u64
  p_data_size :: u64
  p_index_size :: u64
  p_comparator_name :: bytes
  p_column_family_id :: u64
  p_column_family_name :: bytes
  p_external_sst_global_seqno :: "u64 option"

definition varint64_bytes :: "u64 \<Rightarrow> bytes" where
  "varint64_bytes v = put_varint64 [] v"

text \<open>The vector \<open>entries\<close> before it is sorted.\<close>

definition property_entries :: "PropertiesInput \<Rightarrow> entry list" where
  "property_entries props =
     [(KEY_INDEX_TYPE, u32_to_le_bytes INDEX_TYPE_BINARY_SEARCH),
      (KEY_NUM_ENTRIES, varint64_bytes (p_num_entries props)),
      (KEY_RAW_KEY_SIZE, varint64_bytes (p_raw_key_size props)),
      (KEY_RAW_VALUE_SIZE, varint64_bytes (p_raw_value_size props)),
      (KEY_DATA_SIZE, varint64_bytes (p_data_size props)),
      (KEY_INDEX_SIZE, varint64_bytes (p_index_size props)),
      (KEY_INDEX_KEY_IS_USER_KEY, varint64_bytes 0),
      (KEY_INDEX_VALUE_IS_DELTA_ENCODED, varint64_bytes 1)] @
     (if p_comparator_name props \<noteq> [] then [(KEY_COMPARATOR, p_comparator_name props)] else []) @
     [(KEY_COLUMN_FAMILY_ID, varint64_bytes (p_column_family_id props))] @
     (if p_column_family_name props \<noteq> []
      then [(KEY_COLUMN_FAMILY_NAME, p_column_family_name props)] else []) @
     (case p_external_sst_global_seqno props of
        Some global_seqno \<Rightarrow>
          [(KEY_EXTERNAL_VERSION, u32_to_le_bytes EXTERNAL_SST_VERSION),
           (KEY_EXTERNAL_GLOBAL_SEQNO, u64_to_le_bytes global_seqno)]
      | None \<Rightarrow> [])"

definition build_properties_block :: "PropertiesInput \<Rightarrow> bytes outcome" where
  "build_properties_block props =
     (let entries = sort_key fst (property_entries props)
      in obind (block_builder_new (2 ^ 64 - 1)) (\<lambda>builder.
         obind (block_builder_add_all builder entries) (\<lambda>builder'.
         Ok (block_builder_finish builder'))))"

definition build_metaindex_block :: "(bytes \<times> BlockHandle) list \<Rightarrow> bytes outcome" where
  "build_metaindex_block entries =
     (let sorted = sort_key fst entries
      in obind (block_builder_new 1) (\<lambda>builder.
         obind (block_builder_add_all builder
                  (map (\<lambda>(name, handle).
                          (name, put_varint64 (put_varint64 [] (handle_offset handle)) (handle_size handle)))
                     sorted)) (\<lambda>builder'.
         Ok (block_builder_finish builder'))))"

section \<open>Blocks of named values\<close>

lemmas KEY_defs = as_bytes_def
  KEY_INDEX_TYPE_def KEY_NUM_ENTRIES_def KEY_RAW_KEY_SIZE_def KEY_RAW_VALUE_SIZE_def KEY_DATA_SIZE_def
  KEY_INDEX_SIZE_def KEY_INDEX_KEY_IS_USER_KEY_def KEY_INDEX_VALUE_IS_DELTA_ENCODED_def
  KEY_COMPARATOR_def KEY_COLUMN_FAMILY_ID_def KEY_COLUMN_FAMILY_NAME_def KEY_EXTERNAL_VERSION_def
  KEY_EXTERNAL_GLOBAL_SEQNO_def

text \<open>
  What a builder with any restart interval does with a list of small entries, seen from the reader.
\<close>

lemma built_block:
  assumes "1 \<le> ri" and "\<forall>(k, v) \<in> set es. small_entry k v"
  shows "\<exists>b b'. block_builder_new ri = Ok b \<and> block_builder_add_all b es = Ok b' \<and> bb_inv b' es"
  using block_builder_new_inv[OF assms(1)] block_builder_add_all_inv[OF _ assms(2), of _ "[]"] by fastforce

lemma length_varint64_bytes: "length (varint64_bytes v) \<le> 10"
proof -
  have "unat v < 2 ^ (7 * 10)" by (rule less_trans[OF unat_u64_less(2)]) simp
  then show ?thesis unfolding varint64_bytes_def by (rule varint_length_le) simp
qed

lemma length_property_names:
  "\<forall>k \<in> {KEY_INDEX_TYPE, KEY_NUM_ENTRIES, KEY_RAW_KEY_SIZE, KEY_RAW_VALUE_SIZE, KEY_DATA_SIZE,
      KEY_INDEX_SIZE, KEY_INDEX_KEY_IS_USER_KEY, KEY_INDEX_VALUE_IS_DELTA_ENCODED, KEY_COMPARATOR,
      KEY_COLUMN_FAMILY_ID, KEY_COLUMN_FAMILY_NAME, KEY_EXTERNAL_VERSION, KEY_EXTERNAL_GLOBAL_SEQNO}.
     length k < 2 ^ 32"
  by (simp add: KEY_defs)

lemma property_entries_small:
  assumes "length (p_comparator_name props) < 2 ^ 32" and "length (p_column_family_name props) < 2 ^ 32"
  shows "\<forall>(k, v) \<in> set (property_entries props). small_entry k v"
proof -
  have v: "length (varint64_bytes x) < 2 ^ 32" for x
    using length_varint64_bytes[of x] by simp
  show ?thesis
    using assms length_property_names v
    by (auto simp: property_entries_def split: option.splits if_splits)
qed

lemma property_names_distinct: "distinct (map fst (property_entries props))"
  by (auto simp: property_entries_def KEY_defs split: option.splits)

lemma sort_key_strict:
  "distinct (map fst es) \<Longrightarrow> sorted_wrt (<) (map fst (sort_key fst es))"
  using distinct_map[of fst "sort_key fst es"] distinct_map[of fst es]
  by (simp add: strict_sorted_iff)

lemma entries_size_mset: "mset a = mset b \<Longrightarrow> entries_size a = entries_size b"
  by (simp add: entries_size_def flip: sum_mset_sum_list)

lemma length_KEYs:
  "length KEY_INDEX_TYPE = 36"
  "length KEY_NUM_ENTRIES = 19"
  "length KEY_RAW_KEY_SIZE = 20"
  "length KEY_RAW_VALUE_SIZE = 22"
  "length KEY_DATA_SIZE = 17"
  "length KEY_INDEX_SIZE = 18"
  "length KEY_INDEX_KEY_IS_USER_KEY = 29"
  "length KEY_INDEX_VALUE_IS_DELTA_ENCODED = 36"
  "length KEY_COMPARATOR = 18"
  "length KEY_COLUMN_FAMILY_ID = 24"
  "length KEY_COLUMN_FAMILY_NAME = 26"
  "length KEY_EXTERNAL_VERSION = 33"
  "length KEY_EXTERNAL_GLOBAL_SEQNO = 38"
  by (simp_all add: KEY_defs)

lemma entries_size_append [simp]: "entries_size (xs @ ys) = entries_size xs + entries_size ys"
  by (simp add: entries_size_def)

lemma property_entries_size:
  "length (property_entries props) \<le> 13 \<and>
   entries_size (property_entries props) \<le>
     700 + length (p_comparator_name props) + length (p_column_family_name props)"
proof -
  let ?c = "if p_comparator_name props \<noteq> [] then [(KEY_COMPARATOR, p_comparator_name props)] else []"
  let ?f = "if p_column_family_name props \<noteq> []
      then [(KEY_COLUMN_FAMILY_NAME, p_column_family_name props)] else []"
  let ?e = "case p_external_sst_global_seqno props of
        Some global_seqno \<Rightarrow>
          [(KEY_EXTERNAL_VERSION, u32_to_le_bytes EXTERNAL_SST_VERSION),
           (KEY_EXTERNAL_GLOBAL_SEQNO, u64_to_le_bytes global_seqno)]
      | None \<Rightarrow> []"
  have "length ?c \<le> 1" "entries_size ?c \<le> 18 + length (p_comparator_name props)"
    "length ?f \<le> 1" "entries_size ?f \<le> 26 + length (p_column_family_name props)"
    by (simp_all add: length_KEYs)
  moreover have "length ?e \<le> 2" "entries_size ?e \<le> 83"
    by (simp_all add: length_KEYs split: option.split)
  moreover have "length (varint64_bytes x) \<le> 10" for x by (rule length_varint64_bytes)
  note this[of "p_num_entries props"] this[of "p_raw_key_size props"] this[of "p_raw_value_size props"]
    this[of "p_data_size props"] this[of "p_index_size props"] this[of 0] this[of 1]
    this[of "p_column_family_id props"]
  ultimately show ?thesis
    unfolding property_entries_def length_append entries_size_append entries_size_simps list.size length_KEYs
      length_to_le_bytes
    by linarith
qed

lemma build_properties_block_Ok:
  assumes "length (p_comparator_name props) < 2 ^ 32" and "length (p_column_family_name props) < 2 ^ 32"
  shows "\<exists>b. build_properties_block props = Ok (block_builder_finish b) \<and>
           bb_inv b (sort_key fst (property_entries props)) \<and>
           length (block_builder_finish b) \<le> 1000 + length (p_comparator_name props) + length (p_column_family_name props)"
proof -
  let ?ps = "sort_key fst (property_entries props)"
  have "\<forall>(k, v) \<in> set ?ps. small_entry k v" using property_entries_small[OF assms] by simp
  then obtain b b' where b: "block_builder_new (2 ^ 64 - 1) = Ok b" "block_builder_add_all b ?ps = Ok b'"
      "bb_inv b' ?ps"
    using built_block[of "2 ^ 64 - 1" ?ps] by auto
  have "length (bb_buffer b') \<le> 15 * length ?ps + entries_size ?ps" "length (bb_restarts b') \<le> length ?ps + 1"
    using b(3) data_enc_length unfolding bb_inv_def by blast+
  moreover have "entries_size ?ps = entries_size (property_entries props)"
    by (rule entries_size_mset) simp
  ultimately have "length (block_builder_finish b') \<le>
      1000 + length (p_comparator_name props) + length (p_column_family_name props)"
    using property_entries_size[of props] by (simp add: block_builder_finish_trailer)
  with b show ?thesis by (auto simp: build_properties_block_def Let_def)
qed

section \<open>The metaindex block\<close>

abbreviation handle_value :: "BlockHandle \<Rightarrow> bytes" where
  "handle_value h \<equiv> put_varint64 (put_varint64 [] (handle_offset h)) (handle_size h)"

lemma handle_value_append: "handle_value h = varint (handle_offset h) @ varint (handle_size h)"
  by (simp add: put_varint64_append[of "varint _"])

lemma length_handle_value: "length (handle_value h) \<le> 20"
  using length_varint64_bytes[of "handle_offset h"] length_varint64_bytes[of "handle_size h"]
  by (simp add: handle_value_append varint64_bytes_def)

lemma length_block_names: "length INDEX_BLOCK_NAME = 13" "length PROPERTIES_BLOCK_NAME = 18"
  by (simp_all add: INDEX_BLOCK_NAME_def PROPERTIES_BLOCK_NAME_def as_bytes_def)

lemma block_names_less: "INDEX_BLOCK_NAME < PROPERTIES_BLOCK_NAME"
  by (simp add: INDEX_BLOCK_NAME_def PROPERTIES_BLOCK_NAME_def as_bytes_def)

abbreviation metaindex_entries :: "BlockHandle \<Rightarrow> BlockHandle \<Rightarrow> entry list" where
  "metaindex_entries ph ih \<equiv>
     [(INDEX_BLOCK_NAME, handle_value ih), (PROPERTIES_BLOCK_NAME, handle_value ph)]"

lemma metaindex_built:
  "\<exists>b. build_metaindex_block [(PROPERTIES_BLOCK_NAME, ph), (INDEX_BLOCK_NAME, ih)] =
         Ok (block_builder_finish b) \<and>
       bb_inv b (metaindex_entries ph ih) \<and> length (block_builder_finish b) \<le> 120"
proof -
  have srt: "sort_key fst [(PROPERTIES_BLOCK_NAME, ph), (INDEX_BLOCK_NAME, ih)] =
      [(INDEX_BLOCK_NAME, ih), (PROPERTIES_BLOCK_NAME, ph)]"
    using block_names_less by auto
  have small: "length (handle_value h) < 2 ^ 32" for h
    using length_handle_value[of h] by simp
  obtain b b' where b: "block_builder_new 1 = Ok b" "block_builder_add_all b (metaindex_entries ph ih) = Ok b'"
      "bb_inv b' (metaindex_entries ph ih)"
    using built_block[of 1 "metaindex_entries ph ih"] small by (auto simp: length_block_names)
  have "length (bb_buffer b') \<le> 15 * 2 + (13 + 20 + (18 + 20))" and "length (bb_restarts b') \<le> 3"
    using b(3) data_enc_length[of "[]" "bb_buffer b'" "metaindex_entries ph ih"]
      length_handle_value[of ph] length_handle_value[of ih]
    by (simp_all add: bb_inv_def length_block_names)
  then have "length (block_builder_finish b') \<le> 120"
    by (simp add: block_builder_finish_trailer)
  with b srt show ?thesis by (auto simp: build_metaindex_block_def Let_def)
qed

section \<open>Properties\<close>

text \<open>
  The properties block is built without a panic and read back as named values in strictly
  ascending order of their names, as the format requires, with the counters and sizes of the input
  as varints under their names.
\<close>

theorem properties_block_roundtrip:
  assumes "length (p_comparator_name props) < 2 ^ 32" and "length (p_column_family_name props) < 2 ^ 32"
  shows "\<exists>raw p ps. build_properties_block props = Ok raw \<and> parse_block raw = Ok p \<and>
           for_each_entry p (\<lambda>st k v. st @ [(k, v)]) [] = (ps, Ok ()) \<and>
           sorted_wrt (<) (map fst ps) \<and> mset ps = mset (property_entries props) \<and>
           map_of ps KEY_NUM_ENTRIES = Some (varint64_bytes (p_num_entries props)) \<and>
           map_of ps KEY_INDEX_TYPE = Some (u32_to_le_bytes INDEX_TYPE_BINARY_SEARCH)"
proof -
  let ?ps = "sort_key fst (property_entries props)"
  obtain b' where b: "build_properties_block props = Ok (block_builder_finish b')" "bb_inv b' ?ps"
    using build_properties_block_Ok[OF assms] by blast
  have "length ?ps \<le> 13" by (auto simp: property_entries_def split: option.splits)
  then obtain p where p: "parse_block (block_builder_finish b') = Ok p"
      "for_each_entry p (\<lambda>st k v. st @ [(k, v)]) [] = (?ps, Ok ())"
    using finished_block_walk[OF b(2), of "\<lambda>st k v. st @ [(k, v)]" "[]"] by (auto simp: feed_collect)
  have strict: "sorted_wrt (<) (map fst ?ps)"
    using sort_key_strict[OF property_names_distinct] .
  then have "distinct (map fst ?ps)" by (simp add: strict_sorted_iff)
  then have "map_of ?ps k = Some v" if "(k, v) \<in> set (property_entries props)" for k v
    using that by simp
  then show ?thesis
    using b p strict by (auto simp: property_entries_def)
qed

theorem properties_block_roundtrip_witness:
  "\<exists>raw p ps. build_properties_block
       \<lparr>p_num_entries = 3, p_raw_key_size = 30, p_raw_value_size = 12, p_data_size = 100, p_index_size = 20,
        p_comparator_name = BYTEWISE_COMPARATOR_NAME, p_column_family_id = 0, p_column_family_name = [],
        p_external_sst_global_seqno = Some 0\<rparr> = Ok raw \<and> parse_block raw = Ok p \<and>
     for_each_entry p (\<lambda>st k v. st @ [(k, v)]) [] = (ps, Ok ()) \<and>
     map_of ps KEY_NUM_ENTRIES = Some (varint64_bytes 3)"
  using properties_block_roundtrip[of
      "\<lparr>p_num_entries = 3, p_raw_key_size = 30, p_raw_value_size = 12, p_data_size = 100, p_index_size = 20,
        p_comparator_name = BYTEWISE_COMPARATOR_NAME, p_column_family_id = 0, p_column_family_name = [],
        p_external_sst_global_seqno = Some 0\<rparr>"]
  by (auto simp: BYTEWISE_COMPARATOR_NAME_def as_bytes_def)

end
