(* ===== verification/Internal_Key.thy ===== *)
theory Internal_Key
  imports Prelude
begin

unbundle bit_operations_syntax

text \<open>
  Internal keys (\<^verbatim>\<open>format/internal_key.rs\<close>): a user key followed by eight bytes that hold
  \<open>(sequence << 8) | type\<close>, little-endian. \<open>internal_key_split\<close> is the source's \<open>split\<close>,
  \<open>make_internal_key\<close> the constructor of \<^verbatim>\<open>fuzzer/src/lib.rs\<close> that the tests build their keys with.
\<close>

section \<open>Model\<close>

datatype ValueType =
    Deletion
  | Value
  | Merge
  | SingleDeletion
  | RangeDeletion
  | BlobIndex
  | Other u8

definition value_type_from_byte :: "u8 \<Rightarrow> ValueType" where
  "value_type_from_byte b =
     (if b = 0x0 then Deletion
      else if b = 0x1 then Value
      else if b = 0x2 then Merge
      else if b = 0x7 then SingleDeletion
      else if b = 0xF then RangeDeletion
      else if b = 0x11 then BlobIndex
      else Other b)"

record InternalKey =
  user_key :: bytes
  sequence :: u64
  value_type :: ValueType

definition NUM_INTERNAL_BYTES :: nat where
  "NUM_INTERNAL_BYTES = 8"

definition internal_key_split :: "bytes \<Rightarrow> InternalKey outcome" where
  "internal_key_split internal_key =
     (if length internal_key < NUM_INTERNAL_BYTES
      then Err (Msg ''internal key shorter than 8-byte seq/type suffix'')
      else
        let split_at = length internal_key - NUM_INTERNAL_BYTES;
            packed = from_le_bytes (drop split_at internal_key) :: u64
        in Ok \<lparr>user_key = take split_at internal_key,
               sequence = drop_bit 8 packed,
               value_type = value_type_from_byte (ucast (packed AND 0xff))\<rparr>)"

definition make_internal_key :: "bytes \<Rightarrow> u64 \<Rightarrow> u8 \<Rightarrow> bytes" where
  "make_internal_key ukey seq ty =
     ukey @ u64_to_le_bytes (push_bit 8 seq OR ucast ty)"

section \<open>Parts of an internal key\<close>

text \<open>
  The parts of a key that is long enough, as total functions: the user key and the packed
  sequence and type.
\<close>

abbreviation valid_key :: "bytes \<Rightarrow> bool" where
  "valid_key k \<equiv> 8 \<le> length k"

definition ukey :: "bytes \<Rightarrow> bytes" where
  "ukey k = take (length k - 8) k"

definition packed :: "bytes \<Rightarrow> u64" where
  "packed k = from_le_bytes (drop (length k - 8) k)"

definition seqno :: "bytes \<Rightarrow> u64" where
  "seqno k = drop_bit 8 (packed k)"

definition vtype :: "bytes \<Rightarrow> ValueType" where
  "vtype k = value_type_from_byte (ucast (packed k AND 0xff))"

lemma internal_key_split_valid [simp]:
  "valid_key k \<Longrightarrow>
     internal_key_split k = Ok \<lparr>user_key = ukey k, sequence = seqno k, value_type = vtype k\<rparr>"
  by (simp add: internal_key_split_def NUM_INTERNAL_BYTES_def ukey_def packed_def seqno_def vtype_def
        Let_def)

lemma key_eq_iff:
  assumes "valid_key a" and "valid_key b"
  shows "a = b \<longleftrightarrow> ukey a = ukey b \<and> packed a = packed b"
proof
  assume eq: "ukey a = ukey b \<and> packed a = packed b"
  then have "drop (length a - 8) a = drop (length b - 8) b"
    using assms by (auto simp: packed_def intro!: from_le_bytes_u64_inject)
  with eq show "a = b"
    by (metis append_take_drop_id ukey_def)
qed simp

lemma make_internal_key_valid [simp]: "valid_key (make_internal_key u s t)"
  by (simp add: make_internal_key_def)

lemma make_internal_key_parts [simp]:
  "ukey (make_internal_key u s t) = u"
  "packed (make_internal_key u s t) = push_bit 8 s OR ucast t"
  by (simp_all add: make_internal_key_def ukey_def packed_def)

lemma unpack_seq_type:
  "s < 2 ^ 56 \<Longrightarrow> drop_bit 8 (push_bit 8 (s :: u64) OR ucast (t :: u8)) = s"
  "ucast ((push_bit 8 (s :: u64) OR ucast t) AND 0xff) = (t :: u8)"
proof -
  assume "s < 2 ^ 56"
  then have "take_bit 56 s = s"
    by (simp add: word_unat_eq_iff unsigned_take_bit_eq word_less_nat_alt take_bit_nat_eq_self)
  then have low: "bit s n \<Longrightarrow> n < 56" for n
    by (metis bit_take_bit_iff)
  show "drop_bit 8 (push_bit 8 s OR ucast t) = s"
    by (rule bit_word_eqI) (auto simp: bit_simps dest: low bit_imp_le_length)
next
  have "(w :: u64) AND 0xff = take_bit 8 w" for w
    by (simp add: take_bit_eq_mask mask_numeral)
  then show "ucast ((push_bit 8 s OR ucast t) AND 0xff) = t"
    by (auto intro!: bit_word_eqI simp: bit_simps)
qed

end
