(* ===== verification/Sst_Builder.thy ===== *)
theory Sst_Builder
  imports Table_Properties Internal_Key
begin

unbundle bit_operations_syntax

text \<open>
  Assembly of a table file (\<^verbatim>\<open>format/sst_builder.rs\<close>): data blocks, index, properties, metaindex, footer.
  The local variables of \<open>build_sst\<close> are the record \<open>build_state\<close>. What readers rely on is the
  relation \<open>sst_layout\<close> between a file and its entries, which \<open>build_sst\<close> is shown to establish.
\<close>

section \<open>Model\<close>

definition DATA_BLOCK_RESTART_INTERVAL :: nat where
  "DATA_BLOCK_RESTART_INTERVAL = 16"

definition INDEX_BLOCK_RESTART_INTERVAL :: nat where
  "INDEX_BLOCK_RESTART_INTERVAL = 1"

definition TARGET_BLOCK_SIZE :: nat where
  "TARGET_BLOCK_SIZE = 4096"

definition FORMAT_VERSION :: u32 where
  "FORMAT_VERSION = 7"

record SstBuilderOptions =
  opt_checksum_type :: ChecksumType
  opt_comparator_name :: bytes
  opt_column_family_id :: u64
  opt_column_family_name :: bytes
  opt_base_context_checksum :: u32
  opt_external_sst_global_seqno :: "u64 option"

definition sst_builder_options_default :: SstBuilderOptions where
  "sst_builder_options_default =
     \<lparr>opt_checksum_type = XxH3, opt_comparator_name = BYTEWISE_COMPARATOR_NAME,
      opt_column_family_id = 0, opt_column_family_name = as_bytes ''default'',
      opt_base_context_checksum = 0x1, opt_external_sst_global_seqno = None\<rparr>"

definition zero_out_seqno :: "bytes \<Rightarrow> bytes outcome" where
  "zero_out_seqno internal_key =
     obind (usize_sub (length internal_key) 8) (\<lambda>at.
       let packed = from_le_bytes (drop at internal_key) :: u64;
           value_type = packed AND 0xff
       in Ok (take at internal_key @ u64_to_le_bytes value_type))"

fun zero_out_seqnos :: "entry list \<Rightarrow> entry list outcome" where
  "zero_out_seqnos [] = Ok []"
| "zero_out_seqnos ((k, v) # es) =
     obind (zero_out_seqno k) (\<lambda>k'. obind (zero_out_seqnos es) (\<lambda>es'. Ok ((k', v) # es')))"

definition rewritten_entries :: "SstBuilderOptions \<Rightarrow> entry list \<Rightarrow> entry list outcome" where
  "rewritten_entries opts entries =
     (case opt_external_sst_global_seqno opts of
        Some _ \<Rightarrow> zero_out_seqnos entries
      | None \<Rightarrow> Ok entries)"

text \<open>Appending a block with its trailer to the file, which the source writes out four times.\<close>

definition write_block :: "ext \<Rightarrow> SstBuilderOptions \<Rightarrow> bytes \<Rightarrow> bytes \<Rightarrow> bytes \<times> BlockHandle" where
  "write_block X opts file raw =
     (let offset = of_nat (length file) :: u64;
          with_trailer = encode_block_with_trailer X raw offset (opt_checksum_type opts)
                           (opt_base_context_checksum opts)
      in (file @ with_trailer, \<lparr>handle_offset = offset, handle_size = of_nat (length raw)\<rparr>))"

definition flush_data_block ::
    "ext \<Rightarrow> SstBuilderOptions \<Rightarrow> bytes \<Rightarrow> IndexBlockBuilder \<Rightarrow> BlockBuilder \<Rightarrow> bytes \<Rightarrow>
       (bytes \<times> IndexBlockBuilder) outcome" where
  "flush_data_block X opts file index_builder block_builder last_key =
     (if block_builder_is_empty block_builder then Ok (file, index_builder)
      else
        let raw = block_builder_finish block_builder;
            (file', handle) = write_block X opts file raw
        in obind (index_builder_add index_builder last_key handle) (\<lambda>index_builder'.
           Ok (file', index_builder')))"

record build_state =
  bs_file :: bytes
  bs_index_builder :: IndexBlockBuilder
  bs_raw_key_size :: u64
  bs_raw_value_size :: u64
  bs_block_builder :: BlockBuilder
  bs_pending_last_key :: "bytes option"

definition build_init :: "build_state outcome" where
  "build_init =
     obind (index_builder_new INDEX_BLOCK_RESTART_INTERVAL) (\<lambda>ib.
     obind (block_builder_new DATA_BLOCK_RESTART_INTERVAL) (\<lambda>bb.
     Ok \<lparr>bs_file = [], bs_index_builder = ib, bs_raw_key_size = 0, bs_raw_value_size = 0,
         bs_block_builder = bb, bs_pending_last_key = None\<rparr>))"

definition build_step :: "ext \<Rightarrow> SstBuilderOptions \<Rightarrow> build_state \<Rightarrow> bytes \<Rightarrow> bytes \<Rightarrow> build_state outcome" where
  "build_step X opts st key val =
     obind (u64_add (bs_raw_key_size st) (of_nat (length key))) (\<lambda>rk.
     obind (u64_add (bs_raw_value_size st) (of_nat (length val))) (\<lambda>rv.
     obind (block_builder_add (bs_block_builder st) key val) (\<lambda>bb.
     let st1 = st\<lparr>bs_raw_key_size := rk, bs_raw_value_size := rv, bs_block_builder := bb,
                  bs_pending_last_key := Some key\<rparr>
     in if block_builder_current_size_estimate bb \<ge> TARGET_BLOCK_SIZE then
          obind (expect (bs_pending_last_key st1)) (\<lambda>last_key.
          obind (block_builder_new DATA_BLOCK_RESTART_INTERVAL) (\<lambda>fresh.
          obind (flush_data_block X opts (bs_file st1) (bs_index_builder st1) bb last_key) (\<lambda>(file, ib).
          Ok (st1\<lparr>bs_file := file, bs_index_builder := ib, bs_block_builder := fresh,
                  bs_pending_last_key := None\<rparr>))))
        else Ok st1)))"

fun build_entries :: "ext \<Rightarrow> SstBuilderOptions \<Rightarrow> build_state \<Rightarrow> entry list \<Rightarrow> build_state outcome" where
  "build_entries X opts st [] = Ok st"
| "build_entries X opts st ((k, v) # es) =
     obind (build_step X opts st k v) (\<lambda>st'. build_entries X opts st' es)"

text \<open>The end of \<open>build_sst\<close>: the last data block, and everything behind the data blocks.\<close>

definition flush_last :: "ext \<Rightarrow> SstBuilderOptions \<Rightarrow> build_state \<Rightarrow> build_state outcome" where
  "flush_last X opts st =
     (case bs_pending_last_key st of
        Some last_key \<Rightarrow>
          obind (flush_data_block X opts (bs_file st) (bs_index_builder st) (bs_block_builder st) last_key)
            (\<lambda>(file, ib). Ok (st\<lparr>bs_file := file, bs_index_builder := ib, bs_pending_last_key := None\<rparr>))
      | None \<Rightarrow> Ok st)"

definition build_tail :: "ext \<Rightarrow> SstBuilderOptions \<Rightarrow> nat \<Rightarrow> build_state \<Rightarrow> bytes outcome" where
  "build_tail X opts num_entries st =
     (let data_size = of_nat (length (bs_file st)) :: u64;
          index_raw = index_builder_finish (bs_index_builder st);
          (file1, index_handle) = write_block X opts (bs_file st) index_raw;
          props_input =
            \<lparr>p_num_entries = of_nat num_entries, p_raw_key_size = bs_raw_key_size st,
             p_raw_value_size = bs_raw_value_size st, p_data_size = data_size,
             p_index_size = of_nat (length index_raw), p_comparator_name = opt_comparator_name opts,
             p_column_family_id = opt_column_family_id opts,
             p_column_family_name = opt_column_family_name opts,
             p_external_sst_global_seqno = opt_external_sst_global_seqno opts\<rparr>
      in obind (build_properties_block props_input) (\<lambda>props_raw.
         let (file2, props_handle) = write_block X opts file1 props_raw in
         obind (build_metaindex_block
                  [(PROPERTIES_BLOCK_NAME, props_handle), (INDEX_BLOCK_NAME, index_handle)]) (\<lambda>metaindex_raw.
         let (file3, metaindex_handle) = write_block X opts file2 metaindex_raw in
         obind (encode_footer_v6_plus X FORMAT_VERSION (opt_checksum_type opts) metaindex_handle
                  (opt_base_context_checksum opts) (of_nat (length file3))) (\<lambda>footer_bytes.
         Ok (file3 @ footer_bytes)))))"

definition build_sst :: "ext \<Rightarrow> SstBuilderOptions \<Rightarrow> entry list \<Rightarrow> bytes outcome" where
  "build_sst X opts entries0 =
     obind (rewritten_entries opts entries0) (\<lambda>entries.
     obind build_init (\<lambda>st0.
     obind (build_entries X opts st0 entries) (\<lambda>st1.
     obind (flush_last X opts st1) (\<lambda>st2.
     build_tail X opts (length entries) st2))))"

section \<open>Layout of a table file\<close>

text \<open>The block that a handle names: its bytes with the trailer stand at the handle's offset.\<close>

definition block_at :: "ext \<Rightarrow> ChecksumType \<Rightarrow> u32 \<Rightarrow> bytes \<Rightarrow> BlockHandle \<Rightarrow> bytes \<Rightarrow> bool" where
  "block_at X ct bcc file h raw \<longleftrightarrow>
     (\<exists>pre post. file = pre @ encode_block_with_trailer X raw (of_nat (length pre)) ct bcc @ post \<and>
        h = \<lparr>handle_offset = of_nat (length pre), handle_size = of_nat (length raw)\<rparr>)"

definition data_block_at ::
    "ext \<Rightarrow> ChecksumType \<Rightarrow> u32 \<Rightarrow> bytes \<Rightarrow> bytes \<times> BlockHandle \<Rightarrow> entry list \<Rightarrow> bool" where
  "data_block_at X ct bcc file e es \<longleftrightarrow>
     es \<noteq> [] \<and> fst e = fst (last es) \<and>
     (\<exists>b. block_at X ct bcc file (snd e) (block_builder_finish b) \<and> bb_inv b es)"

text \<open>
  What stands behind the data blocks: the index block, the block with the properties \<open>props\<close>, the
  metaindex block with the handles of both, and the footer. The data blocks end where the index block
  starts.
\<close>

definition sst_tail ::
    "ext \<Rightarrow> ChecksumType \<Rightarrow> u32 \<Rightarrow> bytes \<Rightarrow> (bytes \<times> BlockHandle) list \<Rightarrow> PropertiesInput \<Rightarrow> bool" where
  "sst_tail X ct bcc file hs props \<longleftrightarrow>
     (\<exists>ft ph ih mb ib pb.
        decode_footer X (drop (length file - FOOTER_TAIL_LEN) file) (of_nat (length file)) = Ok ft \<and>
        table_magic_number ft = BLOCK_BASED_TABLE_MAGIC \<and> format_version ft = FORMAT_VERSION \<and>
        checksum_type ft = ct \<and> base_context_checksum ft = bcc \<and> index_handle ft = None \<and>
        block_at X ct bcc file (metaindex_handle ft) (block_builder_finish mb) \<and>
        bb_inv mb (metaindex_entries ph ih) \<and>
        block_at X ct bcc file ih (index_builder_finish ib) \<and> ib_inv ib hs \<and>
        block_at X ct bcc file ph (block_builder_finish pb) \<and>
        bb_inv pb (sort_key fst (property_entries props)) \<and>
        p_data_size props = handle_offset ih \<and> p_index_size props = handle_size ih)"

definition sst_layout ::
    "ext \<Rightarrow> ChecksumType \<Rightarrow> u32 \<Rightarrow> bytes \<Rightarrow> (bytes \<times> BlockHandle) list \<Rightarrow> entry list list \<Rightarrow> bool" where
  "sst_layout X ct bcc file hs bss \<longleftrightarrow>
     FOOTER_TAIL_LEN \<le> length file \<and> list_all2 (data_block_at X ct bcc file) hs bss \<and>
     (\<exists>props. sst_tail X ct bcc file hs props)"

lemma block_at_append: "block_at X ct bcc file h raw \<Longrightarrow> block_at X ct bcc (file @ rest) h raw"
  unfolding block_at_def by (metis append.assoc)

lemma data_block_at_append:
  "data_block_at X ct bcc file e es \<Longrightarrow> data_block_at X ct bcc (file @ rest) e es"
  unfolding data_block_at_def by (blast intro: block_at_append)

lemma data_blocks_append:
  "list_all2 (data_block_at X ct bcc file) hs bss \<Longrightarrow>
     list_all2 (data_block_at X ct bcc (file @ rest)) hs bss"
  by (rule list_all2_mono) (blast intro: data_block_at_append)+

lemma write_block_at:
  assumes "write_block X opts file raw = (file', h)"
  shows "\<exists>rest. file' = file @ rest \<and> length file' = length file + length raw + 5"
    and "block_at X (opt_checksum_type opts) (opt_base_context_checksum opts) file' h raw"
    and "h = \<lparr>handle_offset = of_nat (length file), handle_size = of_nat (length raw)\<rparr>"
proof -
  have file': "file' = file @ encode_block_with_trailer X raw (of_nat (length file)) (opt_checksum_type opts)
      (opt_base_context_checksum opts)"
    and h: "h = \<lparr>handle_offset = of_nat (length file), handle_size = of_nat (length raw)\<rparr>"
    using assms by (auto simp: write_block_def Let_def)
  then show "\<exists>rest. file' = file @ rest \<and> length file' = length file + length raw + 5" by simp
  show "block_at X (opt_checksum_type opts) (opt_base_context_checksum opts) file' h raw"
    unfolding block_at_def file' h by (intro exI[of _ "file"] exI[of _ "[]"]) simp
  show "h = \<lparr>handle_offset = of_nat (length file), handle_size = of_nat (length raw)\<rparr>" by (rule h)
qed

section \<open>The loop over the entries\<close>

text \<open>A bound on the bytes of the blocks that hold some entries, trailers included.\<close>

definition blocks_size :: "entry list \<Rightarrow> nat" where
  "blocks_size es = 32 * length es + entries_size es"

lemma blocks_size_append: "blocks_size (xs @ ys) = blocks_size xs + blocks_size ys"
  by (simp add: blocks_size_def entries_size_def)

lemma finished_block_size:
  assumes "bb_inv b es" and "es \<noteq> []"
  shows "length (block_builder_finish b) + 5 \<le> blocks_size es"
proof -
  have "length (bb_buffer b) \<le> 15 * length es + entries_size es" "length (bb_restarts b) \<le> length es + 1"
    using assms(1) data_enc_length unfolding bb_inv_def by blast+
  moreover have "1 \<le> length es" using assms(2) by (simp add: Suc_le_eq)
  ultimately show ?thesis by (simp add: block_builder_finish_trailer blocks_size_def)
qed

definition build_inv :: "ext \<Rightarrow> SstBuilderOptions \<Rightarrow> build_state \<Rightarrow>
    (bytes \<times> BlockHandle) list \<Rightarrow> entry list list \<Rightarrow> entry list \<Rightarrow> bool" where
  "build_inv X opts st hs bss cur \<longleftrightarrow>
     list_all2 (data_block_at X (opt_checksum_type opts) (opt_base_context_checksum opts) (bs_file st)) hs bss \<and>
     ib_inv (bs_index_builder st) hs \<and> ib_restart_interval (bs_index_builder st) = 1 \<and>
     bb_inv (bs_block_builder st) cur \<and>
     bs_pending_last_key st = (if cur = [] then None else Some (fst (last cur))) \<and>
     length (bs_file st) \<le> blocks_size (concat bss)"

text \<open>The sizes the builder counts.\<close>

definition key_bytes :: "entry list \<Rightarrow> nat" where
  "key_bytes es = sum_list (map (\<lambda>e. length (fst e)) es)"

definition value_bytes :: "entry list \<Rightarrow> nat" where
  "value_bytes es = sum_list (map (\<lambda>e. length (snd e)) es)"

definition build_sizes :: "build_state \<Rightarrow> entry list \<Rightarrow> bool" where
  "build_sizes st es \<longleftrightarrow>
     unat (bs_raw_key_size st) = key_bytes es \<and> unat (bs_raw_value_size st) = value_bytes es"

lemma entries_size_parts: "entries_size es = key_bytes es + value_bytes es"
  by (induction es) (auto simp: key_bytes_def value_bytes_def)

lemma build_init_inv:
  "\<exists>st. build_init = Ok st \<and> build_inv X opts st [] [] [] \<and> build_sizes st []"
  using index_builder_new_inv[of 1] block_builder_new_inv[of 16]
  by (auto simp: build_init_def build_inv_def build_sizes_def key_bytes_def value_bytes_def INDEX_BLOCK_RESTART_INTERVAL_def
        DATA_BLOCK_RESTART_INTERVAL_def index_builder_new_def block_builder_new_def)

lemma bb_inv_empty: "bb_inv b es \<Longrightarrow> block_builder_is_empty b \<longleftrightarrow> es = []"
  unfolding bb_inv_def block_builder_is_empty_def by (auto elim: data_enc.cases)

lemma flush_data_block_inv:
  assumes blocks: "list_all2 (data_block_at X (opt_checksum_type opts) (opt_base_context_checksum opts) file) hs bss"
    and ib: "ib_inv ib hs" "ib_restart_interval ib = 1" and bb: "bb_inv bb cur" "cur \<noteq> []"
    and key: "k = fst (last cur)" "length k < 2 ^ 32"
  shows "\<exists>file' ib' h. flush_data_block X opts file ib bb k = Ok (file', ib') \<and>
           list_all2 (data_block_at X (opt_checksum_type opts) (opt_base_context_checksum opts) file')
             (hs @ [(k, h)]) (bss @ [cur]) \<and>
           ib_inv ib' (hs @ [(k, h)]) \<and> ib_restart_interval ib' = 1 \<and>
           length file' \<le> length file + blocks_size cur"
proof -
  obtain file' h where w: "write_block X opts file (block_builder_finish bb) = (file', h)"
    by (cases "write_block X opts file (block_builder_finish bb)")
  obtain rest where file': "file' = file @ rest" and
      len: "length file' = length file + length (block_builder_finish bb) + 5"
    using write_block_at(1)[OF w] by blast
  obtain ib' where ib': "index_builder_add ib k h = Ok ib'" "ib_inv ib' (hs @ [(k, h)])"
      "ib_restart_interval ib' = 1"
    using index_builder_add_inv[OF ib(1) key(2)] ib(2) by auto
  have "data_block_at X (opt_checksum_type opts) (opt_base_context_checksum opts) file' (k, h) cur"
    using write_block_at(2)[OF w] bb key(1) by (auto simp: data_block_at_def)
  then have "list_all2 (data_block_at X (opt_checksum_type opts) (opt_base_context_checksum opts) file')
      (hs @ [(k, h)]) (bss @ [cur])"
    using data_blocks_append[OF blocks, of rest] file' by (intro list_all2_appendI) simp_all
  with w ib' bb_inv_empty[OF bb(1)] bb(2) len finished_block_size[OF bb] show ?thesis
    by (auto simp: flush_data_block_def)
qed

lemma u64_add_sum:
  "unat a + n < 2 ^ 64 \<Longrightarrow> u64_add a (of_nat n) = Ok (a + of_nat n) \<and> unat (a + of_nat n :: u64) = unat a + n"
  by (simp add: u64_add_def unat_of_nat_u64 unat_word_ariths)

text \<open>A turn of the loop: the entry is added to the block, and a full block is flushed.\<close>

lemma build_step_add:
  assumes inv: "build_inv X opts st hs bss cur" and sz: "build_sizes st es"
    and small: "small_entry k v" and n: "entries_size (es @ [(k, v)]) < 2 ^ 64"
  shows "\<exists>st1. build_inv X opts st1 hs bss (cur @ [(k, v)]) \<and> build_sizes st1 (es @ [(k, v)]) \<and>
    build_step X opts st k v =
      (if TARGET_BLOCK_SIZE \<le> block_builder_current_size_estimate (bs_block_builder st1) then
         obind (block_builder_new DATA_BLOCK_RESTART_INTERVAL) (\<lambda>fresh.
         obind (flush_data_block X opts (bs_file st1) (bs_index_builder st1) (bs_block_builder st1) k) (\<lambda>(file, ib).
         Ok (st1\<lparr>bs_file := file, bs_index_builder := ib, bs_block_builder := fresh, bs_pending_last_key := None\<rparr>)))
       else Ok st1)"
proof -
  have rk: "u64_add (bs_raw_key_size st) (of_nat (length k)) = Ok (bs_raw_key_size st + of_nat (length k))"
    "unat (bs_raw_key_size st + of_nat (length k)) = unat (bs_raw_key_size st) + length k"
    and rv: "u64_add (bs_raw_value_size st) (of_nat (length v)) = Ok (bs_raw_value_size st + of_nat (length v))"
    "unat (bs_raw_value_size st + of_nat (length v)) = unat (bs_raw_value_size st) + length v"
    using sz n u64_add_sum[of "bs_raw_key_size st" "length k"] u64_add_sum[of "bs_raw_value_size st" "length v"]
    by (simp_all add: build_sizes_def entries_size_parts[of es])
  obtain bb where bb: "block_builder_add (bs_block_builder st) k v = Ok bb" "bb_inv bb (cur @ [(k, v)])"
    using block_builder_add_inv[OF _ small] inv unfolding build_inv_def by blast
  let ?st1 = "st\<lparr>bs_raw_key_size := bs_raw_key_size st + of_nat (length k),
      bs_raw_value_size := bs_raw_value_size st + of_nat (length v), bs_block_builder := bb,
      bs_pending_last_key := Some k\<rparr>"
  have "build_inv X opts ?st1 hs bss (cur @ [(k, v)])" using inv bb(2) by (simp add: build_inv_def)
  moreover have "build_sizes ?st1 (es @ [(k, v)])"
    using sz rk(2) rv(2) by (simp add: build_sizes_def key_bytes_def value_bytes_def)
  moreover have "build_step X opts st k v =
      (if TARGET_BLOCK_SIZE \<le> block_builder_current_size_estimate (bs_block_builder ?st1) then
         obind (block_builder_new DATA_BLOCK_RESTART_INTERVAL) (\<lambda>fresh.
         obind (flush_data_block X opts (bs_file ?st1) (bs_index_builder ?st1) (bs_block_builder ?st1) k) (\<lambda>(file, ib).
         Ok (?st1\<lparr>bs_file := file, bs_index_builder := ib, bs_block_builder := fresh, bs_pending_last_key := None\<rparr>)))
       else Ok ?st1)"
    using rk(1) rv(1) bb(1) by (simp add: build_step_def)
  ultimately show ?thesis by blast
qed

lemma build_step_inv:
  assumes "build_inv X opts st hs bss cur" and "build_sizes st es"
    and small: "small_entry k v" and "entries_size (es @ [(k, v)]) < 2 ^ 64"
  shows "\<exists>st' hs' bss' cur'. build_step X opts st k v = Ok st' \<and> build_inv X opts st' hs' bss' cur' \<and>
           concat bss' @ cur' = concat bss @ cur @ [(k, v)] \<and> build_sizes st' (es @ [(k, v)])"
proof -
  obtain st1 where inv: "build_inv X opts st1 hs bss (cur @ [(k, v)])" and sz: "build_sizes st1 (es @ [(k, v)])"
      and step: "build_step X opts st k v =
      (if TARGET_BLOCK_SIZE \<le> block_builder_current_size_estimate (bs_block_builder st1) then
         obind (block_builder_new DATA_BLOCK_RESTART_INTERVAL) (\<lambda>fresh.
         obind (flush_data_block X opts (bs_file st1) (bs_index_builder st1) (bs_block_builder st1) k) (\<lambda>(file, ib).
         Ok (st1\<lparr>bs_file := file, bs_index_builder := ib, bs_block_builder := fresh, bs_pending_last_key := None\<rparr>)))
       else Ok st1)"
    using build_step_add[OF assms] by blast
  show ?thesis
  proof (cases "TARGET_BLOCK_SIZE \<le> block_builder_current_size_estimate (bs_block_builder st1)")
    case True
    obtain fresh where fresh: "block_builder_new DATA_BLOCK_RESTART_INTERVAL = Ok fresh" "bb_inv fresh []"
      using block_builder_new_inv[of 16] by (auto simp: DATA_BLOCK_RESTART_INTERVAL_def)
    obtain file' ib' h where
        fl: "flush_data_block X opts (bs_file st1) (bs_index_builder st1) (bs_block_builder st1) k = Ok (file', ib')"
        "list_all2 (data_block_at X (opt_checksum_type opts) (opt_base_context_checksum opts) file')
           (hs @ [(k, h)]) (bss @ [cur @ [(k, v)]])"
        "ib_inv ib' (hs @ [(k, h)])" "ib_restart_interval ib' = 1"
        "length file' \<le> length (bs_file st1) + blocks_size (cur @ [(k, v)])"
      using flush_data_block_inv[of X opts "bs_file st1" hs bss "bs_index_builder st1" "bs_block_builder st1"
          "cur @ [(k, v)]" k] inv small
      unfolding build_inv_def by auto
    let ?st' = "st1\<lparr>bs_file := file', bs_index_builder := ib', bs_block_builder := fresh,
        bs_pending_last_key := None\<rparr>"
    have "build_step X opts st k v = Ok ?st'" using True step fresh(1) fl(1) by simp
    moreover have "build_inv X opts ?st' (hs @ [(k, h)]) (bss @ [cur @ [(k, v)]]) []"
      using fl fresh(2) inv by (simp add: build_inv_def blocks_size_append)
    moreover have "build_sizes ?st' (es @ [(k, v)])" using sz by (simp add: build_sizes_def)
    ultimately show ?thesis by fastforce
  next
    case False
    with step inv sz show ?thesis by fastforce
  qed
qed

lemma build_entries_inv:
  assumes "build_inv X opts st hs bss cur" and "build_sizes st done_es"
    and "\<forall>(k, v) \<in> set es. small_entry k v" and "entries_size (done_es @ es) < 2 ^ 64"
  shows "\<exists>st' hs' bss' cur'. build_entries X opts st es = Ok st' \<and> build_inv X opts st' hs' bss' cur' \<and>
           concat bss' @ cur' = concat bss @ cur @ es \<and> build_sizes st' (done_es @ es)"
  using assms
proof (induction es arbitrary: st hs bss cur done_es)
  case (Cons e es)
  obtain k v where e: "e = (k, v)" by (cases e)
  obtain st1 hs1 bss1 cur1 where s1: "build_step X opts st k v = Ok st1" "build_inv X opts st1 hs1 bss1 cur1"
      "concat bss1 @ cur1 = concat bss @ cur @ [(k, v)]" "build_sizes st1 (done_es @ [(k, v)])"
    using build_step_inv[OF Cons.prems(1,2), of k v] Cons.prems(3,4) e by auto
  obtain st' hs' bss' cur' where "build_entries X opts st1 es = Ok st'" "build_inv X opts st' hs' bss' cur'"
      "concat bss' @ cur' = concat bss1 @ cur1 @ es" "build_sizes st' ((done_es @ [(k, v)]) @ es)"
    using Cons.IH[OF s1(2,4)] Cons.prems(3,4) e by auto
  moreover from this(3) s1(3) have "concat bss' @ cur' = concat bss @ cur @ e # es"
    using e by (metis append.assoc append_Cons append_Nil)
  moreover have "build_entries X opts st (e # es) = build_entries X opts st1 es"
    using s1(1) e by simp
  ultimately show ?case using e by (metis append.assoc append_Cons append_Nil)
qed fastforce

section \<open>Behind the data blocks\<close>

definition small_options :: "SstBuilderOptions \<Rightarrow> bool" where
  "small_options opts \<longleftrightarrow>
     length (opt_comparator_name opts) < 2 ^ 32 \<and> length (opt_column_family_name opts) < 2 ^ 32"

lemma index_bytes_length: "length (index_bytes sh key lh h) \<le> 30 + length key"
proof -
  have v: "length (varint x) \<le> 10" for x using length_varint64_bytes[of x] by (simp add: varint64_bytes_def)
  have "length (handle_bytes sh lh h) \<le> 20"
    using v[of "handle_offset h"] v[of "handle_size h"] v[of "zigzag (handle_size h - handle_size (the lh))"]
    by (simp add: handle_bytes_def)
  then show ?thesis
    using length_varint32_le[of "of_nat sh"] length_varint32_le[of "of_nat (length key - sh)"]
    unfolding index_bytes_def length_append length_drop by linarith
qed

lemma index_enc_size:
  "index_enc R base ks lh buf hs \<Longrightarrow> length buf \<le> 30 * length hs + sum_list (map (\<lambda>e. length (fst e)) hs)"
proof (induction rule: index_enc.induct)
  case (index_enc_Cons sh ks lh key h base buf hs)
  then show ?case using index_bytes_length[of sh key lh h] by simp
qed simp

lemma entries_size_last: "es \<noteq> [] \<Longrightarrow> length (fst (last es)) \<le> entries_size es"
  using entries_size_member[of "fst (last es)" "snd (last es)" es] by simp

lemma separators_size:
  "list_all2 (data_block_at X ct bcc file) hs bss \<Longrightarrow>
     length hs \<le> length (concat bss) \<and>
     sum_list (map (\<lambda>e. length (fst e)) hs) \<le> entries_size (concat bss)"
proof (induction hs bss rule: list_all2_induct)
  case (Cons e hs es bss)
  have "es \<noteq> []" "fst e = fst (last es)" using Cons.hyps(1) by (simp_all add: data_block_at_def)
  with Cons.IH entries_size_last[of es] show ?case
    by (cases es) (auto simp: entries_size_def)
qed simp

lemma index_block_size:
  assumes "list_all2 (data_block_at X ct bcc file) hs bss" and "ib_inv ib hs"
  shows "length (index_builder_finish ib) \<le> 34 * length (concat bss) + entries_size (concat bss) + 8"
proof -
  have "length (ib_buffer ib) \<le> 30 * length hs + sum_list (map (\<lambda>e. length (fst e)) hs)"
      "length (ib_restarts ib) \<le> length hs + 1"
    using assms(2) index_enc_size unfolding ib_inv_def by blast+
  with separators_size[OF assms(1)] show ?thesis by (simp add: index_builder_finish_trailer)
qed

definition sst_size_bound :: "SstBuilderOptions \<Rightarrow> entry list \<Rightarrow> nat" where
  "sst_size_bound opts es =
     66 * length es + 2 * entries_size es + length (opt_comparator_name opts) +
     length (opt_column_family_name opts) + 1200"

lemma written_footer:
  assumes w: "write_block X opts file raw = (file3, mh)" and raw: "length raw < 2 ^ 32"
  shows "\<exists>fb. encode_footer_v6_plus X FORMAT_VERSION (opt_checksum_type opts) mh
             (opt_base_context_checksum opts) (of_nat (length file3)) = Ok fb \<and>
           length fb = FOOTER_TAIL_LEN \<and>
           (length (file3 @ fb) < 2 ^ 64 \<longrightarrow>
              (\<exists>ft. decode_footer X fb (of_nat (length (file3 @ fb))) = Ok ft \<and>
                 checksum_type ft = opt_checksum_type opts \<and>
                 base_context_checksum ft = opt_base_context_checksum opts \<and>
                 index_handle ft = None \<and> metaindex_handle ft = mh \<and>
                  table_magic_number ft = BLOCK_BASED_TABLE_MAGIC \<and> format_version ft = FORMAT_VERSION))"
proof -
  let ?fo = "of_nat (length file3) :: u64" and ?ct = "opt_checksum_type opts"
    and ?bcc = "opt_base_context_checksum opts"
  have mh: "mh = \<lparr>handle_offset = of_nat (length file), handle_size = of_nat (length raw)\<rparr>"
    and len: "length file3 = length file + length raw + 5"
    using write_block_at[OF w] by auto
  have sz: "unat (handle_size mh) = length raw"
    using mh raw by (simp add: unat_of_nat_u64)
  have fv: "6 \<le> FORMAT_VERSION" "FORMAT_VERSION \<le> 7" by (simp_all add: FORMAT_VERSION_def)
  obtain fb where fb: "encode_footer_v6_plus X FORMAT_VERSION ?ct mh ?bcc ?fo = Ok fb"
      "length fb = FOOTER_TAIL_LEN"
    using encode_footer_bytes[OF fv(1)] sz raw by (simp add: FOOTER_TAIL_LEN_def)
  have "\<exists>ft. decode_footer X fb (of_nat (length (file3 @ fb))) = Ok ft \<and> checksum_type ft = ?ct \<and>
      base_context_checksum ft = ?bcc \<and> index_handle ft = None \<and> metaindex_handle ft = mh \<and>
                  table_magic_number ft = BLOCK_BASED_TABLE_MAGIC \<and> format_version ft = FORMAT_VERSION"
    if "length (file3 @ fb) < 2 ^ 64"
  proof -
    have bound: "length file3 + NEW_VERSIONS_ENCODED_LEN < 2 ^ 64"
      using that fb(2) by (simp add: FOOTER_TAIL_LEN_def)
    then have fo: "unat ?fo = length file3" by (intro unat_of_nat_u64) simp
    have "unat (handle_offset mh) = length file"
      using mh bound len by (simp add: unat_of_nat_u64)
    with sz len fo have "unat (handle_offset mh) + unat (handle_size mh) + 5 = unat ?fo" by simp
    from decode_encoded_footer[OF fv _ this _ fb(1)] fo bound sz raw fb(2)
    show ?thesis by (simp add: FOOTER_TAIL_LEN_def)
  qed
  with fb show ?thesis by blast
qed

definition tail_properties :: "SstBuilderOptions \<Rightarrow> nat \<Rightarrow> build_state \<Rightarrow> PropertiesInput" where
  "tail_properties opts n st =
     \<lparr>p_num_entries = of_nat n, p_raw_key_size = bs_raw_key_size st,
      p_raw_value_size = bs_raw_value_size st, p_data_size = of_nat (length (bs_file st)),
      p_index_size = of_nat (length (index_builder_finish (bs_index_builder st))),
      p_comparator_name = opt_comparator_name opts, p_column_family_id = opt_column_family_id opts,
      p_column_family_name = opt_column_family_name opts,
      p_external_sst_global_seqno = opt_external_sst_global_seqno opts\<rparr>"

text \<open>What the end of \<open>build_sst\<close> writes: three blocks and the footer.\<close>

lemma build_tail_parts:
  fixes X :: ext and opts :: SstBuilderOptions and st :: build_state
  assumes opts: "small_options opts"
  defines "at \<equiv> block_at X (opt_checksum_type opts) (opt_base_context_checksum opts)"
    and "ir \<equiv> index_builder_finish (bs_index_builder st)"
  shows "\<exists>rest fb ih ph mh pb mb.
    build_tail X opts n st = Ok (bs_file st @ rest @ fb) \<and> length fb = FOOTER_TAIL_LEN \<and>
    at (bs_file st @ rest) ih ir \<and>
    ih = \<lparr>handle_offset = of_nat (length (bs_file st)), handle_size = of_nat (length ir)\<rparr> \<and>
    at (bs_file st @ rest) ph (block_builder_finish pb) \<and>
    bb_inv pb (sort_key fst (property_entries (tail_properties opts n st))) \<and>
    at (bs_file st @ rest) mh (block_builder_finish mb) \<and> bb_inv mb (metaindex_entries ph ih) \<and>
    length rest \<le> length ir + 1135 + length (opt_comparator_name opts) + length (opt_column_family_name opts) \<and>
    (length (bs_file st @ rest @ fb) < 2 ^ 64 \<longrightarrow>
       (\<exists>ft. decode_footer X fb (of_nat (length (bs_file st @ rest @ fb))) = Ok ft \<and>
          checksum_type ft = opt_checksum_type opts \<and> base_context_checksum ft = opt_base_context_checksum opts \<and>
          index_handle ft = None \<and> metaindex_handle ft = mh \<and>
                  table_magic_number ft = BLOCK_BASED_TABLE_MAGIC \<and> format_version ft = FORMAT_VERSION))"
proof -
  obtain file1 ih where w1: "write_block X opts (bs_file st) ir = (file1, ih)"
    by (cases "write_block X opts (bs_file st) ir")
  obtain pb where pb: "build_properties_block (tail_properties opts n st) = Ok (block_builder_finish pb)"
      "bb_inv pb (sort_key fst (property_entries (tail_properties opts n st)))"
      "length (block_builder_finish pb) \<le> 1000 + length (opt_comparator_name opts) + length (opt_column_family_name opts)"
    using build_properties_block_Ok[of "tail_properties opts n st"] opts
    by (auto simp: small_options_def tail_properties_def)
  obtain file2 ph where w2: "write_block X opts file1 (block_builder_finish pb) = (file2, ph)"
    by (cases "write_block X opts file1 (block_builder_finish pb)")
  obtain mb where mb: "build_metaindex_block [(PROPERTIES_BLOCK_NAME, ph), (INDEX_BLOCK_NAME, ih)] =
      Ok (block_builder_finish mb)" "bb_inv mb (metaindex_entries ph ih)"
      "length (block_builder_finish mb) \<le> 120"
    using metaindex_built by blast
  obtain file3 mh where w3: "write_block X opts file2 (block_builder_finish mb) = (file3, mh)"
    by (cases "write_block X opts file2 (block_builder_finish mb)")
  obtain fb where fb: "encode_footer_v6_plus X FORMAT_VERSION (opt_checksum_type opts) mh
      (opt_base_context_checksum opts) (of_nat (length file3)) = Ok fb" "length fb = FOOTER_TAIL_LEN"
      "length (file3 @ fb) < 2 ^ 64 \<longrightarrow>
         (\<exists>ft. decode_footer X fb (of_nat (length (file3 @ fb))) = Ok ft \<and>
            checksum_type ft = opt_checksum_type opts \<and>
            base_context_checksum ft = opt_base_context_checksum opts \<and>
            index_handle ft = None \<and> metaindex_handle ft = mh \<and>
                  table_magic_number ft = BLOCK_BASED_TABLE_MAGIC \<and> format_version ft = FORMAT_VERSION)"
    using written_footer[OF w3] mb(3) by auto
  obtain r1 r2 r3 where r: "file1 = bs_file st @ r1" "file2 = file1 @ r2" "file3 = file2 @ r3"
      "length r1 = length ir + 5" "length r2 = length (block_builder_finish pb) + 5"
      "length r3 = length (block_builder_finish mb) + 5"
    using write_block_at(1)[OF w1] write_block_at(1)[OF w2] write_block_at(1)[OF w3] by auto
  have "build_tail X opts n st = Ok (file3 @ fb)"
    using w1 pb(1) w2 mb(1) w3 fb(1) by (simp add: build_tail_def Let_def ir_def tail_properties_def)
  moreover have "at file3 ih ir" "at file3 ph (block_builder_finish pb)" "at file3 mh (block_builder_finish mb)"
    using block_at_append[OF write_block_at(2)[OF w1], of "r2 @ r3"]
      block_at_append[OF write_block_at(2)[OF w2], of r3] write_block_at(2)[OF w3] r(1-3)
    by (simp_all add: at_def)
  moreover have "length (r1 @ r2 @ r3) \<le>
      length ir + 1135 + length (opt_comparator_name opts) + length (opt_column_family_name opts)"
    using r(4-6) pb(3) mb(3) by simp
  moreover have "file3 = bs_file st @ r1 @ r2 @ r3" using r(1-3) by simp
  ultimately show ?thesis
    using fb(2,3) pb(2) mb(2) write_block_at(3)[OF w1]
    by (intro exI[of _ "r1 @ r2 @ r3"] exI[of _ fb] exI[of _ ih] exI[of _ ph] exI[of _ mh] exI[of _ pb] exI[of _ mb]) simp
qed

lemma build_tail_layout:
  assumes blocks: "list_all2 (data_block_at X (opt_checksum_type opts) (opt_base_context_checksum opts) (bs_file st)) hs bss"
    and ib: "ib_inv (bs_index_builder st) hs" and opts: "small_options opts"
    and size: "length (bs_file st) \<le> blocks_size (concat bss)"
  shows "\<exists>file. build_tail X opts n st = Ok file \<and> length file \<le> sst_size_bound opts (concat bss) \<and>
           (length file < 2 ^ 64 \<longrightarrow>
              sst_layout X (opt_checksum_type opts) (opt_base_context_checksum opts) file hs bss \<and>
              sst_tail X (opt_checksum_type opts) (opt_base_context_checksum opts) file hs (tail_properties opts n st))"
proof -
  let ?at = "block_at X (opt_checksum_type opts) (opt_base_context_checksum opts)"
  let ?ir = "index_builder_finish (bs_index_builder st)"
  from build_tail_parts[OF opts, of X n st] obtain rest fb ih ph mh pb mb where
      t: "build_tail X opts n st = Ok (bs_file st @ rest @ fb)" "length fb = FOOTER_TAIL_LEN"
      and at: "?at (bs_file st @ rest) ih ?ir" "?at (bs_file st @ rest) ph (block_builder_finish pb)"
        "?at (bs_file st @ rest) mh (block_builder_finish mb)"
      and ih: "ih = \<lparr>handle_offset = of_nat (length (bs_file st)), handle_size = of_nat (length ?ir)\<rparr>"
      and pb: "bb_inv pb (sort_key fst (property_entries (tail_properties opts n st)))"
      and mb: "bb_inv mb (metaindex_entries ph ih)"
      and len: "length rest \<le> length ?ir + 1135 + length (opt_comparator_name opts) + length (opt_column_family_name opts)"
      and ft: "length (bs_file st @ rest @ fb) < 2 ^ 64 \<longrightarrow>
         (\<exists>ft. decode_footer X fb (of_nat (length (bs_file st @ rest @ fb))) = Ok ft \<and>
          checksum_type ft = opt_checksum_type opts \<and> base_context_checksum ft = opt_base_context_checksum opts \<and>
          index_handle ft = None \<and> metaindex_handle ft = mh \<and>
                  table_magic_number ft = BLOCK_BASED_TABLE_MAGIC \<and> format_version ft = FORMAT_VERSION)"
    by blast
  let ?file = "bs_file st @ rest @ fb"
  have at': "?at ?file ih ?ir" "?at ?file ph (block_builder_finish pb)" "?at ?file mh (block_builder_finish mb)"
    using block_at_append[OF at(1), of fb] block_at_append[OF at(2), of fb] block_at_append[OF at(3), of fb]
    by simp_all
  have "drop (length ?file - FOOTER_TAIL_LEN) ?file = fb" using t(2) by simp
  moreover have "p_data_size (tail_properties opts n st) = handle_offset ih"
      "p_index_size (tail_properties opts n st) = handle_size ih"
    by (simp_all add: ih tail_properties_def)
  ultimately have tail: "length ?file < 2 ^ 64 \<longrightarrow>
      sst_tail X (opt_checksum_type opts) (opt_base_context_checksum opts) ?file hs (tail_properties opts n st)"
    unfolding sst_tail_def using ft at' pb mb ib by metis
  have "FOOTER_TAIL_LEN \<le> length ?file" using t(2) by simp
  moreover have "list_all2 (data_block_at X (opt_checksum_type opts) (opt_base_context_checksum opts) ?file) hs bss"
    using data_blocks_append[OF blocks, of "rest @ fb"] by simp
  moreover have "length ?file \<le> sst_size_bound opts (concat bss)"
    using len t(2) size index_block_size[OF blocks ib]
    by (simp add: sst_size_bound_def blocks_size_def FOOTER_TAIL_LEN_def NEW_VERSIONS_ENCODED_LEN_def)
  ultimately show ?thesis using t(1) tail unfolding sst_layout_def by blast
qed

lemma flush_last_inv:
  assumes inv: "build_inv X opts st hs bss cur" and small: "\<forall>(k, v) \<in> set cur. small_entry k v"
  shows "\<exists>st' hs' bss'. flush_last X opts st = Ok st' \<and>
     list_all2 (data_block_at X (opt_checksum_type opts) (opt_base_context_checksum opts) (bs_file st')) hs' bss' \<and>
     ib_inv (bs_index_builder st') hs' \<and> concat bss' = concat bss @ cur \<and>
     length (bs_file st') \<le> blocks_size (concat bss') \<and>
     bs_raw_key_size st' = bs_raw_key_size st \<and> bs_raw_value_size st' = bs_raw_value_size st"
proof (cases "cur = []")
  case True
  then have "flush_last X opts st = Ok st" using inv by (simp add: flush_last_def build_inv_def)
  with True inv show ?thesis by (auto simp: build_inv_def)
next
  case False
  then have "length (fst (last cur)) < 2 ^ 32" using small last_in_set[OF False] by (metis case_prodD prod.collapse)
  then obtain file' ib' h where
      fl: "flush_data_block X opts (bs_file st) (bs_index_builder st) (bs_block_builder st) (fst (last cur)) = Ok (file', ib')"
        "list_all2 (data_block_at X (opt_checksum_type opts) (opt_base_context_checksum opts) file')
           (hs @ [(fst (last cur), h)]) (bss @ [cur])"
        "ib_inv ib' (hs @ [(fst (last cur), h)])" "length file' \<le> length (bs_file st) + blocks_size cur"
    using flush_data_block_inv[of X opts "bs_file st" hs bss "bs_index_builder st" "bs_block_builder st" cur] False inv
    unfolding build_inv_def by blast
  let ?st' = "st\<lparr>bs_file := file', bs_index_builder := ib', bs_pending_last_key := None\<rparr>"
  have "flush_last X opts st = Ok ?st'"
    using fl(1) False inv by (simp add: flush_last_def build_inv_def)
  moreover have "list_all2 (data_block_at X (opt_checksum_type opts) (opt_base_context_checksum opts) (bs_file ?st'))
      (hs @ [(fst (last cur), h)]) (bss @ [cur])" "ib_inv (bs_index_builder ?st') (hs @ [(fst (last cur), h)])"
    "concat (bss @ [cur]) = concat bss @ cur" "length (bs_file ?st') \<le> blocks_size (concat (bss @ [cur]))"
    using fl(2-4) inv by (simp_all add: build_inv_def blocks_size_append)
  moreover have "bs_raw_key_size ?st' = bs_raw_key_size st" "bs_raw_value_size ?st' = bs_raw_value_size st" by simp_all
  ultimately show ?thesis by blast
qed

text \<open>The properties of a file with given entries: its counters and sizes, and the options.\<close>

definition file_properties :: "SstBuilderOptions \<Rightarrow> entry list \<Rightarrow> BlockHandle \<Rightarrow> PropertiesInput" where
  "file_properties opts es ih =
     \<lparr>p_num_entries = of_nat (length es), p_raw_key_size = of_nat (key_bytes es),
      p_raw_value_size = of_nat (value_bytes es), p_data_size = handle_offset ih,
      p_index_size = handle_size ih, p_comparator_name = opt_comparator_name opts,
      p_column_family_id = opt_column_family_id opts, p_column_family_name = opt_column_family_name opts,
      p_external_sst_global_seqno = opt_external_sst_global_seqno opts\<rparr>"

lemma build_sst_layout:
  assumes rew: "rewritten_entries opts es0 = Ok es" and size: "entries_size es < 2 ^ 32"
    and opts: "small_options opts"
  shows "\<exists>file hs bss ih. build_sst X opts es0 = Ok file \<and> concat bss = es \<and>
           length file \<le> sst_size_bound opts es \<and>
           (length file < 2 ^ 64 \<longrightarrow>
              sst_layout X (opt_checksum_type opts) (opt_base_context_checksum opts) file hs bss \<and>
              sst_tail X (opt_checksum_type opts) (opt_base_context_checksum opts) file hs (file_properties opts es ih))"
proof -
  have small: "\<forall>(k, v) \<in> set es. small_entry k v"
    using size by (auto dest!: entries_size_member)
  obtain st0 where st0: "build_init = Ok st0" "build_inv X opts st0 [] [] []" "build_sizes st0 []"
    using build_init_inv by blast
  obtain st1 hs1 bss1 cur1 where st1: "build_entries X opts st0 es = Ok st1"
      "build_inv X opts st1 hs1 bss1 cur1" "concat bss1 @ cur1 = es" "build_sizes st1 es"
    using build_entries_inv[OF st0(2,3) small] size by auto
  have "\<forall>(k, v) \<in> set cur1. small_entry k v" using small st1(3) by auto
  from flush_last_inv[OF st1(2) this] obtain st2 hs bss where st2: "flush_last X opts st1 = Ok st2"
      "list_all2 (data_block_at X (opt_checksum_type opts) (opt_base_context_checksum opts) (bs_file st2)) hs bss"
      "ib_inv (bs_index_builder st2) hs" "concat bss = es" "length (bs_file st2) \<le> blocks_size (concat bss)"
      and raw: "bs_raw_key_size st2 = bs_raw_key_size st1" "bs_raw_value_size st2 = bs_raw_value_size st1"
    using st1(3) by auto
  have sizes: "key_bytes es = unat (bs_raw_key_size st2)" "value_bytes es = unat (bs_raw_value_size st2)"
    using st1(4) raw by (simp_all add: build_sizes_def)
  have "tail_properties opts (length es) st2 = file_properties opts es
      \<lparr>handle_offset = of_nat (length (bs_file st2)),
       handle_size = of_nat (length (index_builder_finish (bs_index_builder st2)))\<rparr>"
    unfolding tail_properties_def file_properties_def sizes by simp
  with build_tail_layout[OF st2(2,3) opts st2(5), of "length es"] show ?thesis
    using rew st0(1) st1(1) st2(1,4) by (auto simp: build_sst_def)
qed

corollary build_sst_laid_out:
  assumes "rewritten_entries opts es0 = Ok es" and "sst_size_bound opts es < 2 ^ 32"
  shows "\<exists>disk hs bss. build_sst X opts es0 = Ok disk \<and> concat bss = es \<and> length disk < 2 ^ 32 \<and>
           sst_layout X (opt_checksum_type opts) (opt_base_context_checksum opts) disk hs bss \<and>
           (\<exists>ih. sst_tail X (opt_checksum_type opts) (opt_base_context_checksum opts) disk hs (file_properties opts es ih))"
proof -
  have "entries_size es < 2 ^ 32" "small_options opts"
    using assms(2) by (simp_all add: sst_size_bound_def small_options_def)
  from build_sst_layout[OF assms(1) this, of X] obtain disk hs bss ih where d:
      "build_sst X opts es0 = Ok disk" "concat bss = es" "length disk \<le> sst_size_bound opts es"
      "length disk < 2 ^ 64 \<longrightarrow>
         sst_layout X (opt_checksum_type opts) (opt_base_context_checksum opts) disk hs bss \<and>
         sst_tail X (opt_checksum_type opts) (opt_base_context_checksum opts) disk hs (file_properties opts es ih)"
    by blast
  have "length disk < 2 ^ 32" using d(3) assms(2) by simp
  then show ?thesis using d by (intro exI[of _ "disk"] exI[of _ hs] exI[of _ bss]) auto
qed

section \<open>Zeroed sequence numbers\<close>

lemma zero_out_seqno_valid:
  assumes "valid_key k"
  shows "\<exists>k'. zero_out_seqno k = Ok k' \<and> valid_key k' \<and> length k' = length k \<and> ukey k' = ukey k \<and>
              seqno k' = 0 \<and> vtype k' = vtype k"
proof -
  let ?k = "ukey k @ u64_to_le_bytes (packed k AND 0xff)"
  have mask: "(0xff :: u64) = mask 8" by (simp add: mask_eq_exp_minus_1)
  have parts: "ukey ?k = ukey k" "packed ?k = packed k AND 0xff"
    by (simp_all add: ukey_def[of "_ @ _"] packed_def[of "_ @ _"])
  have "drop_bit 8 (packed k AND 0xff) = 0"
    unfolding mask by (rule bit_word_eqI) (simp add: bit_simps)
  moreover have "(packed k AND 0xff) AND 0xff = packed k AND 0xff" by (simp add: and.assoc)
  moreover have "zero_out_seqno k = Ok ?k"
    using assms by (simp add: zero_out_seqno_def usize_sub_def ukey_def packed_def Let_def)
  moreover have "length ?k = length k" using assms by (simp add: ukey_def)
  ultimately show ?thesis
    using assms parts by (auto simp: seqno_def vtype_def)
qed

section \<open>Properties\<close>

text \<open>
  An ingestible file needs every sequence number to be zero: the rewriting keeps the order, the
  values, the user keys and the value types, and zeroes the sequence numbers.
\<close>

theorem zero_out_seqnos_correct:
  assumes "\<forall>e \<in> set es. valid_key (fst e)"
  shows "\<exists>es'. zero_out_seqnos es = Ok es' \<and>
           list_all2 (\<lambda>e e'. snd e' = snd e \<and> length (fst e') = length (fst e) \<and> ukey (fst e') = ukey (fst e) \<and>
              vtype (fst e') = vtype (fst e) \<and> seqno (fst e') = 0) es es'"
  using assms
proof (induction es)
  case (Cons e es)
  obtain k v where e: "e = (k, v)" by (cases e)
  obtain k' where k': "zero_out_seqno k = Ok k'" "length k' = length k" "ukey k' = ukey k" "seqno k' = 0"
      "vtype k' = vtype k"
    using zero_out_seqno_valid[of k] Cons.prems e by auto
  from Cons k' e show ?case by auto
qed simp

theorem zero_out_seqnos_correct_witness:
  "\<exists>es'. zero_out_seqnos [([97, 1, 5, 0, 0, 0, 0, 0, 0], [7])] = Ok es'"
  using zero_out_seqnos_correct[of "[([97, 1, 5, 0, 0, 0, 0, 0, 0], [7])]"] by auto

text \<open>
  A file is not much larger than its entries: for entries of bounded size the builder returns, and
  the file is at most twice the bytes of keys and values, 66 bytes per entry and a constant.
\<close>

theorem build_sst_size:
  assumes "rewritten_entries opts es = Ok es'" and "entries_size es' < 2 ^ 32"
    and "length (opt_comparator_name opts) < 2 ^ 32" and "length (opt_column_family_name opts) < 2 ^ 32"
  shows "\<exists>file. build_sst X opts es = Ok file \<and>
           length file \<le> 66 * length es' + 2 * entries_size es' + length (opt_comparator_name opts) +
             length (opt_column_family_name opts) + 1200"
  using build_sst_layout[OF assms(1,2), of X] assms(3,4)
  by (auto simp: small_options_def sst_size_bound_def)

theorem build_sst_size_witness:
  "\<exists>file. build_sst example_ext sst_builder_options_default [([97, 1, 5, 0, 0, 0, 0, 0, 0], [1])] = Ok file \<and>
     length file \<le> 66 * length [([97, 1, 5, 0, 0, 0, 0, 0, 0 :: u8], [1 :: u8])] +
       2 * entries_size [([97, 1, 5, 0, 0, 0, 0, 0, 0], [1])] +
       length (opt_comparator_name sst_builder_options_default) +
       length (opt_column_family_name sst_builder_options_default) + 1200"
  by (rule build_sst_size)
     (simp_all add: rewritten_entries_def sst_builder_options_default_def BYTEWISE_COMPARATOR_NAME_def as_bytes_def)

end
