(* ===== verification/Sst_Reader.thy ===== *)
theory Sst_Reader
  imports Sst_Builder
begin

text \<open>
  Reading a table file block by block (\<^verbatim>\<open>sst/mod.rs\<close>) through the trait \<open>FileReader\<close> (\<^verbatim>\<open>io/mod.rs\<close>). A
  reader is the record of the trait's two methods; a read gives the bytes or an I/O error (\<open>None\<close>).
  \<open>blocking_file_reader\<close> is \<open>BlockingFileReader\<close> on a file with given contents. The contract between
  the two is the locale \<open>file_contents\<close>.
\<close>

section \<open>Model\<close>

record file_reader =
  read_at :: "u64 \<Rightarrow> nat \<Rightarrow> bytes option outcome"
  file_size :: u64

text \<open>
  \<open>vec![0u8; len]\<close> panics when the length exceeds \<open>isize::MAX\<close>; \<open>read_exact_at\<close> fails when the file ends
  before the buffer is full, and reads nothing for an empty buffer.
\<close>

definition blocking_read_at :: "bytes \<Rightarrow> u64 \<Rightarrow> nat \<Rightarrow> bytes option outcome" where
  "blocking_read_at disk offset len =
     (if len \<ge> 2 ^ 63 then Panic
      else if len = 0 \<or> unat offset + len \<le> length disk
      then Ok (Some (take len (drop (unat offset) disk)))
      else Ok None)"

definition blocking_file_reader :: "bytes \<Rightarrow> file_reader" where
  "blocking_file_reader disk =
     \<lparr>read_at = blocking_read_at disk, file_size = of_nat (length disk)\<rparr>"

text \<open>A reader behind an \<open>Arc\<close> delegates, so it is the reader itself.\<close>

definition arc_file_reader :: "file_reader \<Rightarrow> file_reader" where
  "arc_file_reader self =
     \<lparr>read_at = (\<lambda>offset len. read_at self offset len), file_size = file_size self\<rparr>"

lemma arc_file_reader_id [simp]: "arc_file_reader r = r"
  by (simp add: arc_file_reader_def)

record SstReader =
  sr_reader :: file_reader
  sr_footer :: Footer
  sr_metaindex :: ParsedBlock
  sr_index :: ParsedBlock

definition INDEX_BLOCK_META_KEY :: bytes where
  "INDEX_BLOCK_META_KEY = as_bytes ''rocksdb.index''"

definition read_footer :: "ext \<Rightarrow> file_reader \<Rightarrow> Footer outcome" where
  "read_footer X reader =
     (if unat (file_size reader) < FOOTER_TAIL_LEN
      then Err (Msg ''file too short to contain a footer'')
      else
        obind (u64_sub (file_size reader) (of_nat FOOTER_TAIL_LEN)) (\<lambda>tail_offset.
        obind (read_at reader tail_offset FOOTER_TAIL_LEN) (\<lambda>r.
        obind (ok_or r (Msg ''failed to read footer tail'')) (\<lambda>tail.
        decode_footer X tail (file_size reader)))))"

definition read_block_contents ::
    "ext \<Rightarrow> file_reader \<Rightarrow> BlockHandle \<Rightarrow> ChecksumType \<Rightarrow> u32 \<Rightarrow> bytes outcome" where
  "read_block_contents X reader handle ct bcc =
     obind (block_read_len handle) (\<lambda>len.
     obind (read_at reader (handle_offset handle) len) (\<lambda>r.
     obind (ok_or r (ReadFailed (handle_offset handle))) (\<lambda>raw_with_trailer.
     decode_block_contents X raw_with_trailer handle ct bcc)))"

definition decode_meta_value_handle :: "bytes \<Rightarrow> BlockHandle option" where
  "decode_meta_value_handle val =
     (case get_varint64 val 0 of
        (None, _) \<Rightarrow> None
      | (Some offset, pos) \<Rightarrow>
          (case get_varint64 val pos of
             (None, _) \<Rightarrow> None
           | (Some sz, _) \<Rightarrow> Some \<lparr>handle_offset = offset, handle_size = sz\<rparr>))"

text \<open>The state of a walk, when the walk succeeds: the operator \<open>?\<close> behind a walk.\<close>

definition walked :: "'st \<times> unit outcome \<Rightarrow> 'st outcome" where
  "walked w = obind (snd w) (\<lambda>_. Ok (fst w))"

definition sst_find_meta_handle :: "ParsedBlock \<Rightarrow> bytes \<Rightarrow> BlockHandle option outcome" where
  "sst_find_meta_handle metaindex name =
     walked (for_each_entry metaindex
       (\<lambda>found key val. if found = None \<and> key = name then decode_meta_value_handle val else found)
       None)"

definition sst_reader_open :: "ext \<Rightarrow> file_reader \<Rightarrow> SstReader outcome" where
  "sst_reader_open X reader =
     obind (read_footer X reader) (\<lambda>ft.
     obind (read_block_contents X reader (metaindex_handle ft) (checksum_type ft)
              (base_context_checksum ft)) (\<lambda>metaindex_raw.
     obind (parse_block metaindex_raw) (\<lambda>metaindex.
     obind (case index_handle ft of
              Some h \<Rightarrow> Ok h
            | None \<Rightarrow>
                obind (sst_find_meta_handle metaindex INDEX_BLOCK_META_KEY) (\<lambda>found.
                ok_or found (Msg ''index block handle missing from metaindex''))) (\<lambda>ih.
     obind (read_block_contents X reader ih (checksum_type ft) (base_context_checksum ft)) (\<lambda>index_raw.
     obind (parse_block index_raw) (\<lambda>index.
     Ok \<lparr>sr_reader = reader, sr_footer = ft, sr_metaindex = metaindex, sr_index = index\<rparr>))))))"

definition find_meta_block_handle :: "SstReader \<Rightarrow> bytes \<Rightarrow> BlockHandle option outcome" where
  "find_meta_block_handle self name = sst_find_meta_handle (sr_metaindex self) name"

fun sst_visit_blocks ::
    "ext \<Rightarrow> SstReader \<Rightarrow> ('st \<Rightarrow> bytes \<Rightarrow> bytes \<Rightarrow> 'st) \<Rightarrow> 'st \<Rightarrow> BlockHandle list \<Rightarrow> 'st \<times> unit outcome" where
  "sst_visit_blocks X self f st [] = (st, Ok ())"
| "sst_visit_blocks X self f st (handle # handles) =
     (case obind (read_block_contents X (sr_reader self) handle (checksum_type (sr_footer self))
                    (base_context_checksum (sr_footer self))) parse_block of
        Err e \<Rightarrow> (st, Err e)
      | Panic \<Rightarrow> (st, Panic)
      | Ok parsed \<Rightarrow>
          (case for_each_entry parsed f st of
             (st', Ok _) \<Rightarrow> sst_visit_blocks X self f st' handles
           | (st', Err e) \<Rightarrow> (st', Err e)
           | (st', Panic) \<Rightarrow> (st', Panic)))"

definition sst_reader_for_each_entry ::
    "ext \<Rightarrow> SstReader \<Rightarrow> ('st \<Rightarrow> bytes \<Rightarrow> bytes \<Rightarrow> 'st) \<Rightarrow> 'st \<Rightarrow> 'st \<times> unit outcome" where
  "sst_reader_for_each_entry X self f st =
     (case walked (for_each_index_entry (sr_index self) (\<lambda>hs key handle. hs @ [handle]) []) of
        Err e \<Rightarrow> (st, Err e)
      | Panic \<Rightarrow> (st, Panic)
      | Ok handles \<Rightarrow> sst_visit_blocks X self f st handles)"

section \<open>Parts of a laid out file\<close>

lemma block_at_bytes:
  assumes "block_at X ct bcc file h raw" and "length file < 2 ^ 64"
  shows "unat (handle_size h) = length raw"
    and "unat (handle_offset h) + length raw + 5 \<le> length file"
    and "take (length raw + 5) (drop (unat (handle_offset h)) file) =
           encode_block_with_trailer X raw (handle_offset h) ct bcc"
    and "h = \<lparr>handle_offset = handle_offset h, handle_size = of_nat (length raw)\<rparr>"
proof -
  obtain pre post where f: "file = pre @ encode_block_with_trailer X raw (of_nat (length pre)) ct bcc @ post"
      and h: "h = \<lparr>handle_offset = of_nat (length pre), handle_size = of_nat (length raw)\<rparr>"
    using assms(1) by (auto simp: block_at_def)
  have len: "length file = length pre + length raw + 5 + length post" using f by simp
  then have "unat (of_nat (length pre) :: u64) = length pre" "unat (of_nat (length raw) :: u64) = length raw"
    using assms(2) by (simp_all add: unat_of_nat_u64)
  with h f len show "unat (handle_size h) = length raw"
    "unat (handle_offset h) + length raw + 5 \<le> length file"
    "take (length raw + 5) (drop (unat (handle_offset h)) file) =
       encode_block_with_trailer X raw (handle_offset h) ct bcc"
    "h = \<lparr>handle_offset = handle_offset h, handle_size = of_nat (length raw)\<rparr>"
    by simp_all
qed

lemma block_at_decode:
  assumes "block_at X ct bcc file h raw" and "length file < 2 ^ 64"
  shows "decode_block_contents X (encode_block_with_trailer X raw (handle_offset h) ct bcc) h ct bcc = Ok raw"
    and "block_read_len h = Ok (length raw + 5)"
proof -
  note at = block_at_bytes[OF assms]
  have len: "length raw + 5 < 2 ^ 64" using at(2) assms(2) by simp
  from decode_encoded_block[OF len, of X "handle_offset h" ct bcc]
  show "decode_block_contents X (encode_block_with_trailer X raw (handle_offset h) ct bcc) h ct bcc = Ok raw"
    using at(4) by metis
  show "block_read_len h = Ok (length raw + 5)"
    using at(1) len by (simp add: block_read_len_def usize_add_def BLOCK_TRAILER_SIZE_def)
qed

lemma data_block_at_walk:
  assumes "data_block_at X ct bcc file e es" and "length file < 2 ^ 32"
  shows "\<exists>raw p. block_at X ct bcc file (snd e) raw \<and> parse_block raw = Ok p \<and>
                 for_each_entry p f st = (feed f st es, Ok ())"
proof -
  obtain b where at: "block_at X ct bcc file (snd e) (block_builder_finish b)" and inv: "bb_inv b es"
    using assms(1) by (auto simp: data_block_at_def)
  have "3 * length es \<le> length (bb_buffer b)"
    using data_enc_length inv unfolding bb_inv_def by blast
  moreover have "length (block_builder_finish b) \<le> length file"
    using block_at_bytes(2)[OF at] assms(2) by simp
  ultimately have "length es + 1 < 2 ^ 32"
    using assms(2) by (simp add: block_builder_finish_trailer)
  from finished_block_walk[OF inv this, of f st] at show ?thesis by blast
qed

lemma index_enc_count: "index_enc R base ks lh buf hs \<Longrightarrow> length hs \<le> length buf"
proof (induction rule: index_enc.induct)
  case (index_enc_Cons sh ks lh key h base buf hs)
  have "1 \<le> length (index_bytes sh key lh h)" by (simp add: Suc_le_eq)
  with index_enc_Cons.IH show ?case by simp
qed simp

lemma index_block_at_walk:
  assumes at: "block_at X ct bcc file h (index_builder_finish b)" and inv: "ib_inv b hs"
    and len: "length file < 2 ^ 32"
  shows "\<exists>p. parse_block (index_builder_finish b) = Ok p \<and> for_each_index_entry p f st = (feed f st hs, Ok ())"
proof -
  have "length (ib_buffer b) + 4 < 2 ^ 32"
    using block_at_bytes(2)[OF at] len by (simp add: index_builder_finish_trailer)
  moreover have "length hs \<le> length (ib_buffer b)"
    using inv index_enc_count unfolding ib_inv_def by blast
  ultimately show ?thesis by (intro finished_index_walk[OF inv]) simp_all
qed

lemma decode_meta_value_handle_value: "decode_meta_value_handle (handle_value h) = Some h"
proof -
  have "get_varint64 (handle_value h) 0 = (Some (handle_offset h), length (varint (handle_offset h)))"
    using get_varint64_varint[of "[]" "handle_offset h" "varint (handle_size h)"] by (simp add: handle_value_append)
  moreover have "fst (get_varint64 (handle_value h) (length (varint (handle_offset h)))) = Some (handle_size h)"
    using get_varint64_varint[of "varint (handle_offset h)" "handle_size h" "[]"] by (simp add: handle_value_append)
  ultimately show ?thesis
    by (cases "get_varint64 (handle_value h) (length (varint (handle_offset h)))")
       (simp add: decode_meta_value_handle_def)
qed

lemma metaindex_walk:
  assumes "bb_inv mb (metaindex_entries ph ih)"
  shows "\<exists>p. parse_block (block_builder_finish mb) = Ok p \<and>
             for_each_entry p f st = (feed f st (metaindex_entries ph ih), Ok ())"
  by (rule finished_block_walk[OF assms]) simp

lemma metaindex_handles:
  assumes "bb_inv mb (metaindex_entries ph ih)"
  shows "\<exists>p. parse_block (block_builder_finish mb) = Ok p \<and>
             sst_find_meta_handle p INDEX_BLOCK_NAME = Ok (Some ih) \<and>
             sst_find_meta_handle p PROPERTIES_BLOCK_NAME = Ok (Some ph)"
proof -
  obtain p where p: "parse_block (block_builder_finish mb) = Ok p"
    using metaindex_walk[OF assms, of "\<lambda>_ _ _. ()" "()"] by blast
  then have "for_each_entry p f st = (feed f st (metaindex_entries ph ih), Ok ())"
    for f :: "BlockHandle option \<Rightarrow> bytes \<Rightarrow> bytes \<Rightarrow> BlockHandle option" and st
    using metaindex_walk[OF assms, of f st] by auto
  then have "sst_find_meta_handle p INDEX_BLOCK_NAME = Ok (Some ih)"
      "sst_find_meta_handle p PROPERTIES_BLOCK_NAME = Ok (Some ph)"
    using block_names_less
    by (auto simp: sst_find_meta_handle_def walked_def decode_meta_value_handle_value)
  with p show ?thesis by blast
qed

section \<open>The contract of a file reader\<close>

text \<open>
  A reader of a file: it knows the file's size, and a read inside the file returns the file's bytes.
  What a table reader does with a file laid out by the builder follows from these two laws.
\<close>

locale file_contents =
  fixes R :: file_reader and disk :: bytes
  assumes size_law: "file_size R = of_nat (length disk)"
    and read_law: "off + n \<le> length disk \<Longrightarrow> length disk < 2 ^ 63 \<Longrightarrow>
      read_at R (of_nat off) n = Ok (Some (take n (drop off disk)))"
begin

lemma read_block_at:
  assumes "block_at X ct bcc disk h raw" and "length disk < 2 ^ 32"
  shows "read_block_contents X R h ct bcc = Ok raw"
proof -
  have len: "length disk < 2 ^ 64" "length disk < 2 ^ 63" using assms(2) by simp_all
  note at = block_at_bytes[OF assms(1) len(1)]
  have "read_at R (of_nat (unat (handle_offset h))) (length raw + 5) =
      Ok (Some (encode_block_with_trailer X raw (handle_offset h) ct bcc))"
    using read_law[of "unat (handle_offset h)" "length raw + 5"] at(2,3) len(2) by simp
  then show ?thesis
    using block_at_decode[OF assms(1) len(1)] by (simp add: read_block_contents_def)
qed

lemma read_laid_out_footer:
  assumes "decode_footer X (drop (length disk - FOOTER_TAIL_LEN) disk) (of_nat (length disk)) = Ok ft"
    and "FOOTER_TAIL_LEN \<le> length disk" and "length disk < 2 ^ 32"
  shows "read_footer X R = Ok ft"
proof -
  have sz: "unat (file_size R) = length disk"
    using assms(3) by (simp add: size_law unat_of_nat_u64)
  have le: "of_nat FOOTER_TAIL_LEN \<le> file_size R"
    using assms(2) sz by (simp add: word_le_nat_alt FOOTER_TAIL_LEN_def NEW_VERSIONS_ENCODED_LEN_def)
  have "file_size R - of_nat FOOTER_TAIL_LEN = of_nat (length disk - FOOTER_TAIL_LEN)"
    using assms(2) by (simp add: size_law)
  moreover have "read_at R (of_nat (length disk - FOOTER_TAIL_LEN)) FOOTER_TAIL_LEN =
      Ok (Some (drop (length disk - FOOTER_TAIL_LEN) disk))"
    using read_law[of "length disk - FOOTER_TAIL_LEN" FOOTER_TAIL_LEN] assms(2,3) by simp
  ultimately show ?thesis
    using assms(1,2) le sz
    by (simp add: read_footer_def u64_sub_def size_law del: of_nat_diff)
qed

lemma open_tail:
  assumes tail: "sst_tail X ct bcc disk hs props" and foot: "FOOTER_TAIL_LEN \<le> length disk"
    and len: "length disk < 2 ^ 32"
  shows "\<exists>self ih ph pb. sst_reader_open X R = Ok self \<and> sr_reader self = R \<and>
           table_magic_number (sr_footer self) = BLOCK_BASED_TABLE_MAGIC \<and>
           format_version (sr_footer self) = FORMAT_VERSION \<and>
           checksum_type (sr_footer self) = ct \<and> base_context_checksum (sr_footer self) = bcc \<and>
           walked (for_each_index_entry (sr_index self) (\<lambda>hs key handle. hs @ [handle]) []) = Ok (map snd hs) \<and>
           sst_find_meta_handle (sr_metaindex self) INDEX_BLOCK_NAME = Ok (Some ih) \<and>
           sst_find_meta_handle (sr_metaindex self) PROPERTIES_BLOCK_NAME = Ok (Some ph) \<and>
           block_at X ct bcc disk ph (block_builder_finish pb) \<and>
           bb_inv pb (sort_key fst (property_entries props)) \<and>
           p_data_size props = handle_offset ih \<and> p_index_size props = handle_size ih"
proof -
  obtain ft ph ih mb ib pb where
      ft: "decode_footer X (drop (length disk - FOOTER_TAIL_LEN) disk) (of_nat (length disk)) = Ok ft"
        "checksum_type ft = ct" "base_context_checksum ft = bcc" "index_handle ft = None"
        "table_magic_number ft = BLOCK_BASED_TABLE_MAGIC" "format_version ft = FORMAT_VERSION"
      and m: "block_at X ct bcc disk (metaindex_handle ft) (block_builder_finish mb)"
        "bb_inv mb (metaindex_entries ph ih)"
      and i: "block_at X ct bcc disk ih (index_builder_finish ib)" "ib_inv ib hs"
      and pb: "block_at X ct bcc disk ph (block_builder_finish pb)" "bb_inv pb (sort_key fst (property_entries props))"
        "p_data_size props = handle_offset ih" "p_index_size props = handle_size ih"
    using tail unfolding sst_tail_def by blast
  obtain mp where mp: "parse_block (block_builder_finish mb) = Ok mp"
      and found: "sst_find_meta_handle mp INDEX_BLOCK_NAME = Ok (Some ih)"
        "sst_find_meta_handle mp PROPERTIES_BLOCK_NAME = Ok (Some ph)"
    using metaindex_handles[OF m(2)] by blast
  have name: "INDEX_BLOCK_META_KEY = INDEX_BLOCK_NAME"
    by (simp add: INDEX_BLOCK_META_KEY_def INDEX_BLOCK_NAME_def)
  obtain ip where ip: "parse_block (index_builder_finish ib) = Ok ip"
      "for_each_index_entry ip (\<lambda>hs key handle. hs @ [handle]) [] = (feed (\<lambda>hs key handle. hs @ [handle]) [] hs, Ok ())"
    using index_block_at_walk[OF i len, of "\<lambda>hs key handle. hs @ [handle]" "[]"] by blast
  have "feed (\<lambda>hs key handle. hs @ [handle]) st hs = st @ map snd hs" for st
    by (induction hs arbitrary: st) auto
  then have handles: "walked (for_each_index_entry ip (\<lambda>hs key handle. hs @ [handle]) []) = Ok (map snd hs)"
    using ip(2) by (simp add: walked_def)
  have "sst_reader_open X R = Ok \<lparr>sr_reader = R, sr_footer = ft, sr_metaindex = mp, sr_index = ip\<rparr>"
    using read_laid_out_footer[OF ft(1) foot len] ft(2,3,4) read_block_at[OF m(1) len] mp found(1)
      read_block_at[OF i(1) len] ip(1)
    by (simp add: sst_reader_open_def name)
  with handles ft(2,3,5,6) found pb show ?thesis by force
qed

lemma open_laid_out:
  assumes layout: "sst_layout X ct bcc disk hs bss" and len: "length disk < 2 ^ 32"
  shows "\<exists>self. sst_reader_open X R = Ok self \<and> sr_reader self = R \<and>
           table_magic_number (sr_footer self) = BLOCK_BASED_TABLE_MAGIC \<and>
           format_version (sr_footer self) = FORMAT_VERSION \<and>
           checksum_type (sr_footer self) = ct \<and> base_context_checksum (sr_footer self) = bcc \<and>
           walked (for_each_index_entry (sr_index self) (\<lambda>hs key handle. hs @ [handle]) []) = Ok (map snd hs)"
proof -
  obtain props where "sst_tail X ct bcc disk hs props" "FOOTER_TAIL_LEN \<le> length disk"
    using layout unfolding sst_layout_def by blast
  from open_tail[OF this len] show ?thesis by blast
qed

text \<open>The properties block of an opened file.\<close>

lemma properties_laid_out:
  assumes tail: "sst_tail X ct bcc disk hs props" and foot: "FOOTER_TAIL_LEN \<le> length disk"
    and len: "length disk < 2 ^ 32"
  shows "\<exists>self ih ph raw p ps. sst_reader_open X R = Ok self \<and>
           sst_find_meta_handle (sr_metaindex self) INDEX_BLOCK_NAME = Ok (Some ih) \<and>
           sst_find_meta_handle (sr_metaindex self) PROPERTIES_BLOCK_NAME = Ok (Some ph) \<and>
           read_block_contents X R ph ct bcc = Ok raw \<and> parse_block raw = Ok p \<and>
           for_each_entry p (\<lambda>st k v. st @ [(k, v)]) [] = (ps, Ok ()) \<and>
           sorted_wrt (<) (map fst ps) \<and> mset ps = mset (property_entries props) \<and>
           p_data_size props = handle_offset ih \<and> p_index_size props = handle_size ih"
proof -
  let ?ps = "sort_key fst (property_entries props)"
  obtain self ih ph pb where self: "sst_reader_open X R = Ok self"
      "sst_find_meta_handle (sr_metaindex self) INDEX_BLOCK_NAME = Ok (Some ih)"
      "sst_find_meta_handle (sr_metaindex self) PROPERTIES_BLOCK_NAME = Ok (Some ph)"
      "block_at X ct bcc disk ph (block_builder_finish pb)" "bb_inv pb ?ps"
      "p_data_size props = handle_offset ih" "p_index_size props = handle_size ih"
    using open_tail[OF assms] by blast
  have "length ?ps + 1 < 2 ^ 32" using property_entries_size[of props] by simp
  then obtain p where p: "parse_block (block_builder_finish pb) = Ok p"
      "for_each_entry p (\<lambda>st k v. st @ [(k, v)]) [] = (?ps, Ok ())"
    using finished_block_walk[OF self(5), of "\<lambda>st k v. st @ [(k, v)]" "[]"] by (auto simp: feed_collect)
  have "sorted_wrt (<) (map fst ?ps)" "mset ?ps = mset (property_entries props)"
    using sort_key_strict[OF property_names_distinct] by simp_all
  with self p read_block_at[OF self(4) len] show ?thesis by blast
qed

lemma visit_laid_out_blocks:
  assumes "list_all2 (data_block_at X ct bcc disk) hs bss" and "length disk < 2 ^ 32"
    and "sr_reader self = R" "checksum_type (sr_footer self) = ct" "base_context_checksum (sr_footer self) = bcc"
  shows "sst_visit_blocks X self f st (map snd hs) = (feed f st (concat bss), Ok ())"
  using assms
proof (induction hs bss arbitrary: st rule: list_all2_induct)
  case (Cons e hs es bss)
  obtain raw p where "block_at X ct bcc disk (snd e) raw" "parse_block raw = Ok p"
      "for_each_entry p f st = (feed f st es, Ok ())"
    using data_block_at_walk[OF Cons.hyps(1) Cons.prems(1), of f st] by blast
  with Cons show ?case by (simp add: read_block_at feed_append)
qed simp

lemma for_each_laid_out:
  assumes "sst_layout X ct bcc disk hs bss" and "length disk < 2 ^ 32"
  shows "\<exists>self. sst_reader_open X R = Ok self \<and>
           table_magic_number (sr_footer self) = BLOCK_BASED_TABLE_MAGIC \<and>
           format_version (sr_footer self) = FORMAT_VERSION \<and> checksum_type (sr_footer self) = ct \<and>
           sst_reader_for_each_entry X self f st = (feed f st (concat bss), Ok ())"
proof -
  obtain self where self: "sst_reader_open X R = Ok self" "sr_reader self = R"
      "checksum_type (sr_footer self) = ct" "base_context_checksum (sr_footer self) = bcc"
      "walked (for_each_index_entry (sr_index self) (\<lambda>hs key handle. hs @ [handle]) []) = Ok (map snd hs)"
      "table_magic_number (sr_footer self) = BLOCK_BASED_TABLE_MAGIC" "format_version (sr_footer self) = FORMAT_VERSION"
    using open_laid_out[OF assms] by blast
  have "list_all2 (data_block_at X ct bcc disk) hs bss" using assms(1) by (simp add: sst_layout_def)
  from visit_laid_out_blocks[OF this assms(2) self(2-4), of f st] self(1,3,5,6,7) show ?thesis
    by (auto simp: sst_reader_for_each_entry_def)
qed

end

interpretation bfr: file_contents "blocking_file_reader disk" disk for disk
  by unfold_locales
     (simp_all add: blocking_file_reader_def blocking_read_at_def unat_of_nat_u64)

section \<open>Where opening a file panics\<close>

text \<open>A handle whose block, with its trailer, is longer than an allocation can be.\<close>

definition huge_handle :: "BlockHandle \<Rightarrow> bool" where
  "huge_handle h \<longleftrightarrow> unat (handle_size h) + BLOCK_TRAILER_SIZE \<ge> 2 ^ 63"

text \<open>The block that a handle names, with its trailer, and whether its decompressor panics on it.\<close>

definition block_bytes :: "bytes \<Rightarrow> BlockHandle \<Rightarrow> bytes" where
  "block_bytes disk h = take (unat (handle_size h) + BLOCK_TRAILER_SIZE) (drop (unat (handle_offset h)) disk)"

definition codec_panics_at :: "ext \<Rightarrow> bytes \<Rightarrow> Footer \<Rightarrow> BlockHandle \<Rightarrow> bool" where
  "codec_panics_at X disk ft h \<longleftrightarrow>
     block_codec_panics X (block_bytes disk h) h (checksum_type ft) (base_context_checksum ft)"

lemma block_codec_panics_in_file:
  assumes "block_codec_panics X (block_bytes disk h) h ct bcc"
  shows "unat (handle_offset h) + (unat (handle_size h) + BLOCK_TRAILER_SIZE) \<le> length disk"
  using assms by (auto simp: block_codec_panics_def Let_def block_bytes_def BLOCK_TRAILER_SIZE_def)

lemma read_block_contents_Panic_iff:
  "read_block_contents X (blocking_file_reader disk) h (checksum_type ft) (base_context_checksum ft) = Panic \<longleftrightarrow>
     huge_handle h \<or> codec_panics_at X disk ft h"
proof (cases "huge_handle h")
  case True
  then show ?thesis
    by (auto simp: huge_handle_def read_block_contents_def block_read_len_def usize_add_def
        blocking_file_reader_def blocking_read_at_def)
next
  case False
  let ?len = "unat (handle_size h) + BLOCK_TRAILER_SIZE"
  have len: "?len < 2 ^ 63" using False by (simp add: huge_handle_def)
  then have "\<not> ?len \<ge> 2 ^ 64" by simp
  then have dec: "decode_block_contents X raw h ct bcc = Panic \<longleftrightarrow> block_codec_panics X raw h ct bcc" for raw ct bcc
    using decode_block_Panic_iff by blast
  have fits: "unat (handle_offset h) + ?len \<le> length disk" if "codec_panics_at X disk ft h"
    using that block_codec_panics_in_file by (simp add: codec_panics_at_def)
  show ?thesis
    using False len fits
    by (auto simp: read_block_contents_def block_read_len_def usize_add_def dec ok_or_not_Panic
        blocking_file_reader_def blocking_read_at_def obind_eq_Panic_iff codec_panics_at_def block_bytes_def
        BLOCK_TRAILER_SIZE_def)
qed

lemma for_each_entry_not_Panic: "parse_block cs = Ok b \<Longrightarrow> snd (for_each_entry b f st) \<noteq> Panic"
  using parse_block_data entry_loop_not_Panic by (fastforce simp: for_each_entry_def)

lemma find_meta_handle_not_Panic: "parse_block cs = Ok b \<Longrightarrow> sst_find_meta_handle b name \<noteq> Panic"
  using for_each_entry_not_Panic by (simp add: sst_find_meta_handle_def walked_def obind_eq_Panic_iff)

lemma read_footer_Panic_iff:
  assumes "length disk < 2 ^ 63"
  shows "read_footer X (blocking_file_reader disk) = Panic \<longleftrightarrow>
    FOOTER_TAIL_LEN \<le> length disk \<and>
    footer_overflows X (drop (length disk - FOOTER_TAIL_LEN) disk) (of_nat (length disk))"
proof (cases "FOOTER_TAIL_LEN \<le> length disk")
  case True
  let ?fs = "of_nat (length disk) :: u64"
  have fs: "unat ?fs = length disk" using assms by (intro unat_of_nat_u64) simp
  have "(53 :: u64) \<le> ?fs" using True fs by (simp add: word_le_nat_alt FOOTER_TAIL_LEN_def NEW_VERSIONS_ENCODED_LEN_def)
  then have "u64_sub ?fs 53 = Ok (?fs - 53)" "unat (?fs - 53) = length disk - 53"
    using fs by (simp_all add: u64_sub_def unat_sub)
  then show ?thesis
    using True fs
    by (simp add: read_footer_def blocking_file_reader_def blocking_read_at_def decode_footer_Panic_iff
        FOOTER_TAIL_LEN_def NEW_VERSIONS_ENCODED_LEN_def)
next
  case False
  then show ?thesis
    using assms unat_of_nat_u64[of "length disk"] by (simp add: read_footer_def blocking_file_reader_def)
qed

section \<open>Properties\<close>

text \<open>
  C12. Table files round-trip: for every choice of options, hash functions and entries that fit a file
  below 4 GiB, \<open>build_sst\<close> returns a file without a panic, and a \<open>SstReader\<close> opened on that file
  visits exactly the entries, in order (with the sequence numbers zeroed when the options ask for an
  ingestible file).
\<close>

theorem sst_roundtrip:
  assumes "rewritten_entries opts es = Ok es'" and "sst_size_bound opts es' < 2 ^ 32"
  shows "\<exists>disk self. build_sst X opts es = Ok disk \<and>
           sst_reader_open X (blocking_file_reader disk) = Ok self \<and>
           sst_reader_for_each_entry X self f st = (feed f st es', Ok ())"
proof -
  obtain disk hs bss where d: "build_sst X opts es = Ok disk" "concat bss = es'" "length disk < 2 ^ 32"
      "sst_layout X (opt_checksum_type opts) (opt_base_context_checksum opts) disk hs bss"
    using build_sst_laid_out[OF assms] by blast
  from bfr.for_each_laid_out[OF d(4,3), of f st] d(1,2) show ?thesis by blast
qed

lemma default_options_small:
  "rewritten_entries sst_builder_options_default es = Ok es"
  "sst_size_bound sst_builder_options_default es = 66 * length es + 2 * entries_size es + 1233"
  by (simp_all add: rewritten_entries_def sst_builder_options_default_def sst_size_bound_def
        BYTEWISE_COMPARATOR_NAME_def as_bytes_def)

theorem sst_roundtrip_witness:
  "\<exists>disk self. build_sst example_ext sst_builder_options_default
       [([97, 1, 5, 0, 0, 0, 0, 0, 0], [1]), ([98, 0, 9, 0, 0, 0, 0, 0, 0], [])] = Ok disk \<and>
     sst_reader_open example_ext (blocking_file_reader disk) = Ok self \<and>
     sst_reader_for_each_entry example_ext self (\<lambda>st k v. st @ [(k, v)]) [] =
       (feed (\<lambda>st k v. st @ [(k, v)]) []
          [([97, 1, 5, 0, 0, 0, 0, 0, 0], [1]), ([98, 0, 9, 0, 0, 0, 0, 0, 0], [])], Ok ())"
  by (rule sst_roundtrip) (simp_all add: default_options_small)

text \<open>
  C37. The properties of a written file are true: in the file that \<open>build_sst\<close> returns, the reader finds the
  properties block under its name, and the block holds, in strictly ascending order of the names, the
  number of entries, the bytes of all keys and of all values, the end of the data blocks, where the
  index block starts, the size of the index block, and what the options say.
\<close>

theorem sst_properties_recorded:
  assumes "rewritten_entries opts es = Ok es'" and "sst_size_bound opts es' < 2 ^ 32"
  shows "\<exists>disk self ih ph raw p ps. build_sst X opts es = Ok disk \<and>
           sst_reader_open X (blocking_file_reader disk) = Ok self \<and>
           sst_find_meta_handle (sr_metaindex self) INDEX_BLOCK_NAME = Ok (Some ih) \<and>
           sst_find_meta_handle (sr_metaindex self) PROPERTIES_BLOCK_NAME = Ok (Some ph) \<and>
           read_block_contents X (blocking_file_reader disk) ph (opt_checksum_type opts)
             (opt_base_context_checksum opts) = Ok raw \<and>
           parse_block raw = Ok p \<and> for_each_entry p (\<lambda>st k v. st @ [(k, v)]) [] = (ps, Ok ()) \<and>
           sorted_wrt (<) (map fst ps) \<and>
           mset ps = mset (property_entries
             \<lparr>p_num_entries = of_nat (length es'),
              p_raw_key_size = of_nat (sum_list (map (\<lambda>e. length (fst e)) es')),
              p_raw_value_size = of_nat (sum_list (map (\<lambda>e. length (snd e)) es')),
              p_data_size = handle_offset ih, p_index_size = handle_size ih,
              p_comparator_name = opt_comparator_name opts, p_column_family_id = opt_column_family_id opts,
              p_column_family_name = opt_column_family_name opts,
              p_external_sst_global_seqno = opt_external_sst_global_seqno opts\<rparr>)"
proof -
  obtain disk hs bss ih0 where d: "build_sst X opts es = Ok disk" "length disk < 2 ^ 32"
      "sst_layout X (opt_checksum_type opts) (opt_base_context_checksum opts) disk hs bss"
      "sst_tail X (opt_checksum_type opts) (opt_base_context_checksum opts) disk hs (file_properties opts es' ih0)"
    using build_sst_laid_out[OF assms] by blast
  have "FOOTER_TAIL_LEN \<le> length disk" using d(3) by (simp add: sst_layout_def)
  from bfr.properties_laid_out[OF d(4) this d(2)] d(1) show ?thesis
    by (fastforce simp: file_properties_def key_bytes_def value_bytes_def)
qed

theorem sst_properties_recorded_witness:
  "\<exists>disk self ph. build_sst example_ext sst_builder_options_default [([97, 1, 5, 0, 0, 0, 0, 0, 0], [1])] = Ok disk \<and>
     sst_reader_open example_ext (blocking_file_reader disk) = Ok self \<and>
     sst_find_meta_handle (sr_metaindex self) PROPERTIES_BLOCK_NAME = Ok (Some ph)"
  using sst_properties_recorded[of sst_builder_options_default "[([97, 1, 5, 0, 0, 0, 0, 0, 0], [1])]"
      "[([97, 1, 5, 0, 0, 0, 0, 0, 0], [1])]" example_ext]
  unfolding default_options_small by auto

text \<open>
  The index of a written file points at the data: a block's separator is the last key in the
  block, every entry is in the block of exactly one index entry, and each handle is the place of a
  block that decodes to its entries.
\<close>

theorem sst_index_separators:
  assumes "rewritten_entries opts es = Ok es'" and "sst_size_bound opts es' < 2 ^ 32"
  shows "\<exists>disk hs bss. build_sst X opts es = Ok disk \<and> concat bss = es' \<and> length hs = length bss \<and>
           (\<forall>i < length bss. bss ! i \<noteq> [] \<and> fst (hs ! i) = fst (last (bss ! i)) \<and>
              (\<exists>raw p. read_block_contents X (blocking_file_reader disk) (snd (hs ! i))
                         (opt_checksum_type opts) (opt_base_context_checksum opts) = Ok raw \<and>
                       parse_block raw = Ok p \<and> for_each_entry p f st = (feed f st (bss ! i), Ok ())))"
proof -
  obtain disk hs bss where d: "build_sst X opts es = Ok disk" "concat bss = es'" "length disk < 2 ^ 32"
      "sst_layout X (opt_checksum_type opts) (opt_base_context_checksum opts) disk hs bss"
    using build_sst_laid_out[OF assms] by blast
  let ?at = "data_block_at X (opt_checksum_type opts) (opt_base_context_checksum opts) disk"
  have all2: "list_all2 ?at hs bss" using d(4) by (simp add: sst_layout_def)
  have "bss ! i \<noteq> [] \<and> fst (hs ! i) = fst (last (bss ! i)) \<and>
      (\<exists>raw p. read_block_contents X (blocking_file_reader disk) (snd (hs ! i))
                 (opt_checksum_type opts) (opt_base_context_checksum opts) = Ok raw \<and>
               parse_block raw = Ok p \<and> for_each_entry p f st = (feed f st (bss ! i), Ok ()))"
    if "i < length bss" for i
  proof -
    have at: "?at (hs ! i) (bss ! i)" using all2 that by (simp add: list_all2_nthD2)
    from data_block_at_walk[OF at d(3), of f st] at show ?thesis
      using bfr.read_block_at d(3) unfolding data_block_at_def by blast
  qed
  with d(1,2) list_all2_lengthD[OF all2] show ?thesis by blast
qed

theorem sst_index_separators_witness:
  "\<exists>disk hs bss. build_sst example_ext sst_builder_options_default [([97, 1, 5, 0, 0, 0, 0, 0, 0], [1])] = Ok disk \<and>
     concat bss = [([97, 1, 5, 0, 0, 0, 0, 0, 0], [1])] \<and>
     length (hs :: (bytes \<times> BlockHandle) list) = length (bss :: entry list list)"
  using sst_index_separators[of sst_builder_options_default "[([97, 1, 5, 0, 0, 0, 0, 0, 0], [1])]"
      "[([97, 1, 5, 0, 0, 0, 0, 0, 0], [1])]" example_ext "\<lambda>st k v. ()" "()"]
  unfolding default_options_small by auto

text \<open>
  On a file that is too short for a footer the reader returns an error.
\<close>

theorem sst_reader_open_short:
  assumes "length disk < FOOTER_TAIL_LEN"
  shows "sst_reader_open X (blocking_file_reader disk) = Err (Msg ''file too short to contain a footer'')"
proof -
  have "length disk < 2 ^ 64"
    using assms by (simp add: FOOTER_TAIL_LEN_def NEW_VERSIONS_ENCODED_LEN_def)
  then have "unat (file_size (blocking_file_reader disk)) = length disk"
    by (simp add: blocking_file_reader_def unat_of_nat_u64)
  with assms show ?thesis by (simp add: sst_reader_open_def read_footer_def)
qed

theorem sst_reader_open_short_witness:
  "sst_reader_open example_ext (blocking_file_reader [1, 2, 3]) =
     Err (Msg ''file too short to contain a footer'')"
  by (rule sst_reader_open_short) (simp add: FOOTER_TAIL_LEN_def NEW_VERSIONS_ENCODED_LEN_def)

text \<open>
  C24. The only files that opening a table panics on, whatever their bytes: those whose footer passes its
  checks but announces a metaindex block that does not fit in front of it, those in which the handle
  of the metaindex or of the index block announces a block longer than any allocation, and those in
  which one of these two blocks passes its checks and its decompressor panics, for instance on the
  size that the block announces for its contents. Every other file opens or is refused with an error.
\<close>

theorem sst_reader_open_panics:
  assumes "length disk < 2 ^ 63"
  defines "reader \<equiv> blocking_file_reader disk"
  shows "sst_reader_open X reader = Panic \<longleftrightarrow>
    FOOTER_TAIL_LEN \<le> length disk \<and>
      footer_overflows X (drop (length disk - FOOTER_TAIL_LEN) disk) (of_nat (length disk)) \<or>
    (\<exists>ft. read_footer X reader = Ok ft \<and>
       (huge_handle (metaindex_handle ft) \<or> codec_panics_at X disk ft (metaindex_handle ft) \<or>
        (\<exists>raw metaindex ih.
           read_block_contents X reader (metaindex_handle ft) (checksum_type ft) (base_context_checksum ft) = Ok raw \<and>
           parse_block raw = Ok metaindex \<and>
           (index_handle ft = Some ih \<or>
            index_handle ft = None \<and> sst_find_meta_handle metaindex INDEX_BLOCK_META_KEY = Ok (Some ih)) \<and>
           (huge_handle ih \<or> codec_panics_at X disk ft ih))))"
proof -
  define pick where "pick ft mi = (case index_handle ft of Some h \<Rightarrow> Ok h
      | None \<Rightarrow> obind (sst_find_meta_handle mi INDEX_BLOCK_META_KEY) (\<lambda>found.
          ok_or found (Msg ''index block handle missing from metaindex'')))" for ft :: Footer and mi :: ParsedBlock
  have ih: "pick ft mi = Ok h \<longleftrightarrow> index_handle ft = Some h \<or>
      index_handle ft = None \<and> sst_find_meta_handle mi INDEX_BLOCK_META_KEY = Ok (Some h)" for ft mi h
    by (auto simp: pick_def split: option.splits)
  have ih': "pick ft mi \<noteq> Panic" if "parse_block raw = Ok mi" for ft mi raw
    using find_meta_handle_not_Panic[OF that] by (auto simp: pick_def obind_eq_Panic_iff split: option.splits)
  have opened: "sst_reader_open X reader =
     obind (read_footer X reader) (\<lambda>ft.
     obind (read_block_contents X reader (metaindex_handle ft) (checksum_type ft) (base_context_checksum ft)) (\<lambda>raw.
     obind (parse_block raw) (\<lambda>metaindex. obind (pick ft metaindex) (\<lambda>ih.
     obind (read_block_contents X reader ih (checksum_type ft) (base_context_checksum ft)) (\<lambda>index_raw.
     obind (parse_block index_raw) (\<lambda>index.
     Ok \<lparr>sr_reader = reader, sr_footer = ft, sr_metaindex = metaindex, sr_index = index\<rparr>))))))"
    by (simp add: sst_reader_open_def pick_def)
  show ?thesis
    unfolding opened obind_eq_Panic_iff
    unfolding reader_def read_footer_Panic_iff[OF assms(1)] read_block_contents_Panic_iff ih
    using ih' by (simp only: parse_block_not_Panic outcome.distinct simp_thms) blast
qed

text \<open>A file whose metaindex block is compressed with LZ4 and announces contents of \<open>2 ^ 63\<close> bytes.\<close>

definition codec_panic_file :: bytes where
  "codec_panic_file =
     [128, 128, 128, 128, 128, 128, 128, 128, 128, 1] @ [4, 0, 0, 0, 0] @ footer_bytes NoChecksum 0 0 10 7"

lemma codec_panic_file_tail:
  "length codec_panic_file = 68"
  "drop (length codec_panic_file - FOOTER_TAIL_LEN) codec_panic_file = footer_bytes NoChecksum 0 0 10 7"
  by (simp_all add: codec_panic_file_def FOOTER_TAIL_LEN_def NEW_VERSIONS_ENCODED_LEN_def)

lemma codec_panic_file_footer:
  "decode_footer X (footer_bytes NoChecksum 0 0 10 7) 68 =
     Ok \<lparr>table_magic_number = BLOCK_BASED_TABLE_MAGIC, format_version = 7, checksum_type = NoChecksum,
         metaindex_handle = \<lparr>handle_offset = 0, handle_size = 10\<rparr>, index_handle = None,
         block_trailer_size = 5, base_context_checksum = 0\<rparr>"
  by code_simp

lemma codec_panic_file_panics:
  assumes "checksum_type ft = NoChecksum"
  shows "codec_panics_at allocating_ext codec_panic_file ft \<lparr>handle_offset = 0, handle_size = 10\<rparr>"
proof -
  have "get_varint64 [128, 128, 128, 128, 128, 128, 128, 128, 128, 1] 0 = (Some 0x8000000000000000, 10)"
    by code_simp
  then show ?thesis
    using assms by (simp add: codec_panics_at_def block_bytes_def codec_panic_file_def block_codec_panics_def
        codec_panics_def BLOCK_TRAILER_SIZE_def allocating_ext_def)
qed

theorem sst_reader_open_panics_witness:
  "sst_reader_open allocating_ext (blocking_file_reader codec_panic_file) = Panic \<and>
   sst_reader_open allocating_ext (blocking_file_reader (footer_bytes NoChecksum 0 0 10 7)) = Panic \<and>
   sst_reader_open allocating_ext (blocking_file_reader [1, 2, 3]) \<noteq> Panic"
proof (intro conjI)
  let ?tail = "footer_bytes NoChecksum 0 0 10 7"
  have "read_footer allocating_ext (blocking_file_reader codec_panic_file) = decode_footer allocating_ext ?tail 68"
    using codec_panic_file_tail
    by (simp add: read_footer_def blocking_file_reader_def blocking_read_at_def u64_sub_def FOOTER_TAIL_LEN_def
        NEW_VERSIONS_ENCODED_LEN_def)
  then show "sst_reader_open allocating_ext (blocking_file_reader codec_panic_file) = Panic"
    using sst_reader_open_panics[of codec_panic_file allocating_ext] codec_panic_file_panics
    by (simp add: codec_panic_file_tail codec_panic_file_footer)
  have "decode_footer X ?tail 53 = Panic" for X by code_simp
  then show "sst_reader_open allocating_ext (blocking_file_reader ?tail) = Panic"
    using sst_reader_open_panics[of ?tail allocating_ext]
    by (simp add: decode_footer_Panic_iff FOOTER_TAIL_LEN_def NEW_VERSIONS_ENCODED_LEN_def)
  show "sst_reader_open allocating_ext (blocking_file_reader [1, 2, 3]) \<noteq> Panic"
    using sst_reader_open_panics[of "[1, 2, 3]" allocating_ext]
    by (simp add: FOOTER_TAIL_LEN_def NEW_VERSIONS_ENCODED_LEN_def read_footer_def blocking_file_reader_def)
qed

end
