(* ===== verification/Key_Comparator.thy ===== *)
theory Key_Comparator
  imports Internal_Key "HOL-Library.Product_Lexorder"
begin

unbundle bit_operations_syntax

text \<open>
  The comparators of \<^verbatim>\<open>merge/cmp.rs\<close> and the comparison of \<^verbatim>\<open>merge/merger.rs\<close> that the mergers
  call. The trait \<open>KeyComparator\<close> is the record \<open>comparator\<close>, its two implementations are the
  values \<open>InternalKeyComparator\<close> and \<open>BytewiseComparator\<close>. Comparing internal keys splits off an
  eight byte suffix and panics on a shorter key.

  The contract of a comparator is the locale \<open>key_comparator\<close>: on its valid keys it is the
  comparison of a rank in a linear order.
\<close>

section \<open>Model\<close>

record comparator =
  compare :: "bytes \<Rightarrow> bytes \<Rightarrow> ordering outcome"
  has_sort_prefix :: bool
  sort_prefix :: "bytes \<Rightarrow> u64"

definition SUFFIX_LEN :: nat where
  "SUFFIX_LEN = 8"

definition cmp_split :: "bytes \<Rightarrow> (bytes \<times> bytes) outcome" where
  "cmp_split key =
     obind (usize_sub (length key) SUFFIX_LEN) (\<lambda>at.
     Ok (take at key, drop at key))"

definition cmp_user_key :: "bytes \<Rightarrow> bytes outcome" where
  "cmp_user_key internal_key = obind (cmp_split internal_key) (\<lambda>p. Ok (fst p))"

definition load_be_prefix :: "bytes \<Rightarrow> u64" where
  "load_be_prefix key =
     (let n = min (length key) 8
      in from_be_bytes (take n key @ replicate (8 - n) 0))"

definition internal_key_compare :: "bytes \<Rightarrow> bytes \<Rightarrow> ordering outcome" where
  "internal_key_compare a b =
     obind (cmp_split a) (\<lambda>(a_user, a_suffix).
     obind (cmp_split b) (\<lambda>(b_user, b_suffix).
     Ok (case bytes_cmp a_user b_user of
           Equal \<Rightarrow>
             (let a_packed = from_le_bytes a_suffix;
                  b_packed = from_le_bytes b_suffix
              in u64_cmp b_packed a_packed)
         | other \<Rightarrow> other)))"

definition InternalKeyComparator :: comparator where
  "InternalKeyComparator =
     \<lparr>compare = internal_key_compare, has_sort_prefix = False, sort_prefix = (\<lambda>_. 0)\<rparr>"

definition BytewiseComparator :: comparator where
  "BytewiseComparator =
     \<lparr>compare = (\<lambda>a b. Ok (bytes_cmp a b)), has_sort_prefix = False, sort_prefix = load_be_prefix\<rparr>"

definition compare_internal_keys :: "bytes \<Rightarrow> bytes \<Rightarrow> ordering outcome" where
  "compare_internal_keys a b = compare InternalKeyComparator a b"

definition compare_user_keys :: "bytes \<Rightarrow> bytes \<Rightarrow> ordering outcome" where
  "compare_user_keys a b =
     obind (cmp_user_key a) (\<lambda>ua.
     obind (cmp_user_key b) (\<lambda>ub.
     Ok (bytes_cmp ua ub)))"

definition compare_with_prefix :: "comparator \<Rightarrow> bytes \<Rightarrow> bytes \<Rightarrow> ordering outcome" where
  "compare_with_prefix C a b =
     (if has_sort_prefix C then
        (let by_prefix = u64_cmp (sort_prefix C a) (sort_prefix C b)
         in if by_prefix \<noteq> Equal then Ok by_prefix else compare C a b)
      else compare C a b)"

section \<open>The contract\<close>

text \<open>Three-way comparison in a linear order, and the rank that orders internal keys.\<close>

definition cmp_of :: "'r::linorder \<Rightarrow> 'r \<Rightarrow> ordering" where
  "cmp_of x y = (if x < y then Less else if y < x then Greater else Equal)"

lemma cmp_of_simps [simp]:
  "cmp_of x y = Less \<longleftrightarrow> x < y" "cmp_of x y = Greater \<longleftrightarrow> y < x" "cmp_of x y = Equal \<longleftrightarrow> x = y"
  by (auto simp: cmp_of_def)

lemma bytes_cmp_cmp_of: "bytes_cmp a b = cmp_of a b"
  by (cases "bytes_cmp a b") (auto simp: cmp_of_def)

lemma u64_cmp_cmp_of: "u64_cmp a b = cmp_of a b"
  by (simp add: u64_cmp_def cmp_of_def)

definition ikrank :: "bytes \<Rightarrow> bytes \<times> int" where
  "ikrank k = (ukey k, - uint (packed k))"

locale key_comparator =
  fixes C :: comparator
    and valid :: "bytes \<Rightarrow> bool"
    and rank :: "bytes \<Rightarrow> 'r::linorder"
  assumes compare_rank: "valid a \<Longrightarrow> valid b \<Longrightarrow> compare C a b = Ok (cmp_of (rank a) (rank b))"
    and rank_inject: "valid a \<Longrightarrow> valid b \<Longrightarrow> rank a = rank b \<Longrightarrow> a = b"
    and prefix_law:
      "has_sort_prefix C \<Longrightarrow> valid a \<Longrightarrow> valid b \<Longrightarrow> sort_prefix C a \<noteq> sort_prefix C b \<Longrightarrow>
         u64_cmp (sort_prefix C a) (sort_prefix C b) = cmp_of (rank a) (rank b)"
begin

lemma compare_with_prefix_rank:
  assumes "valid a" and "valid b"
  shows "compare_with_prefix C a b = Ok (cmp_of (rank a) (rank b))"
  using assms prefix_law by (auto simp: compare_with_prefix_def Let_def compare_rank)

lemma compare_refl: "valid a \<Longrightarrow> compare C a a = Ok Equal"
  by (simp add: compare_rank)

lemma compare_Equal_iff: "valid a \<Longrightarrow> valid b \<Longrightarrow> compare C a b = Ok Equal \<longleftrightarrow> a = b"
  using rank_inject by (auto simp: compare_rank)

lemma compare_swap: "valid a \<Longrightarrow> valid b \<Longrightarrow> compare C a b = Ok Greater \<longleftrightarrow> compare C b a = Ok Less"
  by (simp add: compare_rank)

lemma compare_trans:
  "valid a \<Longrightarrow> valid b \<Longrightarrow> valid c \<Longrightarrow> compare C a b = Ok Less \<Longrightarrow> compare C b c = Ok Less \<Longrightarrow>
     compare C a c = Ok Less"
  by (simp add: compare_rank)

end

section \<open>The comparators keep it\<close>

lemma cmp_split_valid [simp]: "valid_key k \<Longrightarrow> cmp_split k = Ok (ukey k, drop (length k - 8) k)"
  by (simp add: cmp_split_def SUFFIX_LEN_def ukey_def)

lemma cmp_split_short [simp]: "\<not> valid_key k \<Longrightarrow> cmp_split k = Panic"
  by (simp add: cmp_split_def SUFFIX_LEN_def usize_sub_def)

lemma internal_key_compare_valid:
  assumes "valid_key a" and "valid_key b"
  shows "internal_key_compare a b = Ok (cmp_of (ikrank a) (ikrank b))"
  using assms
  by (auto simp: internal_key_compare_def ikrank_def packed_def bytes_cmp_cmp_of u64_cmp_cmp_of
        cmp_of_def word_less_def split: ordering.splits)

lemma ikrank_inject:
  assumes "valid_key a" and "valid_key b" and "ikrank a = ikrank b"
  shows "a = b"
  using assms by (auto simp: key_eq_iff ikrank_def word_uint_eq_iff)

interpretation ikc: key_comparator InternalKeyComparator valid_key ikrank
  by unfold_locales
     (auto simp: InternalKeyComparator_def internal_key_compare_valid intro: ikrank_inject)

interpretation bwc: key_comparator BytewiseComparator "\<lambda>_. True" "\<lambda>k. k"
  by unfold_locales (auto simp: BytewiseComparator_def bytes_cmp_cmp_of)

lemma compare_user_keys_valid [simp]:
  "valid_key a \<Longrightarrow> valid_key b \<Longrightarrow> compare_user_keys a b = Ok (cmp_of (ukey a) (ukey b))"
  by (simp add: compare_user_keys_def cmp_user_key_def bytes_cmp_cmp_of)

lemma ikrank_less:
  "ikrank a < ikrank b \<longleftrightarrow> ukey a < ukey b \<or> ukey a = ukey b \<and> packed b < packed a"
  by (auto simp: ikrank_def word_less_def)

lemma ikrank_le:
  "ikrank a \<le> ikrank b \<longleftrightarrow> ukey a < ukey b \<or> ukey a = ukey b \<and> packed b \<le> packed a"
  by (auto simp: ikrank_def word_le_def)

section \<open>The big-endian prefix\<close>

text \<open>The number that a big-endian byte string denotes, and that it orders equally long strings.\<close>

primrec le_val :: "bytes \<Rightarrow> nat" where
  "le_val [] = 0"
| "le_val (b # bs) = unat b + 256 * le_val bs"

primrec be_val :: "bytes \<Rightarrow> nat" where
  "be_val [] = 0"
| "be_val (b # bs) = unat b * 256 ^ length bs + be_val bs"

lemma unat_u8_less: "unat (b :: u8) < 256"
  using unsigned_less[of b, where ?'a = nat] by simp

lemma le_val_less: "le_val bs < 256 ^ length bs"
proof (induction bs)
  case (Cons b bs)
  then show ?case using unat_u8_less[of b] by simp
qed simp

lemma be_val_less: "be_val bs < 256 ^ length bs"
proof (induction bs)
  case (Cons b bs)
  have "unat b * 256 ^ length bs + be_val bs < Suc (unat b) * 256 ^ length bs"
    using Cons.IH by simp
  also have "\<dots> \<le> 256 * 256 ^ length bs"
    using unat_u8_less[of b] by (intro mult_right_mono) auto
  finally show ?case by simp
qed simp

lemma le_val_snoc: "le_val (bs @ [b]) = le_val bs + 256 ^ length bs * unat b"
  by (induction bs) (simp_all add: algebra_simps)

lemma be_val_rev: "be_val bs = le_val (rev bs)"
  by (induction bs) (simp_all add: le_val_snoc)

lemma unat_from_le_bytes: "length bs \<le> 8 \<Longrightarrow> unat (from_le_bytes bs :: u64) = le_val bs"
proof (induction bs)
  case (Cons b bs)
  let ?r = "from_le_bytes bs :: u64"
  have r: "unat ?r = le_val bs" using Cons by simp
  have "le_val (b # bs) < 256 ^ length (b # bs)" by (rule le_val_less)
  also have "(256 :: nat) ^ length (b # bs) \<le> 256 ^ 8"
    using Cons.prems by (intro power_increasing) auto
  finally have small: "unat b + 256 * unat ?r < 2 ^ 64" using r by simp
  have "(ucast b :: u64) AND push_bit 8 ?r = 0"
    by (rule bit_word_eqI) (auto simp: bit_simps dest: bit_imp_le_length)
  then have "from_le_bytes (b # bs) = (ucast b :: u64) + push_bit 8 ?r"
    by (simp add: disjunctive_add_eq_or)
  moreover have "unat (ucast b :: u64) = unat b"
    using unat_u8_less[of b] by (simp add: unsigned_ucast_eq take_bit_nat_eq_self)
  moreover have "unat (push_bit 8 ?r) = 256 * unat ?r"
    using small by (simp add: push_bit_eq_mult unat_word_ariths mult.commute)
  ultimately show ?case
    using small r by (simp add: unat_word_ariths)
qed simp

lemma be_val_less_iff: "length xs = length ys \<Longrightarrow> be_val xs < be_val ys \<longleftrightarrow> xs < ys"
proof (induction xs ys rule: list_induct2)
  case (Cons x xs y ys)
  consider "unat x < unat y" | "unat y < unat x" | "x = y"
    by (metis linorder_neqE_nat word_unat_eq_iff)
  then show ?case
  proof cases
    case 1
    have "be_val (x # xs) < Suc (unat x) * 256 ^ length xs"
      using be_val_less[of xs] by simp
    also have "\<dots> \<le> unat y * 256 ^ length xs"
      using 1 by (intro mult_right_mono) auto
    finally show ?thesis using 1 Cons.hyps by (simp add: word_less_nat_alt)
  next
    case 2
    have "be_val (y # ys) < Suc (unat y) * 256 ^ length ys"
      using be_val_less[of ys] by simp
    also have "\<dots> \<le> unat x * 256 ^ length ys"
      using 2 by (intro mult_right_mono) auto
    finally show ?thesis using 2 Cons.hyps by (auto simp: word_less_nat_alt)
  next
    case 3
    with Cons show ?thesis by simp
  qed
qed simp

definition pad :: "nat \<Rightarrow> bytes \<Rightarrow> bytes" where
  "pad n k = take n k @ replicate (n - length k) 0"

lemma pad_simps [simp]:
  "pad 0 k = []" "pad (Suc n) [] = 0 # pad n []" "pad (Suc n) (b # k) = b # pad n k"
  by (simp_all add: pad_def)

lemma length_pad [simp]: "length (pad n k) = n"
  by (simp add: pad_def)

lemma pad_less: "pad n a < pad n b \<Longrightarrow> a < b"
proof (induction n arbitrary: a b)
  case (Suc n)
  show ?case
  proof (cases a; cases b)
    fix x xs assume "a = x # xs" and "b = []"
    with Suc.prems Suc.IH[of xs "[]"] show "a < b" by auto
  qed (use Suc in auto)
qed simp

lemma load_be_prefix_val: "unat (load_be_prefix k) = be_val (pad 8 k)"
proof -
  have "load_be_prefix k = from_le_bytes (rev (pad 8 k))"
    by (simp add: load_be_prefix_def from_be_bytes_def pad_def Let_def min_def)
  moreover have "length (rev (pad 8 k)) \<le> 8"
    by simp
  ultimately show ?thesis by (simp add: unat_from_le_bytes be_val_rev)
qed

lemma load_be_prefix_less: "load_be_prefix a < load_be_prefix b \<Longrightarrow> a < b"
  by (rule pad_less[of 8]) (simp add: word_less_nat_alt load_be_prefix_val be_val_less_iff)

section \<open>Properties\<close>

text \<open>
  C29. On keys with a suffix the internal-key comparator is the order by user key, ascending, then
  by the packed sequence and type, descending; only equal keys compare equal; and the comparison
  the mergers use, with its optional prefix test, is the same function.
\<close>

theorem internal_key_order:
  assumes "valid_key a" and "valid_key b"
  shows "(internal_key_compare a b = Ok Less \<longleftrightarrow>
            ukey a < ukey b \<or> ukey a = ukey b \<and> packed b < packed a) \<and>
         (internal_key_compare a b = Ok Equal \<longleftrightarrow> a = b) \<and>
         (internal_key_compare a b = Ok Greater \<longleftrightarrow> internal_key_compare b a = Ok Less) \<and>
         compare_with_prefix InternalKeyComparator a b = internal_key_compare a b"
proof (intro conjI)
  have c: "internal_key_compare a b = compare InternalKeyComparator a b"
    "internal_key_compare b a = compare InternalKeyComparator b a"
    by (simp_all add: InternalKeyComparator_def)
  show "internal_key_compare a b = Ok Less \<longleftrightarrow>
      ukey a < ukey b \<or> ukey a = ukey b \<and> packed b < packed a"
    using assms by (simp add: internal_key_compare_valid cmp_of_def ikrank_less)
  show "internal_key_compare a b = Ok Equal \<longleftrightarrow> a = b"
    unfolding c using assms by (rule ikc.compare_Equal_iff)
  show "internal_key_compare a b = Ok Greater \<longleftrightarrow> internal_key_compare b a = Ok Less"
    unfolding c using assms by (rule ikc.compare_swap)
  show "compare_with_prefix InternalKeyComparator a b = internal_key_compare a b"
    using ikc.compare_with_prefix_rank[OF assms] ikc.compare_rank[OF assms] c by simp
qed

theorem internal_key_order_witness:
  "internal_key_compare (make_internal_key [97] 5 1) (make_internal_key [97] 3 1) = Ok Less \<and>
   compare_with_prefix InternalKeyComparator (make_internal_key [97] 5 1) (make_internal_key [97] 3 1) =
     internal_key_compare (make_internal_key [97] 5 1) (make_internal_key [97] 3 1)"
  using internal_key_order[of "make_internal_key [97] 5 1" "make_internal_key [97] 3 1"] by simp

text \<open>
  C30. The contract of \<open>sort_prefix\<close>: where the eight-byte big-endian prefixes of two keys differ,
  they order the keys as the bytewise comparator does.
\<close>

theorem sort_prefix_contract:
  assumes "sort_prefix BytewiseComparator a \<noteq> sort_prefix BytewiseComparator b"
  shows "compare BytewiseComparator a b =
           Ok (u64_cmp (sort_prefix BytewiseComparator a) (sort_prefix BytewiseComparator b))"
  using assms load_be_prefix_less[of a b] load_be_prefix_less[of b a]
  by (auto simp: BytewiseComparator_def bytes_cmp_cmp_of u64_cmp_cmp_of cmp_of_def)

theorem sort_prefix_contract_witness:
  "compare BytewiseComparator [97, 98] [97, 99] =
     Ok (u64_cmp (sort_prefix BytewiseComparator [97, 98]) (sort_prefix BytewiseComparator [97, 99]))"
  by (rule sort_prefix_contract) code_simp

text \<open>
  A key without room for the eight-byte suffix makes the internal-key comparator panic, on
  either side.
\<close>

theorem internal_key_compare_short:
  assumes "\<not> valid_key a \<or> \<not> valid_key b"
  shows "internal_key_compare a b = Panic"
  using assms by (cases "valid_key a") (auto simp: internal_key_compare_def)

theorem internal_key_compare_short_witness:
  "internal_key_compare [1, 2, 3] (make_internal_key [97] 1 1) = Panic"
  by (rule internal_key_compare_short) simp

end
