(* ===== verification/Merge_Source.thy ===== *)
theory Merge_Source
  imports Key_Comparator
begin

text \<open>
  The inputs of a merge (\<^verbatim>\<open>merge/source.rs\<close>). The trait \<open>MergeSource\<close> is the record \<open>source_ops\<close>
  of its two operations. \<open>VecSource\<close> holds the entries themselves, \<open>ArenaSource\<close> one byte arena
  with the spans of the entries in it; offsets and lengths in a span are \<open>u32\<close>, cut off by the
  casts of \<open>ArenaSourceBuilder::push\<close> when the arena outgrows 4 GiB. The reference-counted arena and
  spans are never written after \<open>build\<close>, so a clone of the pointer is a copy of the value.

  The contract of a source is the locale \<open>merge_source\<close>: the entries still to come are a list,
  \<open>peek\<close> shows its head and \<open>advance\<close> drops it.
\<close>

section \<open>Model\<close>

record 's source_ops =
  peek :: "'s \<Rightarrow> entry option outcome"
  advance :: "'s \<Rightarrow> 's"

record VecSource =
  vec_entries :: "entry list"
  vec_pos :: nat

definition vec_source_new :: "entry list \<Rightarrow> VecSource" where
  "vec_source_new entries = \<lparr>vec_entries = entries, vec_pos = 0\<rparr>"

definition vec_source_peek :: "VecSource \<Rightarrow> entry option outcome" where
  "vec_source_peek s =
     Ok (if vec_pos s < length (vec_entries s) then Some (vec_entries s ! vec_pos s) else None)"

definition vec_source_advance :: "VecSource \<Rightarrow> VecSource" where
  "vec_source_advance s = s\<lparr>vec_pos := vec_pos s + 1\<rparr>"

definition vec_source_ops :: "VecSource source_ops" where
  "vec_source_ops = \<lparr>peek = vec_source_peek, advance = vec_source_advance\<rparr>"

record EntrySpan =
  key_off :: u32
  key_len :: u32
  val_off :: u32
  val_len :: u32

record ArenaSource =
  arena :: bytes
  spans :: "EntrySpan list"
  arena_pos :: nat
  arena_end :: nat

definition arena_key :: "ArenaSource \<Rightarrow> EntrySpan \<Rightarrow> bytes outcome" where
  "arena_key s span =
     obind (u32_add (key_off span) (key_len span)) (\<lambda>e.
     slice (arena s) (unat (key_off span)) (unat e))"

definition arena_val :: "ArenaSource \<Rightarrow> EntrySpan \<Rightarrow> bytes outcome" where
  "arena_val s span =
     obind (u32_add (val_off span) (val_len span)) (\<lambda>e.
     slice (arena s) (unat (val_off span)) (unat e))"

definition arena_source_len :: "ArenaSource \<Rightarrow> nat outcome" where
  "arena_source_len s = usize_sub (arena_end s) (min (arena_pos s) (arena_end s))"

definition arena_source_shard :: "ArenaSource \<Rightarrow> nat \<Rightarrow> nat \<Rightarrow> ArenaSource outcome" where
  "arena_source_shard s start end_idx =
     obind (ensure (start \<le> end_idx \<and> end_idx \<le> length (spans s))) (\<lambda>_.
     Ok \<lparr>arena = arena s, spans = spans s, arena_pos = start, arena_end = end_idx\<rparr>)"

definition total_len :: "ArenaSource \<Rightarrow> nat" where
  "total_len s = length (spans s)"

definition key_at :: "ArenaSource \<Rightarrow> nat \<Rightarrow> bytes outcome" where
  "key_at s i = obind (vec_get (spans s) i) (arena_key s)"

text \<open>
  \<open>slice::partition_point\<close> of the standard library: the branch-free binary search that halves the
  remaining size. \<open>partition_search pred xs base sz\<close> is its loop.
\<close>

function partition_search ::
    "('a \<Rightarrow> bool outcome) \<Rightarrow> 'a list \<Rightarrow> nat \<Rightarrow> nat \<Rightarrow> nat outcome" where
  "partition_search pred xs base sz =
     (if sz > 1 then
        let half = sz div 2; mid = base + half
        in obind (vec_get xs mid) (\<lambda>x.
           obind (pred x) (\<lambda>less.
           partition_search pred xs (if less then mid else base) (sz - half)))
      else Ok base)"
  by pat_completeness auto
termination
  by (relation "measure (\<lambda>(pred, xs, base, sz). sz)") auto

declare partition_search.simps [simp del]

definition partition_point :: "('a \<Rightarrow> bool outcome) \<Rightarrow> 'a list \<Rightarrow> nat outcome" where
  "partition_point pred xs =
     (if length xs = 0 then Ok 0
      else obind (partition_search pred xs 0 (length xs)) (\<lambda>base.
           obind (vec_get xs base) (\<lambda>x.
           obind (pred x) (\<lambda>less.
           Ok (if less then base + 1 else base)))))"

definition lower_bound :: "ArenaSource \<Rightarrow> bytes \<Rightarrow> nat outcome" where
  "lower_bound s boundary_key =
     partition_point
       (\<lambda>span. obind (arena_key s span) (\<lambda>k.
               obind (compare_user_keys k boundary_key) (\<lambda>c. Ok (c = Less))))
       (spans s)"

definition arena_source_peek :: "ArenaSource \<Rightarrow> entry option outcome" where
  "arena_source_peek s =
     (if arena_pos s \<ge> arena_end s then Ok None
      else if arena_pos s < length (spans s) then
        let span = spans s ! arena_pos s
        in obind (arena_key s span) (\<lambda>k.
           obind (arena_val s span) (\<lambda>v.
           Ok (Some (k, v))))
      else Ok None)"

definition arena_source_advance :: "ArenaSource \<Rightarrow> ArenaSource" where
  "arena_source_advance s = s\<lparr>arena_pos := arena_pos s + 1\<rparr>"

definition arena_source_ops :: "ArenaSource source_ops" where
  "arena_source_ops = \<lparr>peek = arena_source_peek, advance = arena_source_advance\<rparr>"

record ArenaSourceBuilder =
  builder_arena :: bytes
  builder_spans :: "EntrySpan list"

definition arena_builder_new :: ArenaSourceBuilder where
  "arena_builder_new = \<lparr>builder_arena = [], builder_spans = []\<rparr>"

text \<open>The capacities only reserve memory.\<close>

definition arena_builder_with_capacity :: "nat \<Rightarrow> nat \<Rightarrow> ArenaSourceBuilder" where
  "arena_builder_with_capacity entries_hint bytes_hint = \<lparr>builder_arena = [], builder_spans = []\<rparr>"

definition arena_builder_default :: ArenaSourceBuilder where
  "arena_builder_default = arena_builder_new"

definition arena_builder_push :: "ArenaSourceBuilder \<Rightarrow> bytes \<Rightarrow> bytes \<Rightarrow> ArenaSourceBuilder" where
  "arena_builder_push b key value =
     (let arena1 = builder_arena b @ key;
          arena2 = arena1 @ value
      in \<lparr>builder_arena = arena2,
          builder_spans = builder_spans b @
            [\<lparr>key_off = word_of_nat (length (builder_arena b)), key_len = word_of_nat (length key),
              val_off = word_of_nat (length arena1), val_len = word_of_nat (length value)\<rparr>]\<rparr>)"

definition arena_builder_build :: "ArenaSourceBuilder \<Rightarrow> ArenaSource" where
  "arena_builder_build b =
     \<lparr>arena = builder_arena b, spans = builder_spans b, arena_pos = 0,
      arena_end = length (builder_spans b)\<rparr>"

section \<open>The contract\<close>

locale merge_source =
  fixes S :: "'s source_ops"
    and wf :: "'s \<Rightarrow> bool"
    and remaining :: "'s \<Rightarrow> entry list"
  assumes peek_remaining:
      "wf s \<Longrightarrow> peek S s = Ok (case remaining s of [] \<Rightarrow> None | e # _ \<Rightarrow> Some e)"
    and remaining_advance: "wf s \<Longrightarrow> remaining s \<noteq> [] \<Longrightarrow> remaining (advance S s) = tl (remaining s)"
    and wf_advance: "wf s \<Longrightarrow> remaining s \<noteq> [] \<Longrightarrow> wf (advance S s)"
begin

lemma peek_empty: "wf s \<Longrightarrow> remaining s = [] \<Longrightarrow> peek S s = Ok None"
  by (simp add: peek_remaining)

lemma peek_Cons: "wf s \<Longrightarrow> remaining s = e # es \<Longrightarrow> peek S s = Ok (Some e)"
  by (simp add: peek_remaining)

lemma advance_Cons:
  "wf s \<Longrightarrow> remaining s = e # es \<Longrightarrow> remaining (advance S s) = es \<and> wf (advance S s)"
  by (simp add: remaining_advance wf_advance)

end

section \<open>Vectors\<close>

definition vec_remaining :: "VecSource \<Rightarrow> entry list" where
  "vec_remaining s = drop (vec_pos s) (vec_entries s)"

interpretation vsrc: merge_source vec_source_ops "\<lambda>_. True" vec_remaining
  by unfold_locales
     (auto simp: vec_source_ops_def vec_source_peek_def vec_source_advance_def vec_remaining_def
        tl_drop drop_Suc split: list.splits dest: Cons_nth_drop_Suc)

section \<open>Arenas\<close>

text \<open>
  A span is inside the arena when neither of its \<open>u32\<close> sums overflows or passes the end; the entries
  of an arena are then the bytes the spans name.
\<close>

definition span_ok :: "bytes \<Rightarrow> EntrySpan \<Rightarrow> bool" where
  "span_ok a sp \<longleftrightarrow>
     unat (key_off sp) + unat (key_len sp) < 2 ^ 32 \<and> unat (key_off sp) + unat (key_len sp) \<le> length a \<and>
     unat (val_off sp) + unat (val_len sp) < 2 ^ 32 \<and> unat (val_off sp) + unat (val_len sp) \<le> length a"

definition span_key :: "bytes \<Rightarrow> EntrySpan \<Rightarrow> bytes" where
  "span_key a sp = take (unat (key_len sp)) (drop (unat (key_off sp)) a)"

definition span_val :: "bytes \<Rightarrow> EntrySpan \<Rightarrow> bytes" where
  "span_val a sp = take (unat (val_len sp)) (drop (unat (val_off sp)) a)"

definition wf_arena :: "ArenaSource \<Rightarrow> bool" where
  "wf_arena s \<longleftrightarrow> list_all (span_ok (arena s)) (spans s)"

definition arena_entries :: "ArenaSource \<Rightarrow> entry list" where
  "arena_entries s = map (\<lambda>sp. (span_key (arena s) sp, span_val (arena s) sp)) (spans s)"

definition arena_remaining :: "ArenaSource \<Rightarrow> entry list" where
  "arena_remaining s = drop (arena_pos s) (take (arena_end s) (arena_entries s))"

lemma u32_add_unat: "unat a + unat b < 2 ^ 32 \<Longrightarrow> unat (a + b :: u32) = unat a + unat b"
  by (simp add: unat_word_ariths)

lemma arena_key_Ok: "span_ok (arena s) sp \<Longrightarrow> arena_key s sp = Ok (span_key (arena s) sp)"
  by (simp add: arena_key_def u32_add_def span_ok_def span_key_def slice_def get_range_def
        u32_add_unat)

lemma arena_val_Ok: "span_ok (arena s) sp \<Longrightarrow> arena_val s sp = Ok (span_val (arena s) sp)"
  by (simp add: arena_val_def u32_add_def span_ok_def span_val_def slice_def get_range_def
        u32_add_unat)

lemma wf_arena_nth: "wf_arena s \<Longrightarrow> i < length (spans s) \<Longrightarrow> span_ok (arena s) (spans s ! i)"
  by (simp add: wf_arena_def list_all_length)

lemma length_arena_entries [simp]: "length (arena_entries s) = length (spans s)"
  by (simp add: arena_entries_def)

lemma key_at_Ok: "wf_arena s \<Longrightarrow> i < length (spans s) \<Longrightarrow> key_at s i = Ok (fst (arena_entries s ! i))"
  by (simp add: key_at_def arena_key_Ok wf_arena_nth arena_entries_def)

lemma arena_peek_Ok:
  assumes "wf_arena s"
  shows "arena_source_peek s = Ok (case arena_remaining s of [] \<Rightarrow> None | e # _ \<Rightarrow> Some e)"
proof (cases "arena_pos s < arena_end s \<and> arena_pos s < length (spans s)")
  case True
  then have "arena_remaining s =
      arena_entries s ! arena_pos s # drop (Suc (arena_pos s)) (take (arena_end s) (arena_entries s))"
    by (simp add: arena_remaining_def flip: Cons_nth_drop_Suc)
  with True assms show ?thesis
    by (simp add: arena_source_peek_def arena_key_Ok arena_val_Ok wf_arena_nth arena_entries_def Let_def)
next
  case False
  then show ?thesis by (auto simp: arena_source_peek_def arena_remaining_def)
qed

interpretation asrc: merge_source arena_source_ops wf_arena arena_remaining
  by unfold_locales
     (auto simp: arena_source_ops_def arena_peek_Ok arena_source_advance_def arena_remaining_def
        wf_arena_def arena_entries_def tl_drop drop_Suc)

lemma arena_shard_remaining:
  assumes "start \<le> stop" and "stop \<le> length (spans s)"
  shows "\<exists>t. arena_source_shard s start stop = Ok t \<and> (wf_arena s \<longrightarrow> wf_arena t) \<and>
           arena_remaining t = drop start (take stop (arena_entries s))"
  using assms by (simp add: arena_source_shard_def wf_arena_def arena_remaining_def arena_entries_def)

section \<open>Building an arena\<close>

definition arena_builder_ok :: "ArenaSourceBuilder \<Rightarrow> bool" where
  "arena_builder_ok b \<longleftrightarrow> list_all (span_ok (builder_arena b)) (builder_spans b)"

definition builder_entries :: "ArenaSourceBuilder \<Rightarrow> entry list" where
  "builder_entries b = arena_entries (arena_builder_build b)"

definition arena_builder_push_all :: "ArenaSourceBuilder \<Rightarrow> entry list \<Rightarrow> ArenaSourceBuilder" where
  "arena_builder_push_all = foldl (\<lambda>b (k, v). arena_builder_push b k v)"

lemma span_ok_mono: "span_ok a sp \<Longrightarrow> span_ok (a @ b) sp"
  by (auto simp: span_ok_def)

lemma span_parts_mono:
  "span_ok a sp \<Longrightarrow> span_key (a @ b) sp = span_key a sp \<and> span_val (a @ b) sp = span_val a sp"
  by (auto simp: span_ok_def span_key_def span_val_def)

lemma arena_builder_push_correct:
  assumes ok: "arena_builder_ok b" and room: "length (builder_arena b) + length k + length v < 2 ^ 32"
  shows "arena_builder_ok (arena_builder_push b k v) \<and>
         builder_entries (arena_builder_push b k v) = builder_entries b @ [(k, v)] \<and>
         length (builder_arena (arena_builder_push b k v)) = length (builder_arena b) + length k + length v"
  using ok room
  by (auto simp: arena_builder_ok_def arena_builder_push_def builder_entries_def arena_entries_def
        arena_builder_build_def Let_def list_all_iff span_ok_mono span_parts_mono
        span_ok_def[of "_ @ _ @ _" "\<lparr>key_off = _, key_len = _, val_off = _, val_len = _\<rparr>"]
        span_key_def[of "_ @ _ @ _" "\<lparr>key_off = _, key_len = _, val_off = _, val_len = _\<rparr>"]
        span_val_def[of "_ @ _ @ _" "\<lparr>key_off = _, key_len = _, val_off = _, val_len = _\<rparr>"]
        unat_of_nat_u32 simp del: of_nat_add)

lemma arena_builder_push_all_correct:
  assumes "arena_builder_ok b" and "length (builder_arena b) + entries_size es < 2 ^ 32"
  shows "arena_builder_ok (arena_builder_push_all b es) \<and>
         builder_entries (arena_builder_push_all b es) = builder_entries b @ es"
  using assms
proof (induction es arbitrary: b)
  case (Cons e es)
  obtain k v where e: "e = (k, v)" by (cases e)
  note arena_builder_push_correct[OF Cons.prems(1), of k v]
  moreover have "length (builder_arena b) + length k + length v < 2 ^ 32"
    using Cons.prems(2) e by simp
  ultimately show ?case
    using Cons.IH[of "arena_builder_push b k v"] Cons.prems(2) e
    by (simp add: arena_builder_push_all_def)
qed (simp add: arena_builder_push_all_def)

lemma arena_builder_build_correct:
  assumes "arena_builder_ok b"
  shows "wf_arena (arena_builder_build b) \<and> arena_remaining (arena_builder_build b) = builder_entries b"
  using assms
  by (simp add: arena_builder_ok_def wf_arena_def arena_builder_build_def builder_entries_def
        arena_remaining_def arena_entries_def)

abbreviation arena_of :: "entry list \<Rightarrow> ArenaSource" where
  "arena_of es \<equiv> arena_builder_build (arena_builder_push_all arena_builder_new es)"

lemma arena_of_correct:
  assumes "entries_size es < 2 ^ 32"
  shows "wf_arena (arena_of es) \<and> arena_remaining (arena_of es) = es \<and> arena_entries (arena_of es) = es"
proof -
  let ?b = "arena_builder_push_all arena_builder_new es"
  have ok: "arena_builder_ok ?b" "builder_entries ?b = es"
    using arena_builder_push_all_correct[of arena_builder_new es] assms
    by (simp_all add: arena_builder_new_def arena_builder_ok_def builder_entries_def
          arena_builder_build_def arena_entries_def)
  with arena_builder_build_correct[OF ok(1)] show ?thesis by (simp add: builder_entries_def)
qed

section \<open>Binary search\<close>

definition partitioned_at :: "('a \<Rightarrow> bool) \<Rightarrow> 'a list \<Rightarrow> nat \<Rightarrow> bool" where
  "partitioned_at P xs n \<longleftrightarrow> n \<le> length xs \<and> (\<forall>i < length xs. P (xs ! i) \<longleftrightarrow> i < n)"

lemma partition_search_correct:
  assumes "\<And>x. x \<in> set xs \<Longrightarrow> pred x = Ok (P x)" and "partitioned_at P xs n"
    and "0 < sz" and "base \<le> n" and "n \<le> base + sz" and "base + sz \<le> length xs"
  shows "\<exists>b. partition_search pred xs base sz = Ok b \<and> b \<le> n \<and> n \<le> Suc b \<and> b < length xs"
  using assms
proof (induction pred xs base sz rule: partition_search.induct)
  case (1 pred xs base sz)
  show ?case
  proof (cases "sz > 1")
    case False
    with "1.prems" show ?thesis by (auto simp: partition_search.simps[of pred xs base sz])
  next
    case True
    define mid where "mid = base + sz div 2"
    have mid: "mid < length xs" and half: "sz div 2 < sz" "sz div 2 \<le> sz - sz div 2" "0 < sz - sz div 2"
      using True "1.prems" by (auto simp: mid_def)
    have pm: "pred (xs ! mid) = Ok (P (xs ! mid))" and Pm: "P (xs ! mid) \<longleftrightarrow> mid < n"
      using mid "1.prems"(1,2) by (auto simp: partitioned_at_def)
    let ?base = "if P (xs ! mid) then mid else base"
    have "\<exists>b. partition_search pred xs ?base (sz - sz div 2) = Ok b \<and>
             b \<le> n \<and> n \<le> Suc b \<and> b < length xs"
    proof (rule "1.IH"[OF True refl mid_def])
      show "vec_get xs mid = Ok (xs ! mid)" using mid by simp
      show "pred (xs ! mid) = Ok (P (xs ! mid))" by (rule pm)
      show "?base \<le> n" "n \<le> ?base + (sz - sz div 2)" "?base + (sz - sz div 2) \<le> length xs"
        using Pm half "1.prems"(4-6) by (auto simp: mid_def)
    qed (use half "1.prems" in auto)
    with True mid pm show ?thesis
      by (simp add: partition_search.simps[of pred xs base sz] Let_def flip: mid_def split: if_splits)
  qed
qed

lemma partition_point_correct:
  assumes "\<And>x. x \<in> set xs \<Longrightarrow> pred x = Ok (P x)" and "partitioned_at P xs n"
  shows "partition_point pred xs = Ok n"
proof (cases "xs = []")
  case True
  with assms(2) show ?thesis by (simp add: partition_point_def partitioned_at_def)
next
  case False
  have "n \<le> length xs" using assms(2) by (simp add: partitioned_at_def)
  with False partition_search_correct[OF assms, where base = 0 and sz = "length xs"] obtain b
    where b: "partition_search pred xs 0 (length xs) = Ok b" "b \<le> n" "n \<le> Suc b" "b < length xs"
    by auto
  moreover have "pred (xs ! b) = Ok (b < n)"
    using b(4) assms by (auto simp: partitioned_at_def)
  ultimately show ?thesis
    using False by (auto simp: partition_point_def)
qed

text \<open>
  On entries sorted by user key, \<open>lower_bound\<close> is the number of entries below the boundary.
\<close>

lemma partitioned_takeWhile:
  assumes "sorted (map f xs)"
  shows "partitioned_at (\<lambda>x. f x < (c :: 'b::linorder)) xs (length (takeWhile (\<lambda>x. f x < c) xs))"
  unfolding partitioned_at_def
proof (intro conjI allI impI)
  show "length (takeWhile (\<lambda>x. f x < c) xs) \<le> length xs" by (rule length_takeWhile_le)
next
  fix i
  assume i: "i < length xs"
  let ?n = "length (takeWhile (\<lambda>x. f x < c) xs)"
  show "f (xs ! i) < c \<longleftrightarrow> i < ?n"
  proof
    assume lt: "f (xs ! i) < c"
    show "i < ?n"
    proof (rule ccontr)
      assume "\<not> i < ?n"
      then have n: "?n < length xs" "?n \<le> i" using i by auto
      from n(1) have "\<not> f (xs ! ?n) < c" by (rule nth_length_takeWhile)
      moreover have "f (xs ! ?n) \<le> f (xs ! i)"
        using sorted_nth_mono[OF assms n(2)] i n by simp
      ultimately show False using lt by simp
    qed
  next
    assume "i < ?n"
    then show "f (xs ! i) < c"
      by (metis nth_mem set_takeWhileD takeWhile_nth)
  qed
qed

lemma lower_bound_correct:
  assumes wf: "wf_arena s" and valid: "list_all (\<lambda>(k, v). valid_key k) (arena_entries s)"
    and srt: "sorted (map (ukey \<circ> fst) (arena_entries s))" and bv: "valid_key boundary"
  shows "lower_bound s boundary =
           Ok (length (takeWhile (\<lambda>e. ukey (fst e) < ukey boundary) (arena_entries s)))"
proof -
  let ?u = "\<lambda>sp. ukey (span_key (arena s) sp)"
  have "partitioned_at (\<lambda>sp. ?u sp < ukey boundary) (spans s)
          (length (takeWhile (\<lambda>sp. ?u sp < ukey boundary) (spans s)))"
    using srt by (intro partitioned_takeWhile) (simp add: arena_entries_def comp_def)
  moreover have "length (takeWhile (\<lambda>sp. ?u sp < ukey boundary) (spans s)) =
      length (takeWhile (\<lambda>e. ukey (fst e) < ukey boundary) (arena_entries s))"
    by (simp add: arena_entries_def takeWhile_map comp_def)
  ultimately show ?thesis
    unfolding lower_bound_def using wf valid bv
    by (intro partition_point_correct)
       (auto simp: wf_arena_def list_all_iff arena_key_Ok arena_entries_def)
qed

section \<open>Properties\<close>

text \<open>
  An arena holds what was pushed: the source built from any entries whose bytes fit the 32-bit
  spans is well formed and yields exactly these entries in the order of the pushes, and a shard of
  it yields the entries of its index range.
\<close>

theorem arena_roundtrip:
  assumes "entries_size es < 2 ^ 32" and "start \<le> stop" and "stop \<le> length es"
  shows "\<exists>t. arena_source_shard (arena_of es) start stop = Ok t \<and>
             wf_arena t \<and> arena_remaining t = drop start (take stop es) \<and>
             arena_remaining (arena_of es) = es"
  using arena_shard_remaining[of start stop "arena_of es"] arena_of_correct[OF assms(1)] assms(2,3)
  by (metis length_arena_entries)

theorem arena_roundtrip_witness:
  "\<exists>t. arena_source_shard (arena_of [([1], [2, 3]), ([4], [])]) 1 2 = Ok t \<and>
       wf_arena t \<and> arena_remaining t = drop 1 (take 2 [([1], [2, 3]), ([4], [])]) \<and>
       arena_remaining (arena_of [([1], [2, 3]), ([4], [])]) = [([1], [2, 3]), ([4], [])]"
  by (rule arena_roundtrip) simp_all

text \<open>
  C28. The binary search of \<open>lower_bound\<close>, on a source in user-key order, finds the number of entries
  whose user key is below that of the boundary key: a cut that no user key straddles.
\<close>

theorem lower_bound_cut:
  assumes "wf_arena s" and "list_all (\<lambda>(k, v). valid_key k) (arena_entries s)"
    and "sorted (map (ukey \<circ> fst) (arena_entries s))" and "valid_key boundary"
  shows "\<exists>i. lower_bound s boundary = Ok i \<and> i \<le> length (arena_entries s) \<and>
             (\<forall>e \<in> set (take i (arena_entries s)). ukey (fst e) < ukey boundary) \<and>
             (\<forall>e \<in> set (drop i (arena_entries s)). ukey boundary \<le> ukey (fst e))"
proof -
  let ?es = "arena_entries s" and ?P = "\<lambda>e. ukey (fst e) < ukey boundary"
  let ?i = "length (takeWhile ?P ?es)"
  have "drop ?i ?es = dropWhile ?P ?es"
    by (rule dropWhile_eq_drop[symmetric])
  moreover have "\<forall>e \<in> set (dropWhile ?P ?es). ukey boundary \<le> ukey (fst e)"
  proof (cases "dropWhile ?P ?es")
    case (Cons a l)
    then have "\<not> ?P a" by (metis hd_dropWhile list.distinct(1) list.sel(1))
    moreover have "sorted (map (ukey \<circ> fst) (a # l))"
      using assms(3) Cons by (metis dropWhile_eq_drop drop_map sorted_wrt_drop)
    ultimately show ?thesis unfolding Cons by auto
  next
    case Nil
    show ?thesis unfolding Nil by simp
  qed
  moreover have "\<forall>e \<in> set (take ?i ?es). ?P e"
    by (metis set_takeWhileD takeWhile_eq_take)
  ultimately show ?thesis
    using lower_bound_correct[OF assms] by (metis length_takeWhile_le)
qed

theorem lower_bound_cut_witness:
  "\<exists>i. lower_bound (arena_of [([97, 1, 0, 0, 0, 0, 0, 0, 0], []), ([98, 1, 0, 0, 0, 0, 0, 0, 0], [])])
         [98, 1, 7, 0, 0, 0, 0, 0, 0] = Ok i \<and> i \<le> 2"
  using lower_bound_cut[of
      "arena_of [([97, 1, 0, 0, 0, 0, 0, 0, 0], []), ([98, 1, 0, 0, 0, 0, 0, 0, 0], [])]"
      "[98, 1, 7, 0, 0, 0, 0, 0, 0]"]
    arena_of_correct[of "[([97, 1, 0, 0, 0, 0, 0, 0, 0], []), ([98, 1, 0, 0, 0, 0, 0, 0, 0], [])]"]
  by (auto simp: ukey_def)

section \<open>The life of an arena source\<close>

text \<open>The sources that come from a builder with room for its entries, by steps of \<open>advance\<close> and \<open>shard\<close>.\<close>

inductive arena_live :: "ArenaSource \<Rightarrow> bool" where
  live_built: "entries_size es < 2 ^ 32 \<Longrightarrow> arena_live (arena_of es)"
| live_advance: "arena_live s \<Longrightarrow> arena_live (arena_source_advance s)"
| live_shard: "arena_live s \<Longrightarrow> arena_source_shard s start stop = Ok t \<Longrightarrow> arena_live t"

lemma arena_live_inv: "arena_live s \<Longrightarrow> wf_arena s \<and> arena_end s \<le> length (spans s)"
proof (induction rule: arena_live.induct)
  case (live_built es)
  then show ?case using arena_of_correct by (simp add: arena_builder_build_def)
next
  case (live_advance s)
  then show ?case by (simp add: arena_source_advance_def wf_arena_def)
next
  case (live_shard s start stop t)
  then show ?case
    by (auto simp: arena_source_shard_def wf_arena_def ensure_def split: if_splits)
qed

text \<open>
  C23. Arena sources stay well formed: whatever a program does with the sources a builder made, advancing
  and sharding them in any order, \<open>peek\<close> does not panic and shows the next entry, \<open>len\<close> is the number of
  entries still to come and does not underflow, every key below \<open>total_len\<close> can be read, and \<open>shard\<close> panics
  exactly on an index range outside of the source.
\<close>

theorem arena_live_safe:
  assumes "arena_live s"
  shows "wf_arena s \<and>
    arena_source_peek s = Ok (case arena_remaining s of [] \<Rightarrow> None | e # _ \<Rightarrow> Some e) \<and>
    arena_source_len s = Ok (length (arena_remaining s)) \<and>
    (\<forall>i. i < total_len s \<longleftrightarrow> key_at s i \<noteq> Panic) \<and>
    (\<forall>start stop. arena_source_shard s start stop = Panic \<longleftrightarrow> \<not> (start \<le> stop \<and> stop \<le> total_len s))"
proof (intro conjI allI)
  have wf: "wf_arena s" and le: "arena_end s \<le> length (spans s)" using arena_live_inv[OF assms] by simp_all
  show "wf_arena s" by (rule wf)
  show "arena_source_peek s = Ok (case arena_remaining s of [] \<Rightarrow> None | e # _ \<Rightarrow> Some e)"
    using wf by (rule arena_peek_Ok)
  show "arena_source_len s = Ok (length (arena_remaining s))"
    using le by (simp add: arena_source_len_def usize_sub_def arena_remaining_def min_def)
  show "i < total_len s \<longleftrightarrow> key_at s i \<noteq> Panic" for i
    using key_at_Ok[OF wf, of i] by (auto simp: total_len_def key_at_def vec_get_def split: if_splits)
  show "arena_source_shard s start stop = Panic \<longleftrightarrow> \<not> (start \<le> stop \<and> stop \<le> total_len s)" for start stop
    by (auto simp: arena_source_shard_def total_len_def ensure_def)
qed

theorem arena_live_safe_witness:
  "arena_source_len (arena_source_advance (arena_of [([1], [2, 3]), ([4], [])])) =
     Ok (length (arena_remaining (arena_source_advance (arena_of [([1], [2, 3]), ([4], [])]))))"
  using arena_live_safe[OF live_advance[OF live_built[of "[([1], [2, 3]), ([4], [])]"]]] by simp

end
