(* ===== verification/Load.thy ===== *)
theory Load
  imports Sst_Reader Merge_Source
begin

text \<open>
  Loading a whole table file into an arena (\<open>load_arena_source\<close> of \<^verbatim>\<open>compaction/mod.rs\<close>): one read of the
  file, everything else decoded in memory.
\<close>

section \<open>Model\<close>

definition decode_block_in_memory :: "ext \<Rightarrow> bytes \<Rightarrow> Footer \<Rightarrow> BlockHandle \<Rightarrow> bytes outcome" where
  "decode_block_in_memory X file_bytes ft handle =
     (let start = unat (handle_offset handle) in
      obind (block_read_len handle) (\<lambda>len.
      obind (usize_add start len) (\<lambda>stop.
      obind (ok_or (get_range file_bytes start stop) (BlockOutOfBounds (handle_offset handle)))
        (\<lambda>raw_with_trailer.
      decode_block_contents X raw_with_trailer handle (checksum_type ft) (base_context_checksum ft)))))"

definition find_meta_handle :: "ParsedBlock \<Rightarrow> bytes \<Rightarrow> BlockHandle option outcome" where
  "find_meta_handle metaindex name =
     walked (for_each_entry metaindex
       (\<lambda>found key val.
          if found = None \<and> key = name then
            (let (offset, pos1) = get_varint64 val 0;
                 (sz, pos2) = get_varint64 val pos1
             in case (offset, sz) of
                  (Some o', Some s') \<Rightarrow> Some \<lparr>handle_offset = o', handle_size = s'\<rparr>
                | _ \<Rightarrow> found)
          else found)
       None)"

fun load_blocks :: "ext \<Rightarrow> bytes \<Rightarrow> Footer \<Rightarrow> ArenaSourceBuilder \<Rightarrow> BlockHandle list \<Rightarrow> ArenaSourceBuilder outcome" where
  "load_blocks X file_bytes ft builder [] = Ok builder"
| "load_blocks X file_bytes ft builder (handle # handles) =
     obind (decode_block_in_memory X file_bytes ft handle) (\<lambda>raw.
     obind (parse_block raw) (\<lambda>parsed.
     obind (walked (for_each_entry parsed arena_builder_push builder)) (\<lambda>builder'.
     load_blocks X file_bytes ft builder' handles)))"

definition load_arena_source :: "ext \<Rightarrow> file_reader \<Rightarrow> ArenaSource outcome" where
  "load_arena_source X reader =
     obind (read_at reader 0 (unat (file_size reader))) (\<lambda>r.
     obind (ok_or r (Msg ''failed to read whole file'')) (\<lambda>file_bytes.
     obind (usize_sub (length file_bytes) FOOTER_TAIL_LEN) (\<lambda>tail_start.
     obind (slice file_bytes tail_start (length file_bytes)) (\<lambda>tail.
     obind (decode_footer X tail (file_size reader)) (\<lambda>ft.
     obind (decode_block_in_memory X file_bytes ft (metaindex_handle ft)) (\<lambda>metaindex_raw.
     obind (parse_block metaindex_raw) (\<lambda>metaindex.
     obind (case index_handle ft of
              Some h \<Rightarrow> Ok h
            | None \<Rightarrow>
                obind (find_meta_handle metaindex INDEX_BLOCK_NAME) (\<lambda>found.
                ok_or found (Msg ''index block handle missing from metaindex''))) (\<lambda>ih.
     obind (decode_block_in_memory X file_bytes ft ih) (\<lambda>index_raw.
     obind (parse_block index_raw) (\<lambda>index.
     obind (walked (for_each_index_entry index (\<lambda>hs key handle. hs @ [handle]) [])) (\<lambda>data_handles.
     obind (load_blocks X file_bytes ft arena_builder_new data_handles) (\<lambda>builder.
     Ok (arena_builder_build builder)))))))))))))"

section \<open>The two readers agree\<close>

lemma find_meta_handle_eq: "find_meta_handle p name = sst_find_meta_handle p name"
proof -
  have "(let (offset, pos1) = get_varint64 val 0;
             (sz, pos2) = get_varint64 val pos1
         in case (offset, sz) of
              (Some o', Some s') \<Rightarrow> Some \<lparr>handle_offset = o', handle_size = s'\<rparr>
            | _ \<Rightarrow> None) = decode_meta_value_handle val" for val
    by (auto simp: decode_meta_value_handle_def split: prod.split option.split)
  then have f: "(\<lambda>found key val.
          if found = None \<and> key = name then
            (let (offset, pos1) = get_varint64 val 0;
                 (sz, pos2) = get_varint64 val pos1
             in case (offset, sz) of
                  (Some o', Some s') \<Rightarrow> Some \<lparr>handle_offset = o', handle_size = s'\<rparr>
                | _ \<Rightarrow> found)
          else found) =
      (\<lambda>found key val. if found = None \<and> key = name then decode_meta_value_handle val else found)"
    by (intro ext) auto
  show ?thesis unfolding find_meta_handle_def sst_find_meta_handle_def f ..
qed

lemma decode_block_in_memory_iff:
  assumes "length disk < 2 ^ 63"
  shows "decode_block_in_memory X disk ft h = Ok raw \<longleftrightarrow>
         read_block_contents X (blocking_file_reader disk) h (checksum_type ft) (base_context_checksum ft) = Ok raw"
proof (cases "block_read_len h")
  case (Ok len)
  have len0: "len \<noteq> 0" using Ok by (auto simp: block_read_len_def usize_add_def BLOCK_TRAILER_SIZE_def split: if_splits)
  let ?s = "unat (handle_offset h)"
  show ?thesis
  proof (cases "?s + len \<le> length disk")
    case True
    then have "usize_add ?s len = Ok (?s + len)" "\<not> 2 ^ 63 \<le> len" using assms by (simp_all add: usize_add_def)
    with True Ok show ?thesis
      by (simp add: decode_block_in_memory_def read_block_contents_def blocking_file_reader_def
            blocking_read_at_def get_range_def Let_def)
  next
    case False
    with Ok len0 show ?thesis
      by (auto simp: decode_block_in_memory_def read_block_contents_def blocking_file_reader_def
            blocking_read_at_def get_range_def usize_add_def Let_def split: if_splits)
  qed
qed (simp_all add: decode_block_in_memory_def read_block_contents_def)

lemma walked_Ok: "walked w = Ok s \<longleftrightarrow> w = (s, Ok ())"
  by (cases w) (auto simp: walked_def)

text \<open>
  The walk over a block makes the same sequence of calls whatever the callback is: a walk that
  collects the entries determines every other.
\<close>

abbreviation collect :: "entry list \<Rightarrow> bytes \<Rightarrow> bytes \<Rightarrow> entry list" where
  "collect st k v \<equiv> st @ [(k, v)]"

lemma entry_loop_collect:
  "\<exists>es. \<forall>st. entry_loop collect data st ks pos = (st @ es, snd (entry_loop f data s ks pos)) \<and>
        fst (entry_loop f data s ks pos) = feed f s es"
proof (induction f data s ks pos rule: entry_loop.induct)
  case (1 f data s ks pos)
  show ?case
  proof (cases "pos < length data")
    case False
    then show ?thesis by (intro exI[of _ "[]"]) (simp add: entry_loop.simps)
  next
    case pos: True
    show ?thesis
    proof (cases "decode_entry data ks pos")
      case (Ok r)
      obtain k v p where r: "r = (k, v, p)" by (cases r)
      obtain es where es: "\<forall>st. entry_loop collect data st k p = (st @ es, snd (entry_loop f data (f s k v) k p)) \<and>
          fst (entry_loop f data (f s k v) k p) = feed f (f s k v) es"
        using "1.IH"[OF pos] Ok r by blast
      show ?thesis
        using pos Ok r es by (intro exI[of _ "(k, v) # es"]) (simp add: entry_loop.simps[of _ _ _ ks pos])
    next
      case (Err e)
      with pos show ?thesis by (intro exI[of _ "[]"]) (simp add: entry_loop.simps)
    next
      case Panic
      with pos show ?thesis by (intro exI[of _ "[]"]) (simp add: entry_loop.simps)
    qed
  qed
qed

lemma for_each_entry_collect:
  "\<exists>es. (\<forall>st. for_each_entry p collect st = (st @ es, snd (for_each_entry p f s))) \<and>
        fst (for_each_entry p f s) = feed f s es"
proof (cases "block_data p")
  case (Ok d)
  obtain es where "\<forall>st. entry_loop collect d st [] 0 = (st @ es, snd (entry_loop f d s [] 0)) \<and>
      fst (entry_loop f d s [] 0) = feed f s es"
    using entry_loop_collect[of d "[]" 0 f s] by blast
  with Ok show ?thesis by (intro exI[of _ es]) (simp add: for_each_entry_def)
qed (auto simp: for_each_entry_def intro!: exI[of _ "[]"])

text \<open>Loading a block pushes what a walk over it collects.\<close>

lemma feed_push: "feed arena_builder_push b es = arena_builder_push_all b es"
  by (simp add: feed_def arena_builder_push_all_def)

lemma walked_push_iff:
  "walked (for_each_entry p arena_builder_push b) = Ok b' \<longleftrightarrow>
     (\<exists>es. (\<forall>st. for_each_entry p collect st = (st @ es, Ok ())) \<and> b' = arena_builder_push_all b es)"
proof -
  obtain es where es: "\<forall>st. for_each_entry p collect st = (st @ es, snd (for_each_entry p arena_builder_push b))"
      "fst (for_each_entry p arena_builder_push b) = feed arena_builder_push b es"
    using for_each_entry_collect[of p arena_builder_push b] by blast
  have "walked (for_each_entry p arena_builder_push b) = Ok b' \<longleftrightarrow>
      snd (for_each_entry p arena_builder_push b) = Ok () \<and> b' = arena_builder_push_all b es"
    using es(2) by (auto simp: walked_def feed_push)
  also have "\<dots> \<longleftrightarrow>
      (\<exists>es'. (\<forall>st. for_each_entry p collect st = (st @ es', Ok ())) \<and> b' = arena_builder_push_all b es')"
    using es(1) by auto
  finally show ?thesis .
qed

lemma push_all_append:
  "arena_builder_push_all b (es @ es') = arena_builder_push_all (arena_builder_push_all b es) es'"
  by (simp add: arena_builder_push_all_def)

lemma visit_blocks_Ok_Cons:
  "sst_visit_blocks X self f st (h # hs) = (st', Ok ()) \<longleftrightarrow>
     (\<exists>raw p st1. read_block_contents X (sr_reader self) h (checksum_type (sr_footer self))
          (base_context_checksum (sr_footer self)) = Ok raw \<and> parse_block raw = Ok p \<and>
        for_each_entry p f st = (st1, Ok ()) \<and> sst_visit_blocks X self f st1 hs = (st', Ok ()))"
  by (cases "read_block_contents X (sr_reader self) h (checksum_type (sr_footer self))
          (base_context_checksum (sr_footer self))")
     (auto split: outcome.splits prod.splits)

lemma visit_blocks_collect: "\<exists>es r. \<forall>st. sst_visit_blocks X self collect st hs = (st @ es, r)"
proof (induction hs)
  case (Cons h hs)
  then obtain es r where IH: "\<forall>st. sst_visit_blocks X self collect st hs = (st @ es, r)" by blast
  show ?case
  proof (cases "obind (read_block_contents X (sr_reader self) h (checksum_type (sr_footer self))
                    (base_context_checksum (sr_footer self))) parse_block")
    case (Ok p)
    obtain es1 where es1: "\<forall>st. for_each_entry p collect st = (st @ es1, snd (for_each_entry p collect []))"
      using for_each_entry_collect[of p collect "[]"] by blast
    have "sst_visit_blocks X self collect st (h # hs) =
        (case snd (for_each_entry p collect []) of
           Ok _ \<Rightarrow> (st @ es1 @ es, r) | Err e \<Rightarrow> (st @ es1, Err e) | Panic \<Rightarrow> (st @ es1, Panic))" for st
      using Ok es1[rule_format, of st] IH by (auto split: outcome.split)
    then show ?thesis by (cases "snd (for_each_entry p collect [])") auto
  qed (auto intro!: exI[of _ "[]"])
qed auto

lemma load_blocks_iff:
  assumes len: "length disk < 2 ^ 63" and self: "sr_reader self = blocking_file_reader disk" "sr_footer self = ft"
  shows "load_blocks X disk ft b hs = Ok b' \<longleftrightarrow>
     (\<exists>es. sst_visit_blocks X self collect st hs = (st @ es, Ok ()) \<and> b' = arena_builder_push_all b es)"
proof (induction hs arbitrary: b st)
  case Nil
  show ?case by (auto simp: arena_builder_push_all_def)
next
  case (Cons h hs)
  have "load_blocks X disk ft b (h # hs) = Ok b' \<longleftrightarrow>
     (\<exists>raw p es1. read_block_contents X (sr_reader self) h (checksum_type (sr_footer self))
          (base_context_checksum (sr_footer self)) = Ok raw \<and> parse_block raw = Ok p \<and>
        (\<forall>st. for_each_entry p collect st = (st @ es1, Ok ())) \<and>
        load_blocks X disk ft (arena_builder_push_all b es1) hs = Ok b')"
    using self by (auto simp: walked_push_iff decode_block_in_memory_iff[OF len])
  also have "\<dots> \<longleftrightarrow> (\<exists>es. sst_visit_blocks X self collect st (h # hs) = (st @ es, Ok ()) \<and>
      b' = arena_builder_push_all b es)" (is "?L \<longleftrightarrow> ?R")
  proof
    assume ?L
    then obtain raw p es1 es2 where r: "read_block_contents X (sr_reader self) h (checksum_type (sr_footer self))
          (base_context_checksum (sr_footer self)) = Ok raw" "parse_block raw = Ok p"
        "for_each_entry p collect st = (st @ es1, Ok ())"
        "sst_visit_blocks X self collect (st @ es1) hs = ((st @ es1) @ es2, Ok ())"
        "b' = arena_builder_push_all (arena_builder_push_all b es1) es2"
      using Cons.IH by blast
    then show ?R
      unfolding visit_blocks_Ok_Cons by (intro exI[of _ "es1 @ es2"]) (auto simp: push_all_append)
  next
    assume ?R
    then obtain es raw p st1 where r: "read_block_contents X (sr_reader self) h (checksum_type (sr_footer self))
          (base_context_checksum (sr_footer self)) = Ok raw" "parse_block raw = Ok p"
        "for_each_entry p collect st = (st1, Ok ())"
        "sst_visit_blocks X self collect st1 hs = (st @ es, Ok ())" "b' = arena_builder_push_all b es"
      unfolding visit_blocks_Ok_Cons by blast
    obtain es1 where es1: "\<forall>st. for_each_entry p collect st = (st @ es1, Ok ())"
      using for_each_entry_collect[of p collect st] r(3) by auto
    then have st1: "st1 = st @ es1" using r(3) by auto
    obtain es2 where es2: "sst_visit_blocks X self collect st1 hs = (st1 @ es2, Ok ())" "es = es1 @ es2"
      using visit_blocks_collect[of X self hs] r(4) st1 by (metis append.assoc fst_conv same_append_eq snd_conv)
    then have "load_blocks X disk ft (arena_builder_push_all b es1) hs = Ok b'"
      unfolding Cons.IH[of "arena_builder_push_all b es1" st1] using r(5) by (auto simp: push_all_append)
    with r(1,2) es1 show ?L by blast
  qed
  finally show ?case .
qed

lemma read_footer_whole:
  assumes "length disk < 2 ^ 63"
  shows "read_footer X (blocking_file_reader disk) = Ok ft \<longleftrightarrow>
     FOOTER_TAIL_LEN \<le> length disk \<and>
     decode_footer X (drop (length disk - FOOTER_TAIL_LEN) disk) (of_nat (length disk)) = Ok ft"
proof (cases "FOOTER_TAIL_LEN \<le> length disk")
  case True
  have size: "unat (of_nat (length disk) :: u64) = length disk" using assms by (simp add: unat_of_nat_u64)
  have tail: "read_at (blocking_file_reader disk) (of_nat (length disk - FOOTER_TAIL_LEN)) FOOTER_TAIL_LEN =
      Ok (Some (drop (length disk - FOOTER_TAIL_LEN) disk))"
    using bfr.read_law[of "length disk - FOOTER_TAIL_LEN" FOOTER_TAIL_LEN disk] True assms by simp
  have "u64_sub (of_nat (length disk)) (of_nat FOOTER_TAIL_LEN) = Ok (of_nat (length disk - FOOTER_TAIL_LEN))"
    using True size
    by (simp add: u64_sub_def word_le_nat_alt FOOTER_TAIL_LEN_def NEW_VERSIONS_ENCODED_LEN_def)
  with True tail size show ?thesis
    by (simp add: read_footer_def bfr.size_law del: of_nat_diff)
next
  case False
  then show ?thesis
    using assms by (simp add: read_footer_def bfr.size_law unat_of_nat_u64)
qed

lemma load_arena_source_iff:
  assumes len: "length disk < 2 ^ 63" and foot: "FOOTER_TAIL_LEN \<le> length disk"
  shows "load_arena_source X (blocking_file_reader disk) = Ok s \<longleftrightarrow>
     (\<exists>self es. sst_reader_open X (blocking_file_reader disk) = Ok self \<and>
        sst_reader_for_each_entry X self collect [] = (es, Ok ()) \<and> s = arena_of es)"
proof -
  let ?R = "blocking_file_reader disk"
  have size: "unat (file_size ?R) = length disk" using len by (simp add: bfr.size_law unat_of_nat_u64)
  have whole: "read_at ?R 0 (length disk) = Ok (Some disk)"
    using bfr.read_law[of 0 "length disk" disk] len by simp
  have tail: "slice disk (length disk - FOOTER_TAIL_LEN) (length disk) =
      Ok (drop (length disk - FOOTER_TAIL_LEN) disk)"
    using foot by (simp add: slice_def get_range_def)
  have name: "INDEX_BLOCK_NAME = INDEX_BLOCK_META_KEY"
    by (simp add: INDEX_BLOCK_META_KEY_def INDEX_BLOCK_NAME_def)
  have "load_arena_source X ?R = Ok s \<longleftrightarrow>
      (\<exists>self hs b. sst_reader_open X ?R = Ok self \<and>
         walked (for_each_index_entry (sr_index self) (\<lambda>hs key handle. hs @ [handle]) []) = Ok hs \<and>
         load_blocks X disk (sr_footer self) arena_builder_new hs = Ok b \<and> s = arena_builder_build b)"
    using size whole tail foot
    unfolding load_arena_source_def sst_reader_open_def find_meta_handle_eq name
    by (fastforce simp: read_footer_whole[OF len] decode_block_in_memory_iff[OF len] bfr.size_law)
  also have "\<dots> \<longleftrightarrow> (\<exists>self es. sst_reader_open X ?R = Ok self \<and>
      sst_reader_for_each_entry X self collect [] = (es, Ok ()) \<and> s = arena_of es)"
  proof -
    have "(\<exists>hs b. walked (for_each_index_entry (sr_index self) (\<lambda>hs key handle. hs @ [handle]) []) = Ok hs \<and>
           load_blocks X disk (sr_footer self) arena_builder_new hs = Ok b \<and> s = arena_builder_build b) \<longleftrightarrow>
        (\<exists>es. sst_reader_for_each_entry X self collect [] = (es, Ok ()) \<and> s = arena_of es)"
      if "sst_reader_open X ?R = Ok self" for self
    proof -
      have "sr_reader self = ?R" using that by (auto simp: sst_reader_open_def)
      then show ?thesis
        using load_blocks_iff[OF len _ refl, of self X arena_builder_new _ _ "[]"]
        by (cases "walked (for_each_index_entry (sr_index self) (\<lambda>hs key handle. hs @ [handle]) [])")
           (auto simp: sst_reader_for_each_entry_def)
    qed
    then show ?thesis by blast
  qed
  finally show ?thesis .
qed

section \<open>Loading a written file\<close>

lemma build_sst_load:
  assumes "rewritten_entries opts es = Ok es'" and "sst_size_bound opts es' < 2 ^ 32"
  shows "\<exists>disk. build_sst X opts es = Ok disk \<and> length disk < 2 ^ 32 \<and> FOOTER_TAIL_LEN \<le> length disk \<and>
           load_arena_source X (blocking_file_reader disk) = Ok (arena_of es')"
proof -
  obtain disk hs bss where d: "build_sst X opts es = Ok disk" "concat bss = es'" "length disk < 2 ^ 32"
      "sst_layout X (opt_checksum_type opts) (opt_base_context_checksum opts) disk hs bss"
    using build_sst_laid_out[OF assms] by blast
  have foot: "FOOTER_TAIL_LEN \<le> length disk" using d(4) by (simp add: sst_layout_def)
  obtain self where "sst_reader_open X (blocking_file_reader disk) = Ok self"
      "sst_reader_for_each_entry X self collect [] = (es', Ok ())"
    using bfr.for_each_laid_out[OF d(4,3), of collect "[]"] d(2) by (auto simp: feed_collect)
  then have "load_arena_source X (blocking_file_reader disk) = Ok (arena_of es')"
    using load_arena_source_iff[OF _ foot] d(3) by auto
  with d(1,3) foot show ?thesis by blast
qed

lemma size_bound_fits: "sst_size_bound opts es < 2 ^ 32 \<Longrightarrow> entries_size es < 2 ^ 32"
  by (simp add: sst_size_bound_def)

section \<open>Properties\<close>

text \<open>
  C16. The loader of the compaction and the incremental reader agree on every file, well formed or not,
  that is long enough for a footer: the loader succeeds exactly when the reader opens the file and
  walks it to the end, and its arena is built from the entries of that walk.
\<close>

theorem load_agrees_with_reader:
  assumes "length disk < 2 ^ 63" and "FOOTER_TAIL_LEN \<le> length disk"
  shows "load_arena_source X (blocking_file_reader disk) = Ok s \<longleftrightarrow>
     (\<exists>self es. sst_reader_open X (blocking_file_reader disk) = Ok self \<and>
        sst_reader_for_each_entry X self (\<lambda>st k v. st @ [(k, v)]) [] = (es, Ok ()) \<and> s = arena_of es)"
  by (rule load_arena_source_iff[OF assms])

theorem load_agrees_with_reader_witness:
  "\<exists>disk self es. build_sst example_ext sst_builder_options_default [([97, 1, 5, 0, 0, 0, 0, 0, 0], [1])] = Ok disk \<and>
     sst_reader_open example_ext (blocking_file_reader disk) = Ok self \<and>
     sst_reader_for_each_entry example_ext self (\<lambda>st k v. st @ [(k, v)]) [] = (es, Ok ()) \<and>
     load_arena_source example_ext (blocking_file_reader disk) = Ok (arena_of es)"
proof -
  have "rewritten_entries sst_builder_options_default [([97, 1, 5, 0, 0, 0, 0, 0, 0], [1])] =
        Ok [([97, 1, 5, 0, 0, 0, 0, 0, 0], [1])]"
    "sst_size_bound sst_builder_options_default [([97, 1, 5, 0, 0, 0, 0, 0, 0], [1])] < 2 ^ 32"
    by (simp_all add: default_options_small)
  from build_sst_load[OF this, of example_ext] obtain disk s where
      "build_sst example_ext sst_builder_options_default [([97, 1, 5, 0, 0, 0, 0, 0, 0], [1])] = Ok disk"
      "length disk < 2 ^ 32" "FOOTER_TAIL_LEN \<le> length disk"
      "load_arena_source example_ext (blocking_file_reader disk) = Ok s" by blast
  with load_agrees_with_reader[of disk example_ext s] show ?thesis by fastforce
qed

text \<open>
  A written file loads back: for every choice of options and hash functions and all entries that fit
  a file below 4 GiB, the arena loaded from the file \<open>build_sst\<close> returns is well formed and yields the
  entries that were written.
\<close>

theorem load_roundtrip:
  assumes "rewritten_entries opts es = Ok es'" and "sst_size_bound opts es' < 2 ^ 32"
  shows "\<exists>disk s. build_sst X opts es = Ok disk \<and>
           load_arena_source X (blocking_file_reader disk) = Ok s \<and> wf_arena s \<and> arena_remaining s = es'"
  using build_sst_load[OF assms, of X] arena_of_correct[OF size_bound_fits[OF assms(2)]] by blast

theorem load_roundtrip_witness:
  "\<exists>disk s. build_sst example_ext sst_builder_options_default
       [([97, 1, 5, 0, 0, 0, 0, 0, 0], [1]), ([98, 0, 9, 0, 0, 0, 0, 0, 0], [])] = Ok disk \<and>
     load_arena_source example_ext (blocking_file_reader disk) = Ok s \<and> wf_arena s \<and>
     arena_remaining s = [([97, 1, 5, 0, 0, 0, 0, 0, 0], [1]), ([98, 0, 9, 0, 0, 0, 0, 0, 0], [])]"
  by (rule load_roundtrip) (simp_all add: default_options_small)

text \<open>
  On a file too short for a footer the loader panics: the start of the tail is a subtraction that
  underflows, where the incremental reader returns an error.
\<close>

lemma load_short:
  assumes "length disk < FOOTER_TAIL_LEN"
  shows "load_arena_source X (blocking_file_reader disk) = Panic"
proof -
  have len: "length disk < 2 ^ 63"
    using assms by (simp add: FOOTER_TAIL_LEN_def NEW_VERSIONS_ENCODED_LEN_def)
  then have size: "unat (file_size (blocking_file_reader disk)) = length disk"
    by (simp add: bfr.size_law unat_of_nat_u64)
  have "read_at (blocking_file_reader disk) 0 (length disk) = Ok (Some disk)"
    using bfr.read_law[of 0 "length disk" disk] len by simp
  with assms size show ?thesis
    by (simp add: load_arena_source_def usize_sub_def)
qed

end
