(* ===== verification/Binary_Heap.thy ===== *)
theory Binary_Heap
  imports Prelude
begin

text \<open>
  \<^verbatim>\<open>std::collections::BinaryHeap\<close>, the priority queue that \<^verbatim>\<open>HeapMerger\<close> of \<^verbatim>\<open>merge/merger.rs\<close> is built on,
  with the algorithm of the standard library: a max-heap in a vector, in which the children of
  position \<open>i\<close> are at \<open>2 * i + 1\<close> and \<open>2 * i + 2\<close>. The elements are compared with \<open>\<le>\<close> of their
  \<^verbatim>\<open>PartialOrd\<close>, the parameter \<open>le\<close>, which may panic.

  The locale \<open>binary_heap\<close> says what the heap asks of the comparison; in it, \<open>push\<close> and \<open>pop\<close> keep
  the heap property and refine a priority queue: a multiset from which \<open>pop\<close> takes a greatest
  element.
\<close>

section \<open>Operations\<close>

abbreviation parent :: "nat \<Rightarrow> nat" where
  "parent i \<equiv> (i - Suc 0) div 2"

lemma parent_less: "0 < i \<Longrightarrow> parent i < i"
  by linarith

text \<open>
  A \<^verbatim>\<open>Hole\<close> of the library is a position whose element is held aside; here the element stays in the
  vector, at the position of the hole, and moving the hole swaps.
\<close>

definition move_to :: "'a list \<Rightarrow> nat \<Rightarrow> nat \<Rightarrow> 'a list" where
  "move_to xs pos i = xs[pos := xs ! i, i := xs ! pos]"

lemma length_move_to [simp]: "length (move_to xs pos i) = length xs"
  by (simp add: move_to_def)

lemma mset_move_to [simp]: "pos < length xs \<Longrightarrow> i < length xs \<Longrightarrow> mset (move_to xs pos i) = mset xs"
  by (simp add: move_to_def mset_swap)

lemma set_move_to [simp]: "pos < length xs \<Longrightarrow> i < length xs \<Longrightarrow> set (move_to xs pos i) = set xs"
  by (metis mset_move_to set_mset_mset)

lemma nth_move_to:
  assumes "pos < length xs" and "i < length xs"
  shows "move_to xs pos i ! j = (if j = i then xs ! pos else if j = pos then xs ! i else xs ! j)"
  using assms by (simp add: move_to_def nth_list_update)

function sift_up :: "('a \<Rightarrow> 'a \<Rightarrow> bool outcome) \<Rightarrow> 'a list \<Rightarrow> nat \<Rightarrow> 'a list outcome" where
  "sift_up le xs pos =
     (if pos = 0 then Ok xs
      else obind (le (xs ! pos) (xs ! parent pos)) (\<lambda>stop.
        if stop then Ok xs else sift_up le (move_to xs pos (parent pos)) (parent pos)))"
  by pat_completeness auto
termination
  by (relation "measure (\<lambda>(le, xs, pos). pos)") auto

declare sift_up.simps [simp del]

text \<open>The first half of \<open>sift_down_to_bottom\<close>: the hole follows the greater child to a leaf.\<close>

function sift_down :: "('a \<Rightarrow> 'a \<Rightarrow> bool outcome) \<Rightarrow> 'a list \<Rightarrow> nat \<Rightarrow> ('a list \<times> nat) outcome" where
  "sift_down le xs pos =
     (let child = 2 * pos + 1
      in if child \<le> length xs - 2 \<and> 2 \<le> length xs then
           obind (le (xs ! child) (xs ! (child + 1))) (\<lambda>right.
             let child' = (if right then child + 1 else child)
             in sift_down le (move_to xs pos child') child')
         else if child = length xs - 1 then Ok (move_to xs pos child, child)
         else Ok (xs, pos))"
  by pat_completeness auto
termination
  by (relation "measure (\<lambda>(le, xs, pos). length xs - pos)") auto

declare sift_down.simps [simp del]

definition sift_down_to_bottom :: "('a \<Rightarrow> 'a \<Rightarrow> bool outcome) \<Rightarrow> 'a list \<Rightarrow> nat \<Rightarrow> 'a list outcome" where
  "sift_down_to_bottom le xs pos = obind (sift_down le xs pos) (\<lambda>(ys, p). sift_up le ys p)"

definition heap_push :: "('a \<Rightarrow> 'a \<Rightarrow> bool outcome) \<Rightarrow> 'a list \<Rightarrow> 'a \<Rightarrow> 'a list outcome" where
  "heap_push le h e = sift_up le (h @ [e]) (length h)"

definition heap_pop :: "('a \<Rightarrow> 'a \<Rightarrow> bool outcome) \<Rightarrow> 'a list \<Rightarrow> ('a \<times> 'a list) option outcome" where
  "heap_pop le h =
     (if h = [] then Ok None
      else let e = last h; rest = butlast h
           in if rest = [] then Ok (Some (e, []))
              else obind (sift_down_to_bottom le (rest[0 := e]) 0) (\<lambda>h'. Ok (Some (rest ! 0, h'))))"

section \<open>The queue a heap implements\<close>

datatype 'a queue_op = Push 'a | Pop

text \<open>A run of operations on a heap: what the pops returned, and the heap they leave.\<close>

fun heap_ops ::
    "('a \<Rightarrow> 'a \<Rightarrow> bool outcome) \<Rightarrow> 'a queue_op list \<Rightarrow> 'a list \<Rightarrow> ('a option list \<times> 'a list) outcome" where
  "heap_ops le [] h = Ok ([], h)"
| "heap_ops le (Push e # ops) h = obind (heap_push le h e) (heap_ops le ops)"
| "heap_ops le (Pop # ops) h =
     obind (heap_pop le h) (\<lambda>p. case p of
       None \<Rightarrow> obind (heap_ops le ops h) (\<lambda>(outs, h'). Ok (None # outs, h'))
     | Some (e, h1) \<Rightarrow> obind (heap_ops le ops h1) (\<lambda>(outs, h'). Ok (Some e # outs, h')))"

text \<open>The specification: a multiset, of which a pop may take any greatest element.\<close>

inductive queue_run ::
    "('a \<Rightarrow> 'a \<Rightarrow> bool) \<Rightarrow> 'a queue_op list \<Rightarrow> 'a multiset \<Rightarrow> 'a option list \<Rightarrow> 'a multiset \<Rightarrow> bool"
  for lq :: "'a \<Rightarrow> 'a \<Rightarrow> bool" where
  queue_done: "queue_run lq [] M [] M"
| queue_push: "queue_run lq ops (add_mset e M) outs N \<Longrightarrow> queue_run lq (Push e # ops) M outs N"
| queue_pop_empty: "queue_run lq ops {#} outs N \<Longrightarrow> queue_run lq (Pop # ops) {#} (None # outs) N"
| queue_pop: "\<forall>x \<in># M. lq x e \<Longrightarrow> lq e e \<Longrightarrow> queue_run lq ops M outs N \<Longrightarrow>
     queue_run lq (Pop # ops) (add_mset e M) (Some e # outs) N"

inductive_cases queue_run_PushE: "queue_run lq (Push e # ops) M outs N"
inductive_cases queue_run_PopE: "queue_run lq (Pop # ops) M outs N"

section \<open>Correctness\<close>

locale binary_heap =
  fixes le :: "'a \<Rightarrow> 'a \<Rightarrow> bool outcome"
    and ok :: "'a \<Rightarrow> bool"
    and lq :: "'a \<Rightarrow> 'a \<Rightarrow> bool"
  assumes le_ok: "ok a \<Longrightarrow> ok b \<Longrightarrow> le a b = Ok (lq a b)"
    and total: "ok a \<Longrightarrow> ok b \<Longrightarrow> lq a b \<or> lq b a"
    and trans: "ok a \<Longrightarrow> ok b \<Longrightarrow> ok c \<Longrightarrow> lq a b \<Longrightarrow> lq b c \<Longrightarrow> lq a c"
begin

abbreviation all_ok :: "'a list \<Rightarrow> bool" where
  "all_ok xs \<equiv> \<forall>x \<in> set xs. ok x"

definition is_heap :: "'a list \<Rightarrow> bool" where
  "is_heap xs \<longleftrightarrow> (\<forall>i. 0 < i \<and> i < length xs \<longrightarrow> lq (xs ! i) (xs ! parent i))"

text \<open>
  The heap property but for the edges at a hole; the children of the hole are below its parent, so
  that the hole can be filled from either side.
\<close>

definition hole_at :: "'a list \<Rightarrow> nat \<Rightarrow> bool" where
  "hole_at xs pos \<longleftrightarrow> pos < length xs \<and>
     (\<forall>i. 0 < i \<and> i < length xs \<and> i \<noteq> pos \<and> parent i \<noteq> pos \<longrightarrow> lq (xs ! i) (xs ! parent i)) \<and>
     (0 < pos \<longrightarrow> (\<forall>i. 0 < i \<and> i < length xs \<and> parent i = pos \<longrightarrow> lq (xs ! i) (xs ! parent pos)))"

definition hole_fits :: "'a list \<Rightarrow> nat \<Rightarrow> bool" where
  "hole_fits xs pos \<longleftrightarrow> (\<forall>i. 0 < i \<and> i < length xs \<and> parent i = pos \<longrightarrow> lq (xs ! i) (xs ! pos))"

lemma refl_ok: "ok a \<Longrightarrow> lq a a"
  using total by blast

lemma is_heap_Nil [simp]: "is_heap []"
  by (simp add: is_heap_def)

lemma nth_ok: "all_ok xs \<Longrightarrow> i < length xs \<Longrightarrow> ok (xs ! i)"
  by simp

lemma root_greatest:
  assumes "is_heap xs" and "all_ok xs" and "i < length xs"
  shows "lq (xs ! i) (xs ! 0)"
  using assms(3)
proof (induction i rule: less_induct)
  case (less i)
  show ?case
  proof (cases "i = 0")
    case True
    then show ?thesis using refl_ok nth_ok[OF assms(2)] less.prems by simp
  next
    case False
    then have p: "parent i < i" by linarith
    have "lq (xs ! i) (xs ! parent i)" using assms(1) less.prems False by (simp add: is_heap_def)
    moreover have "lq (xs ! parent i) (xs ! 0)" using less.IH[OF p] p less.prems by simp
    ultimately show ?thesis
      using trans[of "xs ! i" "xs ! parent i" "xs ! 0"] nth_ok[OF assms(2)] p less.prems
      by (metis less_trans gr_zeroI not_less_zero)
  qed
qed

lemma hole_root:
  assumes "hole_at xs 0" and "hole_fits xs 0"
  shows "is_heap xs"
  using assms by (metis hole_at_def hole_fits_def is_heap_def less_numeral_extra(3))

lemma hole_filled:
  assumes "hole_at xs pos" and "hole_fits xs pos" and "lq (xs ! pos) (xs ! parent pos)"
  shows "is_heap xs"
  using assms unfolding hole_at_def hole_fits_def is_heap_def by metis

text \<open>Moving the hole up over a parent that is not above its element.\<close>

lemma hole_edge:
  assumes "hole_at xs pos" and "hole_fits xs pos" and "0 < i" and "i < length xs" and "i \<noteq> pos"
  shows "lq (xs ! i) (xs ! parent i)"
  using assms by (cases "parent i = pos") (auto simp: hole_at_def hole_fits_def)

lemma hole_sibling:
  assumes "hole_at xs pos" and "hole_fits xs pos" and "all_ok xs" and "i \<noteq> pos" and "0 < i" and "i < length xs"
    and "parent i = parent pos" and "b < length xs" and "lq (xs ! parent pos) (xs ! b)"
  shows "lq (xs ! i) (xs ! b)"
proof -
  have "parent pos < length xs" using assms(5-7) parent_less[of i] by simp
  then show ?thesis
    using trans[of "xs ! i" "xs ! parent pos" "xs ! b"] hole_edge[OF assms(1,2,5,6,4)] assms(3,6-9) by simp
qed

lemma hole_up_fits:
  assumes hole: "hole_at xs pos" and fits: "hole_fits xs pos" and pos: "0 < pos"
    and ok: "all_ok xs" and below: "lq (xs ! parent pos) (xs ! pos)"
  shows "hole_fits (move_to xs pos (parent pos)) (parent pos)"
  unfolding hole_fits_def
proof (intro allI impI)
  have len: "pos < length xs" using hole by (simp add: hole_at_def)
  then have p: "parent pos < length xs" "parent pos < pos" using pos by linarith+
  note nth = nth_move_to[OF len p(1)]
  let ?ys = "move_to xs pos (parent pos)"
  fix i assume i: "0 < i \<and> i < length ?ys \<and> parent i = parent pos"
  then have "i \<noteq> parent pos" using parent_less[of i] by linarith
  then show "lq (?ys ! i) (?ys ! parent pos)"
    using hole_sibling[OF hole fits ok _ _ _ _ len below, of i] i below p by (cases "i = pos") (simp_all add: nth)
qed

lemma hole_up_at:
  assumes hole: "hole_at xs pos" and fits: "hole_fits xs pos" and pos: "0 < pos" and ok: "all_ok xs"
  shows "hole_at (move_to xs pos (parent pos)) (parent pos)"
proof -
  have len: "pos < length xs" using hole by (simp add: hole_at_def)
  then have p: "parent pos < length xs" "parent pos < pos" using pos by linarith+
  note nth = nth_move_to[OF len p(1)]
  let ?ys = "move_to xs pos (parent pos)"
  let ?g = "parent (parent pos)"
  have "lq (?ys ! i) (?ys ! parent i)"
    if i: "0 < i" "i < length xs" "i \<noteq> parent pos" "parent i \<noteq> parent pos" for i
  proof -
    have "i \<noteq> pos" using i by auto
    moreover have "lq (xs ! i) (xs ! parent pos)" if "parent i = pos"
      using hole i pos that by (simp add: hole_at_def)
    ultimately show ?thesis using i hole_edge[OF hole fits, of i] by (auto simp: nth)
  qed
  moreover have "lq (?ys ! i) (?ys ! ?g)" if i: "0 < parent pos" "0 < i" "i < length xs" "parent i = parent pos" for i
  proof -
    have g: "?g < length xs" "?g \<noteq> parent pos" "?g \<noteq> pos" using i(1) p by linarith+
    have grand: "lq (xs ! parent pos) (xs ! ?g)" using hole_edge[OF hole fits, of "parent pos"] i(1) p by simp
    have ne: "i \<noteq> parent pos" using i parent_less[of i] by linarith
    have g': "?ys ! ?g = xs ! ?g" using g by (simp only: nth if_False)
    show ?thesis
    proof (cases "i = pos")
      case True
      then have "?ys ! i = xs ! parent pos" using ne by (simp only: nth if_True if_False simp_thms)
      then show ?thesis using grand g' by simp
    next
      case False
      then have "?ys ! i = xs ! i" using ne by (simp only: nth if_False)
      then show ?thesis using hole_sibling[OF hole fits ok False i(2-4) g(1) grand] g' by simp
    qed
  qed
  ultimately show ?thesis using p(1) unfolding hole_at_def length_move_to by blast
qed

lemma sift_up_correct:
  assumes "hole_at xs pos" and "hole_fits xs pos" and "all_ok xs"
  shows "\<exists>ys. sift_up le xs pos = Ok ys \<and> is_heap ys \<and> mset ys = mset xs"
  using assms
proof (induction pos arbitrary: xs rule: less_induct)
  case (less pos)
  show ?case
  proof (cases "pos = 0")
    case True
    then show ?thesis using less.prems hole_root by (simp add: sift_up.simps)
  next
    case False
    have len: "pos < length xs" using less.prems(1) by (simp add: hole_at_def)
    then have p: "parent pos < length xs" "parent pos < pos" using False by linarith+
    have le: "le (xs ! pos) (xs ! parent pos) = Ok (lq (xs ! pos) (xs ! parent pos))"
      using le_ok nth_ok[OF less.prems(3)] len p by blast
    show ?thesis
    proof (cases "lq (xs ! pos) (xs ! parent pos)")
      case True
      then show ?thesis using le False less.prems hole_filled by (simp add: sift_up.simps[of le xs])
    next
      case gt: False
      then have "lq (xs ! parent pos) (xs ! pos)"
        using total nth_ok[OF less.prems(3)] len p by blast
      note up = hole_up_at[OF less.prems(1,2) _ less.prems(3)] hole_up_fits[OF less.prems(1,2) _ less.prems(3) this]
      have "all_ok (move_to xs pos (parent pos))" using less.prems(3) len p by simp
      from less.IH[OF p(2) up this] False le gt len p show ?thesis
        by (simp add: sift_up.simps[of le xs])
    qed
  qed
qed

text \<open>Moving the hole down to a child that is not below its sibling.\<close>

lemma hole_down:
  assumes hole: "hole_at xs pos" and c: "0 < c" "c < length xs" "parent c = pos"
    and greater: "\<And>i. 0 < i \<Longrightarrow> i < length xs \<Longrightarrow> parent i = pos \<Longrightarrow> lq (xs ! i) (xs ! c)"
  shows "hole_at (move_to xs pos c) c"
proof -
  have len: "pos < length xs" and pc: "pos < c" using hole c by (auto simp: hole_at_def)
  note nth = nth_move_to[OF len c(2)]
  let ?ys = "move_to xs pos c"
  have "lq (?ys ! i) (?ys ! parent i)"
    if i: "0 < i" "i < length xs" "i \<noteq> c" "parent i \<noteq> c" for i
  proof -
    consider "i = pos" | "i \<noteq> pos" "parent i = pos" | "i \<noteq> pos" "parent i \<noteq> pos" by blast
    then show ?thesis
    proof cases
      case 1
      then have "parent i \<noteq> pos" using i(1) by linarith
      moreover have "lq (xs ! c) (xs ! parent pos)" using hole c 1 i(1) by (simp add: hole_at_def)
      ultimately show ?thesis using 1 i by (simp add: nth)
    next
      case 2
      then show ?thesis using greater[of i] i pc by (simp add: nth)
    next
      case 3
      then show ?thesis using hole i by (simp add: nth hole_at_def)
    qed
  qed
  moreover have "lq (?ys ! i) (?ys ! parent c)" if i: "0 < i" "i < length xs" "parent i = c" for i
  proof -
    have "c < i" using i by linarith
    then have "lq (xs ! i) (xs ! parent i)" using hole i pc unfolding hole_at_def by auto
    then have "lq (xs ! i) (xs ! c)" using i by simp
    then show ?thesis using \<open>c < i\<close> pc c by (simp add: nth)
  qed
  ultimately show ?thesis using c(2) unfolding hole_at_def length_move_to by blast
qed

lemma leaf_fits: "length xs \<le> 2 * pos + 1 \<Longrightarrow> hole_fits xs pos"
  unfolding hole_fits_def by (intro allI impI) linarith

lemma hole_down_greater:
  assumes hole: "hole_at xs pos" and ok: "all_ok xs" and len: "2 * pos + 2 < length xs"
    and c: "c = (if lq (xs ! (2 * pos + 1)) (xs ! (2 * pos + 2)) then 2 * pos + 2 else 2 * pos + 1)"
  shows "hole_at (move_to xs pos c) c"
proof (rule hole_down[OF hole])
  show "0 < c" "c < length xs" "parent c = pos" using len by (auto simp: c)
  fix i assume "0 < i" "i < length xs" "parent i = pos"
  then have "i = 2 * pos + 1 \<or> i = 2 * pos + 2" by linarith
  then show "lq (xs ! i) (xs ! c)"
    using total[of "xs ! (2 * pos + 1)" "xs ! (2 * pos + 2)"] refl_ok nth_ok[OF ok] len by (auto simp: c)
qed

lemma hole_down_only:
  assumes hole: "hole_at xs pos" and ok: "all_ok xs" and len: "length xs = 2 * pos + 2"
  shows "hole_at (move_to xs pos (2 * pos + 1)) (2 * pos + 1)"
proof (rule hole_down[OF hole])
  fix i assume "0 < i" "i < length xs" "parent i = pos"
  then have "i = 2 * pos + 1" using len by linarith
  then show "lq (xs ! i) (xs ! (2 * pos + 1))" using refl_ok nth_ok[OF ok] len by simp
qed (use len in auto)

lemma sift_down_correct:
  assumes "hole_at xs pos" and "all_ok xs"
  shows "\<exists>ys p. sift_down le xs pos = Ok (ys, p) \<and> hole_at ys p \<and> hole_fits ys p \<and> mset ys = mset xs"
  using assms
proof (induction "length xs - pos" arbitrary: xs pos rule: less_induct)
  case less
  have pos: "pos < length xs" using less.prems(1) by (simp add: hole_at_def)
  consider "2 * pos + 2 < length xs" | "length xs = 2 * pos + 2" | "length xs \<le> 2 * pos + 1" by linarith
  then show ?case
  proof cases
    case 1
    define c where "c = (if lq (xs ! (2 * pos + 1)) (xs ! (2 * pos + 2)) then 2 * pos + 2 else 2 * pos + 1)"
    have "le (xs ! (2 * pos + 1)) (xs ! (2 * pos + 2)) = Ok (lq (xs ! (2 * pos + 1)) (xs ! (2 * pos + 2)))"
      using 1 by (intro le_ok nth_ok[OF less.prems(2)]) linarith+
    moreover have "2 * pos + 1 \<le> length xs - 2" "2 \<le> length xs" using 1 by linarith+
    ultimately have "sift_down le xs pos = sift_down le (move_to xs pos c) c"
      by (simp add: sift_down.simps[of le xs] c_def Let_def)
    moreover have c: "pos < c" "c < length xs" using 1 by (auto simp: c_def)
    moreover have "all_ok (move_to xs pos c)" using less.prems(2) pos c by simp
    ultimately show ?thesis
      using less.hyps[of "move_to xs pos c" c] hole_down_greater[OF less.prems 1 c_def] pos by simp
  next
    case 2
    then have "sift_down le xs pos = Ok (move_to xs pos (2 * pos + 1), 2 * pos + 1)"
      by (simp add: sift_down.simps[of le xs pos] Let_def)
    moreover have "hole_fits (move_to xs pos (2 * pos + 1)) (2 * pos + 1)" using 2 by (intro leaf_fits) simp
    ultimately show ?thesis using hole_down_only[OF less.prems 2] pos 2 by simp
  next
    case 3
    then have "\<not> 2 * pos + 1 \<le> length xs - 2" "2 * pos + 1 \<noteq> length xs - 1" using pos by linarith+
    then have "sift_down le xs pos = Ok (xs, pos)" by (simp add: sift_down.simps[of le xs])
    with less.prems(1) leaf_fits[OF 3] show ?thesis by simp
  qed
qed

lemma push_correct:
  assumes "is_heap h" and "all_ok h" and "ok e"
  shows "\<exists>h'. heap_push le h e = Ok h' \<and> is_heap h' \<and> mset h' = add_mset e (mset h)"
proof -
  let ?xs = "h @ [e]"
  have len: "parent i \<noteq> length h" if "0 < i" "i < length ?xs" for i
    using that parent_less[of i] by simp
  have "lq (?xs ! i) (?xs ! parent i)" if "0 < i" "i < length h" for i
    using assms(1) that parent_less[of i] by (auto simp: is_heap_def nth_append)
  then have "hole_at ?xs (length h)" using len by (auto simp: hole_at_def less_Suc_eq)
  moreover have "hole_fits ?xs (length h)" using len by (auto simp: hole_fits_def)
  moreover note sift_up_correct[of ?xs "length h"]
  ultimately show ?thesis using assms(2,3) by (simp add: heap_push_def)
qed

lemma pop_correct:
  assumes heap: "is_heap h" and ok: "all_ok h" and ne: "h \<noteq> []"
  shows "\<exists>e h'. heap_pop le h = Ok (Some (e, h')) \<and> is_heap h' \<and> mset h = add_mset e (mset h') \<and>
           (\<forall>x \<in> set h. lq x e)"
proof (cases "butlast h = []")
  case True
  then obtain e where "h = [e]" using ne by (metis append_butlast_last_id append_Nil)
  then show ?thesis using refl_ok ok by (simp add: heap_pop_def)
next
  case False
  define rest where "rest = butlast h"
  have h: "h = rest @ [last h]" using ne by (simp add: rest_def)
  have nonempty: "rest \<noteq> []" using False by (simp add: rest_def)
  let ?xs = "rest[0 := last h]"
  have edge: "lq (rest ! i) (rest ! parent i)" if "0 < i" "i < length rest" for i
  proof -
    have "h ! j = rest ! j" if "j < length rest" for j using that by (subst h) (simp add: nth_append)
    moreover have "i < length h" "parent i < length rest" using that by (auto simp: rest_def)
    ultimately show ?thesis using heap that by (metis is_heap_def)
  qed
  have hole: "hole_at ?xs 0"
    using edge nonempty by (auto simp: hole_at_def nth_list_update)
  have "set ?xs \<subseteq> set h"
    using ne by (auto simp: rest_def dest!: set_update_subset_insert[THEN subsetD] in_set_butlastD)
  then have ok': "all_ok ?xs" using ok by blast
  obtain ys p where down: "sift_down le ?xs 0 = Ok (ys, p)" "hole_at ys p" "hole_fits ys p"
      "mset ys = mset ?xs"
    using sift_down_correct[OF hole ok'] by blast
  have "all_ok ys" using ok' down(4) by (metis set_mset_mset)
  from sift_up_correct[OF down(2,3) this] obtain h' where
      up: "sift_up le ys p = Ok h'" "is_heap h'" "mset h' = mset ys" by blast
  have pop: "heap_pop le h = Ok (Some (rest ! 0, h'))"
    using ne nonempty down(1) up(1)
    by (simp add: heap_pop_def sift_down_to_bottom_def rest_def[symmetric] Let_def)
  obtain r rs where rs: "rest = r # rs" using nonempty by (cases rest) auto
  have "mset h = add_mset (rest ! 0) (mset h')"
    using up(3) down(4) by (subst h) (simp add: rs)
  moreover have "lq x (rest ! 0)" if x: "x \<in> set h" for x
  proof -
    obtain i where "i < length h" "x = h ! i" using x by (metis in_set_conv_nth)
    moreover have "h ! 0 = rest ! 0" by (subst h) (simp add: rs)
    ultimately show ?thesis using root_greatest[OF heap ok, of i] by simp
  qed
  ultimately show ?thesis using pop up(2) by blast
qed

text \<open>Every run of pushes and pops on a heap is a run of the queue.\<close>

lemma heap_ops_refine:
  assumes "is_heap h" and "all_ok h" and "\<forall>e. Push e \<in> set ops \<longrightarrow> ok e"
  shows "\<exists>outs h'. heap_ops le ops h = Ok (outs, h') \<and> is_heap h' \<and> queue_run lq ops (mset h) outs (mset h')"
  using assms
proof (induction ops arbitrary: h)
  case (Cons c ops)
  have prems: "\<forall>e. Push e \<in> set ops \<longrightarrow> ok e" using Cons.prems(3) by simp
  show ?case
  proof (cases c)
    case (Push e)
    then have e: "ok e" using Cons.prems(3) by simp
    obtain h1 where h1: "heap_push le h e = Ok h1" "is_heap h1" "mset h1 = add_mset e (mset h)"
      using push_correct[OF Cons.prems(1,2) e] by blast
    have "set h1 = insert e (set h)" using h1(3) by (metis set_mset_add_mset_insert set_mset_mset)
    then have "all_ok h1" using Cons.prems(2) e by simp
    from Cons.IH[OF h1(2) this prems] h1 show ?thesis
      unfolding Push by (auto intro: queue_run.queue_push)
  next
    case Pop
    show ?thesis
    proof (cases "h = []")
      case True
      from Cons.IH[OF Cons.prems(1,2) prems] True show ?thesis
        unfolding Pop by (auto simp: heap_pop_def intro: queue_run.queue_pop_empty)
    next
      case False
      obtain e h1 where p: "heap_pop le h = Ok (Some (e, h1))" "is_heap h1"
          "mset h = add_mset e (mset h1)" "\<forall>x \<in> set h. lq x e"
        using pop_correct[OF Cons.prems(1,2) False] by blast
      have "set h = insert e (set h1)" using p(3) by (metis set_mset_add_mset_insert set_mset_mset)
      then have "all_ok h1" "\<forall>x \<in># mset h1. lq x e" "lq e e" using Cons.prems(2) p(4) by auto
      with Cons.IH[OF p(2) _ prems] p show ?thesis
        unfolding Pop by (auto intro!: queue_run.queue_pop)
    qed
  qed
qed (auto intro: queue_run.queue_done)

end

end
