(* ===== verification/Merger.thy ===== *)
theory Merger
  imports Merge_Source Binary_Heap
begin

text \<open>
  The two k-way mergers of \<^verbatim>\<open>merge/merger.rs\<close>, generic over the source operations \<open>S\<close> and the
  comparator \<open>C\<close> as the Rust types are. The callback of \<open>run\<close> is a function on a state of the
  caller, threaded through the calls. The loop of \<open>run\<close> ends when the sources are exhausted, which
  depends on the source, so it is a \<open>partial_function\<close> whose value \<open>None\<close> stands for a loop that
  does not end.

  Both mergers are shown to follow \<open>kmerge\<close>: at each step emit an entry whose key is least among
  the fronts of all the sources, until all are exhausted.
\<close>

section \<open>Loser tree\<close>

record 's LoserTreeMerger =
  lt_sources :: "'s list"
  tree :: "nat list"
  winner :: nat
  k_padded :: nat

definition NONE_YET :: nat where
  "NONE_YET = 2 ^ 64 - 1"

definition peek_at :: "'s source_ops \<Rightarrow> 's list \<Rightarrow> nat \<Rightarrow> entry option outcome" where
  "peek_at S sources leaf =
     (if leaf \<ge> length sources then Ok None else peek S (sources ! leaf))"

definition lt_less :: "comparator \<Rightarrow> 's source_ops \<Rightarrow> 's list \<Rightarrow> nat \<Rightarrow> nat \<Rightarrow> bool outcome" where
  "lt_less C S sources a b =
     obind (peek_at S sources a) (\<lambda>pa.
     obind (peek_at S sources b) (\<lambda>pb.
     case (pa, pb) of
       (Some (ka, _), Some (kb, _)) \<Rightarrow> obind (compare_with_prefix C ka kb) (\<lambda>c. Ok (c = Less))
     | (Some _, None) \<Rightarrow> Ok True
     | (None, Some _) \<Rightarrow> Ok False
     | (None, None) \<Rightarrow> Ok False))"

text \<open>
  \<open>build_subtree\<close> reads the sources and \<open>k_padded\<close> and writes the tree, which it threads. It is
  called on the root, node 1; on node 0 the recursion of the source would not end, and the stack
  overflows.
\<close>

function build_subtree ::
    "comparator \<Rightarrow> 's source_ops \<Rightarrow> 's list \<Rightarrow> nat \<Rightarrow> nat list \<Rightarrow> nat \<Rightarrow> (nat \<times> nat list) outcome" where
  "build_subtree C S sources kp t node =
     (if node \<ge> kp then Ok (node - kp, t)
      else if node = 0 then Panic
      else
        obind (build_subtree C S sources kp t (2 * node)) (\<lambda>(left, t1).
        obind (build_subtree C S sources kp t1 (2 * node + 1)) (\<lambda>(right, t2).
        obind (lt_less C S sources left right) (\<lambda>lt.
        let (winner, loser) = (if lt then (left, right) else (right, left))
        in obind (vec_set t2 node loser) (\<lambda>t3. Ok (winner, t3))))))"
  by pat_completeness auto
termination
  by (relation "measure (\<lambda>(C, S, sources, kp, t, node). kp - node)") auto

declare build_subtree.simps [simp del]

definition lt_build :: "comparator \<Rightarrow> 's source_ops \<Rightarrow> 's LoserTreeMerger \<Rightarrow> 's LoserTreeMerger outcome" where
  "lt_build C S m =
     obind (build_subtree C S (lt_sources m) (k_padded m) (tree m) 1) (\<lambda>(w, t).
     Ok (m\<lparr>winner := w, tree := t\<rparr>))"

text \<open>
  \<open>replay_from_leaf\<close> with its loop, whose result is the tree and the winner it leaves. The calls of
  \<open>less\<close> go through a parameter that may keep a state of its own, here and in the turn of \<open>run\<close>
  below, so that the same definitions run the code, with \<open>plain_less\<close>, and count its comparisons,
  with a \<open>less\<close> that records each call.
\<close>

type_synonym ('s, 'c) less_op = "'s list \<Rightarrow> 'c \<Rightarrow> nat \<Rightarrow> nat \<Rightarrow> (bool \<times> 'c) outcome"

definition plain_less :: "comparator \<Rightarrow> 's source_ops \<Rightarrow> ('s, unit) less_op" where
  "plain_less C S sources c a b = obind (lt_less C S sources a b) (\<lambda>lt. Ok (lt, c))"

function replay_loop_by ::
    "('s, 'c) less_op \<Rightarrow> 's list \<Rightarrow> 'c \<Rightarrow> nat \<Rightarrow> nat list \<Rightarrow> nat \<Rightarrow> nat \<Rightarrow> (nat list \<times> nat \<times> 'c) outcome" where
  "replay_loop_by lt_op sources c w t node contender =
     (if node \<ge> 1 then
        obind (vec_get t node) (\<lambda>loser_here.
        obind (lt_op sources c contender loser_here) (\<lambda>(lt, c1).
        obind (if \<not> lt then obind (vec_set t node contender) (\<lambda>t'. Ok (t', loser_here))
               else Ok (t, contender)) (\<lambda>(t1, contender1).
        if node = 1 then Ok (t1, contender1, c1)
        else replay_loop_by lt_op sources c1 w t1 (node div 2) contender1)))
      else Ok (t, w, c))"
  by pat_completeness auto
termination
  by (relation "measure (\<lambda>(lt_op, sources, c, w, t, node, contender). node)") auto

declare replay_loop_by.simps [simp del]

definition replay_from_leaf_by ::
    "('s, 'c) less_op \<Rightarrow> 'c \<Rightarrow> 's LoserTreeMerger \<Rightarrow> nat \<Rightarrow> ('s LoserTreeMerger \<times> 'c) outcome" where
  "replay_from_leaf_by lt_op c m leaf =
     obind (replay_loop_by lt_op (lt_sources m) c (winner m) (tree m) ((leaf + k_padded m) div 2) leaf)
       (\<lambda>(t, w, c'). Ok (m\<lparr>tree := t, winner := w\<rparr>, c'))"

definition replay_loop ::
    "comparator \<Rightarrow> 's source_ops \<Rightarrow> 's list \<Rightarrow> nat \<Rightarrow> nat list \<Rightarrow> nat \<Rightarrow> nat \<Rightarrow> (nat list \<times> nat) outcome" where
  "replay_loop C S sources w t node contender =
     obind (replay_loop_by (plain_less C S) sources () w t node contender) (\<lambda>(t', w', _). Ok (t', w'))"

definition replay_from_leaf ::
    "comparator \<Rightarrow> 's source_ops \<Rightarrow> 's LoserTreeMerger \<Rightarrow> nat \<Rightarrow> 's LoserTreeMerger outcome" where
  "replay_from_leaf C S m leaf =
     obind (replay_from_leaf_by (plain_less C S) () m leaf) (\<lambda>(m', _). Ok m')"

lemma replay_loop_simps:
  "replay_loop C S sources w t node contender =
     (if node \<ge> 1 then
        obind (vec_get t node) (\<lambda>loser_here.
        obind (lt_less C S sources contender loser_here) (\<lambda>lt.
        obind (if \<not> lt then obind (vec_set t node contender) (\<lambda>t'. Ok (t', loser_here))
               else Ok (t, contender)) (\<lambda>(t1, contender1).
        if node = 1 then Ok (t1, contender1)
        else replay_loop C S sources w t1 (node div 2) contender1)))
      else Ok (t, w))"
  by (auto simp: replay_loop_def replay_loop_by.simps[of _ _ _ w t node] plain_less_def obind_assoc
      intro!: obind_cong split: prod.splits)

lemma replay_from_leaf_eq:
  "replay_from_leaf C S m leaf =
     obind (replay_loop C S (lt_sources m) (winner m) (tree m) ((leaf + k_padded m) div 2) leaf)
       (\<lambda>(t, w). Ok (m\<lparr>tree := t, winner := w\<rparr>))"
  by (auto simp: replay_from_leaf_def replay_from_leaf_by_def replay_loop_def obind_assoc
      intro!: obind_cong split: prod.splits)

fun next_power_of_two :: "nat \<Rightarrow> nat" where
  "next_power_of_two n = (if n \<le> 1 then 1 else 2 * next_power_of_two ((n + 1) div 2))"

declare next_power_of_two.simps [simp del]

definition loser_tree_new ::
    "comparator \<Rightarrow> 's source_ops \<Rightarrow> 's list \<Rightarrow> 's LoserTreeMerger outcome" where
  "loser_tree_new C S sources =
     (let kp = next_power_of_two (max (length sources) 1)
      in lt_build C S
           \<lparr>lt_sources = sources, tree = replicate kp NONE_YET, winner = 0, k_padded = kp\<rparr>)"

partial_function (option) loser_tree_run ::
    "comparator \<Rightarrow> 's source_ops \<Rightarrow> ('st \<Rightarrow> bytes \<Rightarrow> bytes \<Rightarrow> 'st) \<Rightarrow> 'st \<Rightarrow> 's LoserTreeMerger \<Rightarrow>
       ('st \<times> 's LoserTreeMerger) outcome option" where
  "loser_tree_run C S f st m =
     (if winner m \<ge> length (lt_sources m) then Some (Ok (st, m))
      else case peek S (lt_sources m ! winner m) of
        Panic \<Rightarrow> Some Panic
      | Err e \<Rightarrow> Some (Err e)
      | Ok None \<Rightarrow> Some (Ok (st, m))
      | Ok (Some (k, v)) \<Rightarrow>
          (let w = winner m;
               sources' = (lt_sources m)[w := advance S (lt_sources m ! w)]
           in case replay_from_leaf C S (m\<lparr>lt_sources := sources'\<rparr>) w of
                Panic \<Rightarrow> Some Panic
              | Err e \<Rightarrow> Some (Err e)
              | Ok m' \<Rightarrow> loser_tree_run C S f (f st k v) m'))"

text \<open>One turn of that loop, \<open>None\<close> where it breaks; the loop is its iteration.\<close>

definition loser_tree_step_by ::
    "('s, 'c) less_op \<Rightarrow> 's source_ops \<Rightarrow> ('st \<Rightarrow> bytes \<Rightarrow> bytes \<Rightarrow> 'st) \<Rightarrow> 'c \<Rightarrow> 'st \<Rightarrow> 's LoserTreeMerger \<Rightarrow>
       (('st \<times> 's LoserTreeMerger) option \<times> 'c) outcome" where
  "loser_tree_step_by lt_op S f c st m =
     (if winner m \<ge> length (lt_sources m) then Ok (None, c)
      else obind (peek S (lt_sources m ! winner m)) (\<lambda>p. case p of
        None \<Rightarrow> Ok (None, c)
      | Some (k, v) \<Rightarrow>
          (let w = winner m;
               sources' = (lt_sources m)[w := advance S (lt_sources m ! w)]
           in obind (replay_from_leaf_by lt_op c (m\<lparr>lt_sources := sources'\<rparr>) w) (\<lambda>(m', c').
              Ok (Some (f st k v, m'), c')))))"

definition loser_tree_step ::
    "comparator \<Rightarrow> 's source_ops \<Rightarrow> ('st \<Rightarrow> bytes \<Rightarrow> bytes \<Rightarrow> 'st) \<Rightarrow> 'st \<Rightarrow> 's LoserTreeMerger \<Rightarrow>
       ('st \<times> 's LoserTreeMerger) option outcome" where
  "loser_tree_step C S f st m =
     obind (loser_tree_step_by (plain_less C S) S f () st m) (\<lambda>(r, _). Ok r)"

lemma loser_tree_step_eq:
  "loser_tree_step C S f st m =
     (if winner m \<ge> length (lt_sources m) then Ok None
      else obind (peek S (lt_sources m ! winner m)) (\<lambda>p. case p of
        None \<Rightarrow> Ok None
      | Some (k, v) \<Rightarrow>
          (let w = winner m;
               sources' = (lt_sources m)[w := advance S (lt_sources m ! w)]
           in obind (replay_from_leaf C S (m\<lparr>lt_sources := sources'\<rparr>) w) (\<lambda>m'.
              Ok (Some (f st k v, m'))))))"
  by (auto simp: loser_tree_step_def loser_tree_step_by_def replay_from_leaf_def obind_assoc Let_def
      intro!: obind_cong split: prod.splits option.splits)

lemma loser_tree_run_step:
  "loser_tree_run C S f st m =
     (case loser_tree_step C S f st m of
        Panic \<Rightarrow> Some Panic
      | Err e \<Rightarrow> Some (Err e)
      | Ok None \<Rightarrow> Some (Ok (st, m))
      | Ok (Some (st', m')) \<Rightarrow> loser_tree_run C S f st' m')"
  unfolding loser_tree_run.simps[of C S f st m] loser_tree_step_eq
  by (auto simp: Let_def split: outcome.splits option.splits)

section \<open>Heap\<close>

record HeapEntry =
  source_idx :: nat
  heap_key :: bytes

record 's HeapMerger =
  hm_sources :: "'s list"
  heap :: "HeapEntry list"

definition heap_entry_cmp :: "comparator \<Rightarrow> HeapEntry \<Rightarrow> HeapEntry \<Rightarrow> ordering outcome" where
  "heap_entry_cmp C self other = compare_with_prefix C (heap_key other) (heap_key self)"

text \<open>
  The other comparisons of a \<open>HeapEntry\<close>. Equality looks at the keys, where two keys that
  \<open>cmp\<close> calls equal may differ in their bytes; \<open>BinaryHeap\<close> only uses \<open>\<le>\<close>, which \<^verbatim>\<open>PartialOrd\<close> derives
  from \<open>partial_cmp\<close>.
\<close>

definition heap_entry_eq :: "HeapEntry \<Rightarrow> HeapEntry \<Rightarrow> bool" where
  "heap_entry_eq self other \<longleftrightarrow> heap_key self = heap_key other"

definition heap_entry_partial_cmp :: "comparator \<Rightarrow> HeapEntry \<Rightarrow> HeapEntry \<Rightarrow> ordering option outcome" where
  "heap_entry_partial_cmp C self other = obind (heap_entry_cmp C self other) (\<lambda>c. Ok (Some c))"

definition heap_entry_le :: "comparator \<Rightarrow> HeapEntry \<Rightarrow> HeapEntry \<Rightarrow> bool outcome" where
  "heap_entry_le C self other =
     obind (heap_entry_partial_cmp C self other) (\<lambda>c. Ok (c = Some Less \<or> c = Some Equal))"

fun heap_init :: "comparator \<Rightarrow> 's source_ops \<Rightarrow> nat \<Rightarrow> 's list \<Rightarrow> HeapEntry list \<Rightarrow> HeapEntry list outcome" where
  "heap_init C S idx [] h = Ok h"
| "heap_init C S idx (s # ss) h =
     obind (peek S s) (\<lambda>p. case p of
       Some (k, _) \<Rightarrow>
         obind (heap_push (heap_entry_le C) h \<lparr>source_idx = idx, heap_key = k\<rparr>) (heap_init C S (idx + 1) ss)
     | None \<Rightarrow> heap_init C S (idx + 1) ss h)"

definition heap_merger_new :: "comparator \<Rightarrow> 's source_ops \<Rightarrow> 's list \<Rightarrow> 's HeapMerger outcome" where
  "heap_merger_new C S sources =
     obind (heap_init C S 0 sources []) (\<lambda>h. Ok \<lparr>hm_sources = sources, heap = h\<rparr>)"

text \<open>One turn of the loop of \<open>run\<close>: \<open>None\<close> when the heap is empty.\<close>

definition heap_merger_step ::
    "comparator \<Rightarrow> 's source_ops \<Rightarrow> ('st \<Rightarrow> bytes \<Rightarrow> bytes \<Rightarrow> 'st) \<Rightarrow> 'st \<Rightarrow> 's HeapMerger \<Rightarrow>
       ('st \<times> 's HeapMerger) option outcome" where
  "heap_merger_step C S f st m =
     obind (heap_pop (heap_entry_le C) (heap m)) (\<lambda>popped. case popped of
       None \<Rightarrow> Ok None
     | Some (e, h) \<Rightarrow>
         obind (vec_get (hm_sources m) (source_idx e)) (\<lambda>s.
         obind (peek S s) (\<lambda>p.
         obind (expect p) (\<lambda>(k, v).
         let s' = advance S s;
             sources' = (hm_sources m)[source_idx e := s']
         in obind (peek S s') (\<lambda>p2.
            obind (case p2 of
                Some (k2, _) \<Rightarrow> heap_push (heap_entry_le C) h \<lparr>source_idx = source_idx e, heap_key = k2\<rparr>
              | None \<Rightarrow> Ok h) (\<lambda>h'.
            Ok (Some (f st k v, \<lparr>hm_sources = sources', heap = h'\<rparr>))))))))"

partial_function (option) heap_merger_run ::
    "comparator \<Rightarrow> 's source_ops \<Rightarrow> ('st \<Rightarrow> bytes \<Rightarrow> bytes \<Rightarrow> 'st) \<Rightarrow> 'st \<Rightarrow> 's HeapMerger \<Rightarrow>
       ('st \<times> 's HeapMerger) outcome option" where
  "heap_merger_run C S f st m =
     (case heap_merger_step C S f st m of
        Panic \<Rightarrow> Some Panic
      | Err e \<Rightarrow> Some (Err e)
      | Ok None \<Rightarrow> Some (Ok (st, m))
      | Ok (Some (st', m')) \<Rightarrow> heap_merger_run C S f st' m')"

section \<open>Specification\<close>

text \<open>
  The merges of a list of entry lists: emit the head of a list whose rank is least among the heads
  until every list is empty.
\<close>

inductive kmerge :: "(bytes \<Rightarrow> 'r::linorder) \<Rightarrow> entry list list \<Rightarrow> entry list \<Rightarrow> bool"
  for rank :: "bytes \<Rightarrow> 'r::linorder" where
  kmerge_done: "\<forall>l \<in> set ls. l = [] \<Longrightarrow> kmerge rank ls []"
| kmerge_emit: "i < length ls \<Longrightarrow> ls ! i = e # es \<Longrightarrow>
     \<forall>l \<in> set ls. l \<noteq> [] \<longrightarrow> rank (fst e) \<le> rank (fst (hd l)) \<Longrightarrow>
     kmerge rank (ls[i := es]) xs \<Longrightarrow> kmerge rank ls (e # xs)"

inductive_cases kmerge_NilE: "kmerge rank ls []"
inductive_cases kmerge_ConsE: "kmerge rank ls (e # xs)"

lemma mset_concat_update:
  assumes "i < length ls" and "ls ! i = e # es"
  shows "mset (concat ls) = add_mset e (mset (concat (ls[i := es])))"
proof -
  have "ls = take i ls @ (e # es) # drop (Suc i) ls"
    using assms by (metis id_take_nth_drop)
  moreover have "ls[i := es] = take i ls @ es # drop (Suc i) ls"
    using assms(1) by (rule upd_conv_take_nth_drop)
  ultimately show ?thesis
    by (metis (no_types, lifting) concat.simps(2) concat_append mset.simps(2) mset_append
        append_Cons union_mset_add_mset_right)
qed

lemma concat_update_shorter:
  "i < length ls \<Longrightarrow> ls ! i = e # es \<Longrightarrow> length (concat (ls[i := es])) < length (concat ls)"
  by (metis mset_concat_update lessI size_add_mset size_mset)

lemma kmerge_mset: "kmerge rank ls xs \<Longrightarrow> mset xs = mset (concat ls)"
proof (induction rule: kmerge.induct)
  case (kmerge_done ls)
  then show ?case by (simp add: concat_eq_Nil_conv)
next
  case (kmerge_emit i ls e es xs)
  then show ?case by (simp add: mset_concat_update)
qed

lemma kmerge_set: "kmerge rank ls xs \<Longrightarrow> set xs = (\<Union>l \<in> set ls. set l)"
  by (metis kmerge_mset set_concat set_mset_mset)

abbreviation sorted_by :: "(bytes \<Rightarrow> 'r::linorder) \<Rightarrow> entry list \<Rightarrow> bool" where
  "sorted_by rank es \<equiv> sorted (map (\<lambda>e. rank (fst e)) es)"

abbreviation keys_valid :: "entry list \<Rightarrow> bool" where
  "keys_valid es \<equiv> \<forall>e \<in> set es. valid_key (fst e)"

abbreviation ik_sorted :: "entry list \<Rightarrow> bool" where
  "ik_sorted es \<equiv> sorted_by ikrank es"

lemma sorted_by_update:
  assumes "\<forall>l \<in> set ls. sorted_by rank l" and "i < length ls" and "ls ! i = e # es"
  shows "\<forall>l \<in> set (ls[i := es]). sorted_by rank l"
proof -
  have "sorted_by rank (e # es)" using assms by (metis nth_mem)
  then show ?thesis using assms(1) by (auto dest!: set_update_subset_insert[THEN subsetD])
qed

lemma sorted_by_hd_le: "sorted_by rank l \<Longrightarrow> x \<in> set l \<Longrightarrow> rank (fst (hd l)) \<le> rank (fst x)"
  by (cases l) auto

lemma kmerge_sorted:
  "kmerge rank ls xs \<Longrightarrow> \<forall>l \<in> set ls. sorted_by rank l \<Longrightarrow> sorted_by rank xs"
proof (induction rule: kmerge.induct)
  case (kmerge_emit i ls e es xs)
  have "rank (fst e) \<le> rank (fst x)" if "x \<in> set xs" for x
  proof -
    obtain l where "l \<in> set (ls[i := es])" and xl: "x \<in> set l"
      using \<open>x \<in> set xs\<close> kmerge_set[OF kmerge_emit.hyps(4)] by auto
    then consider "l = es" | "l \<in> set ls"
      by (auto dest!: set_update_subset_insert[THEN subsetD])
    then show ?thesis
    proof cases
      case 1
      have "sorted_by rank (e # es)" using kmerge_emit by (metis nth_mem)
      then show ?thesis using xl 1 by auto
    next
      case 2
      then have "rank (fst e) \<le> rank (fst (hd l))"
        using kmerge_emit.hyps(3) xl by auto
      also have "\<dots> \<le> rank (fst x)"
        using kmerge_emit.prems 2 xl sorted_by_hd_le[of rank l x] by blast
      finally show ?thesis .
    qed
  qed
  moreover have "sorted_by rank xs"
    using kmerge_emit by (intro kmerge_emit.IH sorted_by_update) auto
  ultimately show ?case by simp
qed simp

text \<open>With keys that all differ in rank there is one merge, the sorted list of the entries.\<close>

lemma sorted_by_unique:
  assumes "sorted_by rank xs" and "sorted_by rank ys" and "mset xs = mset ys"
    and "distinct (map (\<lambda>e. rank (fst e)) xs)"
  shows "xs = ys"
proof (rule map_sorted_distinct_set_unique[where f = "\<lambda>e. rank (fst e)"])
  have "set xs = set ys" using assms(3) by (rule mset_eq_setD)
  then show "inj_on (\<lambda>e. rank (fst e)) (set xs \<union> set ys)" "set xs = set ys"
    using assms(4) by (simp_all add: distinct_map)
  have "mset (map (\<lambda>e. rank (fst e)) xs) = mset (map (\<lambda>e. rank (fst e)) ys)"
    using assms(3) by (simp only: mset_map)
  then show "distinct (map (\<lambda>e. rank (fst e)) ys)"
    using assms(4) mset_eq_imp_distinct_iff by blast
qed (use assms in auto)

lemma distinct_ikrank:
  assumes "keys_valid es" and "distinct (map fst es)"
  shows "distinct (map (\<lambda>e. ikrank (fst e)) es)"
proof -
  have "inj_on ikrank (set (map fst es))" using assms(1) by (intro inj_onI ikrank_inject) auto
  with assms(2) distinct_map[of ikrank "map fst es"] show ?thesis by (simp add: comp_def)
qed

lemma kmerge_unique:
  assumes "kmerge rank ls xs" and "kmerge rank ls ys" and "\<forall>l \<in> set ls. sorted_by rank l"
    and "distinct (map (\<lambda>e. rank (fst e)) (concat ls))"
  shows "xs = ys"
proof (rule sorted_by_unique)
  show "sorted_by rank xs" by (rule kmerge_sorted[OF assms(1,3)])
  show "sorted_by rank ys" by (rule kmerge_sorted[OF assms(2,3)])
  show "mset xs = mset ys"
    using kmerge_mset[OF assms(1)] kmerge_mset[OF assms(2)] by simp
  have "mset (map (\<lambda>e. rank (fst e)) xs) = mset (map (\<lambda>e. rank (fst e)) (concat ls))"
    using kmerge_mset[OF assms(1)] by (simp only: mset_map)
  then show "distinct (map (\<lambda>e. rank (fst e)) xs)"
    using assms(4) mset_eq_imp_distinct_iff by blast
qed

end
