(* ===== verification/Loser_Tree.thy ===== *)
theory Loser_Tree
  imports Merger
begin

text \<open>
  Correctness of the loser tree. Nodes are numbered as in the source: node \<open>n\<close> has the children
  \<open>2 n\<close> and \<open>2 n + 1\<close>, leaves are \<open>kp, \<dots>, 2 kp - 1\<close>. The invariant names the winner \<open>W n\<close> of every
  subtree: each internal node stores the loser of the match between the winners of its children.
  Replaying from the leaf of the overall winner keeps it when only that leaf's key has changed.
\<close>

section \<open>Ancestors\<close>

definition anc :: "nat \<Rightarrow> nat \<Rightarrow> bool" where
  "anc a n \<longleftrightarrow> (\<exists>j. n div 2 ^ j = a)"

lemma anc_refl [simp]: "anc n n"
  by (auto simp: anc_def intro: exI[of _ 0])

lemma anc_le: "anc a n \<Longrightarrow> a \<le> n"
  by (auto simp: anc_def)

lemma ancI: "n div 2 ^ j = a \<Longrightarrow> anc a n"
  by (auto simp: anc_def)

lemma ancE: "anc a n \<Longrightarrow> (\<And>j. n div 2 ^ j = a \<Longrightarrow> P) \<Longrightarrow> P"
  by (auto simp: anc_def)

lemma anc_half:
  assumes "anc b n"
  shows "anc (b div 2) n"
proof -
  obtain j where "n div 2 ^ j = b" using assms by (rule ancE)
  then have "n div 2 ^ Suc j = b div 2" by (simp add: power_Suc2 div_mult2_eq del: power_Suc)
  then show ?thesis by (rule ancI)
qed

lemma anc_child: "anc (2 * a) n \<Longrightarrow> anc a n" "anc (2 * a + 1) n \<Longrightarrow> anc a n"
  using anc_half[of "2 * a" n] anc_half[of "2 * a + 1" n] by simp_all

lemma anc_parent: "anc a (n div 2) \<Longrightarrow> anc a n"
  by (erule ancE, rule ancI[of _ "Suc _"]) (simp add: div_mult2_eq)

lemma anc_parent_iff: "anc a n \<longleftrightarrow> a = n \<or> anc a (n div 2)"
proof
  assume "anc a n"
  then obtain j where "n div 2 ^ j = a" by (auto simp: anc_def)
  then show "a = n \<or> anc a (n div 2)"
    by (cases j) (auto simp: anc_def div_mult2_eq)
qed (auto intro: anc_parent)

lemma anc_iff_child: "anc a n \<longleftrightarrow> a = n \<or> anc (2 * a) n \<or> anc (2 * a + 1) n"
proof
  assume "anc a n"
  then obtain j where j: "n div 2 ^ j = a" by (auto simp: anc_def)
  show "a = n \<or> anc (2 * a) n \<or> anc (2 * a + 1) n"
  proof (cases j)
    case (Suc i)
    then have "n div 2 ^ i div 2 = a" using j by (simp add: power_Suc2 div_mult2_eq del: power_Suc)
    then have "n div 2 ^ i = 2 * a \<or> n div 2 ^ i = 2 * a + 1" by linarith
    then show ?thesis by (auto simp: anc_def)
  qed (use j in simp)
qed (auto intro: anc_child simp del: mult_Suc_right)

lemma anc_siblings: "1 \<le> a \<Longrightarrow> anc (2 * a) n \<Longrightarrow> \<not> anc (2 * a + 1) n"
proof (induction n rule: less_induct)
  case (less n)
  show ?case
  proof
    assume odd: "anc (2 * a + 1) n"
    have "n \<noteq> 2 * a" using odd anc_le by fastforce
    then have even': "anc (2 * a) (n div 2)"
      using less.prems(2) anc_parent_iff[of "2 * a" n] by simp
    show False
    proof (cases "n = 2 * a + 1")
      case True
      with even' less.prems(1) anc_le[OF even'] show False by simp
    next
      case False
      then have "anc (2 * a + 1) (n div 2)"
        using odd anc_parent_iff[of "2 * a + 1" n] by simp
      moreover have "n div 2 < n" using even' anc_le[OF even'] less.prems(1) by simp
      ultimately show False using less.IH less.prems(1) even' by blast
    qed
  qed
qed

section \<open>Matches\<close>

text \<open>An exhausted or phantom leaf has no key and loses against every other.\<close>

fun olt :: "'r::linorder option \<Rightarrow> 'r option \<Rightarrow> bool" where
  "olt (Some a) (Some b) = (a < b)"
| "olt (Some a) None = True"
| "olt None b = False"

lemma olt_asym: "olt a b \<Longrightarrow> \<not> olt b a"
  by (cases a; cases b) auto

lemma olt_irrefl [simp]: "\<not> olt a a"
  by (cases a) auto

lemma not_olt_trans: "\<not> olt b a \<Longrightarrow> \<not> olt c b \<Longrightarrow> \<not> olt c a"
  by (cases a; cases b; cases c) auto

definition leaves_ok :: "nat \<Rightarrow> (nat \<Rightarrow> nat) \<Rightarrow> bool" where
  "leaves_ok kp W \<longleftrightarrow> (\<forall>i < kp. W (kp + i) = i)"

definition node_ok :: "(nat \<Rightarrow> 'r::linorder option) \<Rightarrow> nat list \<Rightarrow> (nat \<Rightarrow> nat) \<Rightarrow> nat \<Rightarrow> bool" where
  "node_ok fk t W n \<longleftrightarrow>
     (W n = W (2 * n) \<and> t ! n = W (2 * n + 1) \<or> W n = W (2 * n + 1) \<and> t ! n = W (2 * n)) \<and>
     \<not> olt (fk (t ! n)) (fk (W n))"

definition tree_ok :: "(nat \<Rightarrow> 'r::linorder option) \<Rightarrow> nat \<Rightarrow> nat list \<Rightarrow> (nat \<Rightarrow> nat) \<Rightarrow> bool" where
  "tree_ok fk kp t W \<longleftrightarrow>
     length t = kp \<and> leaves_ok kp W \<and> (\<forall>n. 1 \<le> n \<longrightarrow> n < kp \<longrightarrow> node_ok fk t W n)"

lemma tree_ok_leaf:
  assumes "tree_ok fk kp t W" and "1 \<le> n" and "n < 2 * kp"
  shows "W n < kp \<and> anc n (kp + W n)"
  using assms(2,3)
proof (induction "2 * kp - n" arbitrary: n rule: less_induct)
  case less
  show ?case
  proof (cases "n < kp")
    case True
    then have "node_ok fk t W n" using assms(1) less.prems by (simp add: tree_ok_def)
    moreover have "W (2 * n) < kp \<and> anc (2 * n) (kp + W (2 * n))"
      "W (2 * n + 1) < kp \<and> anc (2 * n + 1) (kp + W (2 * n + 1))"
      using True less by (auto simp del: mult_Suc_right)
    ultimately show ?thesis by (auto simp: node_ok_def intro: anc_child simp del: mult_Suc_right)
  next
    case False
    then obtain i where i: "n = kp + i" "i < kp"
      using less.prems(2) by (metis add_less_cancel_left le_Suc_ex mult_2 not_less)
    then show ?thesis using assms(1) by (simp add: tree_ok_def leaves_ok_def)
  qed
qed

lemma tree_ok_min:
  assumes "tree_ok fk kp t W" and "1 \<le> n" and "n < 2 * kp"
  shows "\<not> olt (fk (W n)) (fk (W 1))"
  using assms(2,3)
proof (induction n rule: less_induct)
  case (less n)
  show ?case
  proof (cases "n = 1")
    case True
    then show ?thesis using olt_asym by blast
  next
    case False
    define p where "p = n div 2"
    have p: "1 \<le> p" "p < n" "p < kp" "n = 2 * p \<or> n = 2 * p + 1"
      using False less.prems by (auto simp: p_def)
    then have "node_ok fk t W p" using assms(1) by (simp add: tree_ok_def)
    then have "\<not> olt (fk (W n)) (fk (W p))"
      using p(4) by (auto simp: node_ok_def dest: olt_asym)
    moreover have "\<not> olt (fk (W p)) (fk (W 1))"
      using p less by simp
    ultimately show ?thesis using not_olt_trans by blast
  qed
qed

lemma tree_ok_winner_path:
  assumes "tree_ok fk kp t W" and "1 \<le> a" and "anc a (kp + W 1)" and "1 \<le> kp"
  shows "W a = W 1"
  using assms(2,3)
proof (induction a rule: less_induct)
  case (less a)
  show ?case
  proof (cases "a = 1")
    case False
    define p where "p = a div 2"
    have leaf: "W 1 < kp" using tree_ok_leaf[OF assms(1), of 1] assms(4) by simp
    have a: "a < 2 * kp" using anc_le[OF less.prems(2)] leaf by simp
    have p: "1 \<le> p" "p < a" "p < kp" "a = 2 * p \<or> a = 2 * p + 1"
      using False less.prems(1) a by (auto simp: p_def)
    have "anc p (kp + W 1)"
      using less.prems(2) anc_half[of a] by (simp add: p_def)
    then have Wp: "W p = W 1" using less.IH p by simp
    have "node_ok fk t W p" using assms(1) p by (simp add: tree_ok_def)
    moreover have "W b \<noteq> W 1" if "b = 2 * p \<or> b = 2 * p + 1" and "b \<noteq> a" for b
    proof
      assume "W b = W 1"
      moreover have "1 \<le> b" "b < 2 * kp" using that p by auto
      ultimately have "anc b (kp + W 1)" using tree_ok_leaf[OF assms(1), of b] by simp
      moreover have "a = 2 * p \<and> b = 2 * p + 1 \<or> a = 2 * p + 1 \<and> b = 2 * p"
        using that p(4) by blast
      ultimately show False
        using anc_siblings[OF p(1), of "kp + W 1"] less.prems(2) by metis
    qed
    ultimately show ?thesis using Wp p(4) unfolding node_ok_def by metis
  qed simp
qed

section \<open>Building\<close>

text \<open>The winner of each subtree when all matches are played afresh.\<close>

function champ :: "(nat \<Rightarrow> 'r::linorder option) \<Rightarrow> nat \<Rightarrow> nat \<Rightarrow> nat" where
  "champ fk kp n =
     (if n \<ge> kp then n - kp
      else if n = 0 then 0
      else let l = champ fk kp (2 * n); r = champ fk kp (2 * n + 1)
           in if olt (fk l) (fk r) then l else r)"
  by pat_completeness auto
termination
  by (relation "measure (\<lambda>(fk, kp, n). kp - n)") auto

declare champ.simps [simp del]

definition runner_up :: "(nat \<Rightarrow> 'r::linorder option) \<Rightarrow> nat \<Rightarrow> nat \<Rightarrow> nat" where
  "runner_up fk kp n =
     (let l = champ fk kp (2 * n); r = champ fk kp (2 * n + 1)
      in if olt (fk l) (fk r) then r else l)"

lemma champ_leaf: "kp \<le> n \<Longrightarrow> champ fk kp n = n - kp"
  by (simp add: champ.simps)

lemma champ_node:
  "1 \<le> n \<Longrightarrow> n < kp \<Longrightarrow> champ fk kp n =
     (if olt (fk (champ fk kp (2 * n))) (fk (champ fk kp (2 * n + 1)))
      then champ fk kp (2 * n) else champ fk kp (2 * n + 1))"
  by (simp add: champ.simps[of fk kp n] Let_def)

lemma build_subtree_correct:
  assumes "\<And>a b. lt_less C S ss a b = Ok (olt (fk a) (fk b))"
    and "length t = kp" and "1 \<le> n"
  shows "\<exists>t'. build_subtree C S ss kp t n = Ok (champ fk kp n, t') \<and> length t' = kp \<and>
           (\<forall>m < kp. t' ! m = (if anc n m then runner_up fk kp m else t ! m))"
  using assms(2,3)
proof (induction "kp - n" arbitrary: n t rule: less_induct)
  case less
  show ?case
  proof (cases "n < kp")
    case False
    moreover have "\<not> anc n m" if "m < kp" for m using False that anc_le[of n m] by auto
    ultimately show ?thesis
      using less.prems by (simp add: build_subtree.simps[of _ _ _ _ _ n] champ_leaf)
  next
    case True
    have smaller: "kp - 2 * n < kp - n" "kp - (2 * n + 1) < kp - n" using True less.prems by auto
    obtain t1 where t1: "build_subtree C S ss kp t (2 * n) = Ok (champ fk kp (2 * n), t1)"
      "length t1 = kp" "\<forall>m < kp. t1 ! m = (if anc (2 * n) m then runner_up fk kp m else t ! m)"
      using less.hyps[OF smaller(1) less.prems(1)] less.prems(2) by auto
    obtain t2 where t2: "build_subtree C S ss kp t1 (2 * n + 1) = Ok (champ fk kp (2 * n + 1), t2)"
      "length t2 = kp" "\<forall>m < kp. t2 ! m = (if anc (2 * n + 1) m then runner_up fk kp m else t1 ! m)"
      using less.hyps[OF smaller(2) t1(2)] by auto
    let ?t3 = "t2[n := runner_up fk kp n]"
    have "build_subtree C S ss kp t n = Ok (champ fk kp n, ?t3)"
      using True less.prems t1(1) t2(1,2)
      by (simp add: build_subtree.simps[of C S ss kp t n] assms(1) champ_node runner_up_def Let_def)
    moreover have "?t3 ! m = (if anc n m then runner_up fk kp m else t ! m)" if "m < kp" for m
      using that t1(3) t2(2,3) anc_iff_child[of n m] by (cases "m = n") auto
    ultimately show ?thesis using t2(2) by auto
  qed
qed

lemma anc_one: "1 \<le> n \<Longrightarrow> anc 1 n"
proof (induction n rule: less_induct)
  case (less n)
  show ?case
  proof (cases "n = 1")
    case False
    then have "anc 1 (n div 2)" using less by simp
    then show ?thesis by (rule anc_parent)
  qed simp
qed

lemma champ_tree_ok:
  assumes "length t = kp" and "\<And>m. m < kp \<Longrightarrow> anc 1 m \<Longrightarrow> t ! m = runner_up fk kp m"
  shows "tree_ok fk kp t (champ fk kp)"
proof -
  have "node_ok fk t (champ fk kp) n" if "1 \<le> n" and "n < kp" for n
    using assms(2)[OF that(2) anc_one[OF that(1)]] champ_node[OF that, of fk]
    by (auto simp: node_ok_def runner_up_def Let_def dest: olt_asym)
  then show ?thesis
    using assms(1) by (simp add: tree_ok_def leaves_ok_def champ_leaf)
qed

section \<open>Replaying\<close>

text \<open>
  While the matches on the path above node \<open>ch\<close> are still to be replayed, the nodes on that path
  store the winners of the subtrees beside it; all other nodes are in order.
\<close>

definition replay_inv ::
    "(nat \<Rightarrow> 'r::linorder option) \<Rightarrow> nat \<Rightarrow> nat list \<Rightarrow> (nat \<Rightarrow> nat) \<Rightarrow> nat \<Rightarrow> bool" where
  "replay_inv fk kp t W ch \<longleftrightarrow>
     length t = kp \<and> leaves_ok kp W \<and>
     (\<forall>n. 1 \<le> n \<longrightarrow> n < kp \<longrightarrow>
        (if anc (2 * n) ch then t ! n = W (2 * n + 1)
         else if anc (2 * n + 1) ch then t ! n = W (2 * n)
         else node_ok fk t W n))"

lemma replay_inv_start:
  assumes ok: "tree_ok fk kp t W" and kp: "1 \<le> kp" and same: "\<And>i. i \<noteq> W 1 \<Longrightarrow> fk' i = fk i"
  shows "replay_inv fk' kp t W (kp + W 1)"
proof -
  let ?leaf = "kp + W 1"
  have leafI: "anc n ?leaf" if "W n = W 1" "1 \<le> n" "n < 2 * kp" for n
    using tree_ok_leaf[OF ok that(2,3)] that(1) by simp
  have "if anc (2 * n) ?leaf then t ! n = W (2 * n + 1)
        else if anc (2 * n + 1) ?leaf then t ! n = W (2 * n) else node_ok fk' t W n"
    if n: "1 \<le> n" "n < kp" for n
  proof -
    have nok: "node_ok fk t W n" using ok n by (simp add: tree_ok_def)
    have l: "W (2 * n) = W 1 \<longleftrightarrow> anc (2 * n) ?leaf"
      using leafI[of "2 * n"] tree_ok_winner_path[OF ok _ _ kp, of "2 * n"] n by auto
    have r: "W (2 * n + 1) = W 1 \<longleftrightarrow> anc (2 * n + 1) ?leaf"
      using leafI[of "2 * n + 1"] tree_ok_winner_path[OF ok _ _ kp, of "2 * n + 1"] n by auto
    have top: "W n = W 1" if "anc (2 * n) ?leaf \<or> anc (2 * n + 1) ?leaf"
      using tree_ok_winner_path[OF ok n(1) _ kp] that anc_child by blast
    have "\<not> (anc (2 * n) ?leaf \<and> anc (2 * n + 1) ?leaf)" using anc_siblings[OF n(1)] by blast
    with nok l r top same show ?thesis
      unfolding node_ok_def by metis
  qed
  then show ?thesis using ok by (simp add: replay_inv_def tree_ok_def)
qed

lemma replay_inv_step:
  assumes inv: "replay_inv fk kp t W ch" and ch: "1 < ch" "ch < 2 * kp"
    and c: "c = (if olt (fk (W ch)) (fk (t ! (ch div 2))) then W ch else t ! (ch div 2))"
    and l: "l = (if olt (fk (W ch)) (fk (t ! (ch div 2))) then t ! (ch div 2) else W ch)"
  shows "replay_inv fk kp (t[ch div 2 := l]) (W(ch div 2 := c)) (ch div 2)"
proof -
  define p where "p = ch div 2"
  have p: "1 \<le> p" "p < kp" "ch = 2 * p \<or> ch = 2 * p + 1" using ch by (auto simp: p_def)
  let ?t = "t[p := l]" and ?W = "W(p := c)"
  have len: "length t = kp" and nodes: "\<And>n. 1 \<le> n \<Longrightarrow> n < kp \<Longrightarrow>
      (if anc (2 * n) ch then t ! n = W (2 * n + 1)
       else if anc (2 * n + 1) ch then t ! n = W (2 * n) else node_ok fk t W n)"
    using inv by (auto simp: replay_inv_def)
  have "if anc (2 * n) p then ?t ! n = ?W (2 * n + 1)
        else if anc (2 * n + 1) p then ?t ! n = ?W (2 * n) else node_ok fk ?t ?W n"
    if n: "1 \<le> n" "n < kp" for n
  proof (cases "n = p")
    case True
    have "\<not> anc (2 * p) p" "\<not> anc (2 * p + 1) p" using p(1) anc_le[of _ p] by fastforce+
    moreover have "\<not> anc (2 * p) ch" if "ch = 2 * p + 1"
      using that anc_siblings[OF p(1), of ch] by auto
    then have "t ! p = (if ch = 2 * p then W (2 * p + 1) else W (2 * p))"
      using nodes[OF p(1,2)] p(3) by auto
    ultimately show ?thesis
      using True p len c l by (auto simp: node_ok_def p_def[symmetric] dest: olt_asym)
  next
    case False
    have up: "anc a ch \<longleftrightarrow> a = ch \<or> anc a p" for a
      using anc_parent_iff[of a ch] by (simp add: p_def)
    have "2 * n \<noteq> ch" "2 * n + 1 \<noteq> ch" using False p(3) by auto
    then have same: "anc (2 * n) ch \<longleftrightarrow> anc (2 * n) p" "anc (2 * n + 1) ch \<longleftrightarrow> anc (2 * n + 1) p"
      using up by auto
    have "2 * n + 1 \<noteq> p" if "anc (2 * n) p" using that anc_siblings[OF n(1), of p] by auto
    moreover have "2 * n \<noteq> p" if "anc (2 * n + 1) p" using that anc_siblings[OF n(1), of p] by auto
    moreover have "2 * n \<noteq> p" "2 * n + 1 \<noteq> p" if "\<not> anc (2 * n) p" "\<not> anc (2 * n + 1) p"
      using that by auto
    ultimately show ?thesis
      using nodes[OF n] same False by (auto simp: node_ok_def)
  qed
  moreover have "leaves_ok kp ?W" using inv p by (simp add: replay_inv_def leaves_ok_def)
  ultimately show ?thesis
    unfolding replay_inv_def p_def[symmetric] using len by (intro conjI allI impI) simp_all
qed

lemma replay_inv_root: "replay_inv fk kp t W 1 \<Longrightarrow> tree_ok fk kp t W"
proof -
  assume inv: "replay_inv fk kp t W 1"
  have "\<not> anc (2 * n) 1" "\<not> anc (2 * n + 1) 1" if "1 \<le> n" for n
    using that anc_le[of _ 1] by fastforce+
  with inv show ?thesis by (simp add: replay_inv_def tree_ok_def)
qed

section \<open>The merger over any source and comparator\<close>

definition front_rank :: "(bytes \<Rightarrow> 'r::linorder) \<Rightarrow> entry list list \<Rightarrow> nat \<Rightarrow> 'r option" where
  "front_rank rank ls i =
     (if i < length ls then (case ls ! i of [] \<Rightarrow> None | e # _ \<Rightarrow> Some (rank (fst e))) else None)"

definition good_sources ::
    "('s \<Rightarrow> bool) \<Rightarrow> ('s \<Rightarrow> entry list) \<Rightarrow> (bytes \<Rightarrow> bool) \<Rightarrow> 's list \<Rightarrow> bool" where
  "good_sources ok rem valid ss \<longleftrightarrow> (\<forall>s \<in> set ss. ok s \<and> (\<forall>e \<in> set (rem s). valid (fst e)))"

definition lt_inv ::
    "('s \<Rightarrow> entry list) \<Rightarrow> (bytes \<Rightarrow> 'r::linorder) \<Rightarrow> 's LoserTreeMerger \<Rightarrow> bool" where
  "lt_inv rem rank m \<longleftrightarrow>
     1 \<le> k_padded m \<and> length (lt_sources m) \<le> k_padded m \<and>
     (\<exists>W. tree_ok (front_rank rank (map rem (lt_sources m))) (k_padded m) (tree m) W \<and> W 1 = winner m)"

lemma front_rank_update:
  "i \<noteq> w \<Longrightarrow> front_rank rank (ls[w := l]) i = front_rank rank ls i"
  by (simp add: front_rank_def)

lemma front_rank_None:
  "front_rank rank ls i = None \<longleftrightarrow> length ls \<le> i \<or> ls ! i = []"
  by (auto simp: front_rank_def not_le split: list.splits)

lemma good_sources_update:
  assumes "good_sources ok rem valid ss" and "ok s" and "\<forall>e \<in> set (rem s). valid (fst e)"
  shows "good_sources ok rem valid (ss[i := s])"
  using assms unfolding good_sources_def by (auto dest!: set_update_subset_insert[THEN subsetD])

lemma next_power_of_two_ge: "n \<le> next_power_of_two n \<and> 1 \<le> next_power_of_two n"
proof (induction n rule: next_power_of_two.induct)
  case (1 n)
  then show ?case by (cases "n \<le> 1") (auto simp: next_power_of_two.simps[of n])
qed

text \<open>A tree in order has a least front at its root; if that front is missing, so are all.\<close>

lemma tree_ok_winner:
  assumes "tree_ok (front_rank rank ls) kp t W" and "length ls \<le> kp" and "l \<in> set ls"
  shows "\<not> olt (front_rank rank [l] 0) (front_rank rank ls (W 1))"
proof -
  obtain i where i: "i < length ls" "ls ! i = l" using assms(3) by (auto simp: in_set_conv_nth)
  have "W (kp + i) = i" using assms(1,2) i by (auto simp: tree_ok_def leaves_ok_def)
  then show ?thesis
    using tree_ok_min[OF assms(1), of "kp + i"] assms(2) i by (simp add: front_rank_def)
qed

lemma tree_ok_exhausted:
  assumes "tree_ok (front_rank rank ls) kp t W" and "length ls \<le> kp"
    and "front_rank rank ls (W 1) = None"
  shows "\<forall>l \<in> set ls. l = []"
proof
  fix l
  assume "l \<in> set ls"
  from tree_ok_winner[OF assms(1,2) this] show "l = []"
    unfolding assms(3) by (cases l) (auto simp: front_rank_def)
qed

lemma tree_ok_least:
  assumes "tree_ok (front_rank rank ls) kp t W" and "length ls \<le> kp"
    and "W 1 < length ls" and "ls ! W 1 = e # es"
  shows "\<forall>l \<in> set ls. l \<noteq> [] \<longrightarrow> rank (fst e) \<le> rank (fst (hd l))"
proof (intro ballI impI)
  fix l
  assume l: "l \<in> set ls" "l \<noteq> []"
  obtain e' es' where le: "l = e' # es'" using l(2) by (meson neq_Nil_conv)
  show "rank (fst e) \<le> rank (fst (hd l))"
    using tree_ok_winner[OF assms(1,2) l(1)] assms(3,4) by (simp add: front_rank_def le)
qed

locale kway = merge_source S wf remaining + key_comparator C valid rank
  for S :: "'s source_ops" and wf and remaining
    and C :: comparator and valid and rank :: "bytes \<Rightarrow> 'r::linorder"
begin

abbreviation good :: "'s list \<Rightarrow> bool" where
  "good \<equiv> good_sources wf remaining valid"

abbreviation fr :: "'s list \<Rightarrow> nat \<Rightarrow> 'r option" where
  "fr ss \<equiv> front_rank rank (map remaining ss)"

lemma good_nth: "good ss \<Longrightarrow> i < length ss \<Longrightarrow> wf (ss ! i)"
  by (simp add: good_sources_def)

lemma good_front: "good ss \<Longrightarrow> i < length ss \<Longrightarrow> remaining (ss ! i) = e # es \<Longrightarrow> valid (fst e)"
  by (metis good_sources_def list.set_intros(1) nth_mem)

lemma peek_at_front:
  assumes "good ss"
  shows "peek_at S ss i =
           Ok (if i < length ss then (case remaining (ss ! i) of [] \<Rightarrow> None | e # _ \<Rightarrow> Some e) else None)"
  using assms by (simp add: peek_at_def peek_remaining good_nth)

lemma lt_less_front:
  assumes "good ss"
  shows "lt_less C S ss a b = Ok (olt (fr ss a) (fr ss b))"
proof -
  have "compare_with_prefix C (fst e) (fst e') = Ok (cmp_of (rank (fst e)) (rank (fst e')))"
    if "i < length ss" "remaining (ss ! i) = e # es" "j < length ss" "remaining (ss ! j) = e' # es'"
    for i j e e' es es'
    using that assms by (intro compare_with_prefix_rank) (auto dest: good_front)
  then show ?thesis
    unfolding lt_less_def peek_at_front[OF assms]
    by (auto simp: front_rank_def split: list.splits)
qed

lemma replay_loop_correct:
  assumes "good ss" and "replay_inv (fr ss) kp t W ch" and "1 < ch" and "ch < 2 * kp"
  shows "\<exists>t' W'. replay_loop C S ss w t (ch div 2) (W ch) = Ok (t', W' 1) \<and> tree_ok (fr ss) kp t' W'"
  using assms(2-4)
proof (induction ch arbitrary: t W rule: less_induct)
  case (less ch)
  let ?n = "ch div 2" and ?fk = "fr ss"
  define lt where "lt = olt (?fk (W ch)) (?fk (t ! ?n))"
  define c where "c = (if lt then W ch else t ! ?n)"
  define t1 where "t1 = t[?n := if lt then t ! ?n else W ch]"
  have n: "1 \<le> ?n" "?n < kp" "?n < ch" using less.prems by auto
  have len: "length t = kp" using less.prems(1) by (simp add: replay_inv_def)
  have inv: "replay_inv ?fk kp t1 (W(?n := c)) ?n"
    unfolding t1_def c_def lt_def by (rule replay_inv_step[OF less.prems]) (auto)
  have step: "replay_loop C S ss w t ?n (W ch) =
      (if ?n = 1 then Ok (t1, c) else replay_loop C S ss w t1 (?n div 2) c)"
    using n len lt_less_front[OF assms(1)]
    by (simp add: replay_loop_simps[of C S ss w t ?n] t1_def c_def lt_def)
  show ?case
  proof (cases "?n = 1")
    case True
    then have "tree_ok ?fk kp t1 (W(?n := c))" using inv by (simp add: replay_inv_root)
    with True step show ?thesis by (auto intro!: exI[of _ "W(?n := c)"])
  next
    case False
    then show ?thesis using less.IH[OF n(3) inv] n step by simp
  qed
qed

lemma replay_from_leaf_correct:
  assumes inv: "lt_inv remaining rank m" and w: "winner m < length (lt_sources m)"
    and m1: "m1 = m\<lparr>lt_sources := (lt_sources m)[winner m := s']\<rparr>" and good: "good (lt_sources m1)"
  shows "\<exists>m'. replay_from_leaf C S m1 (winner m) = Ok m' \<and> lt_sources m' = lt_sources m1 \<and>
           lt_inv remaining rank m'"
proof -
  obtain W where ok: "tree_ok (fr (lt_sources m)) (k_padded m) (tree m) W" and W: "W 1 = winner m"
    and kp: "1 \<le> k_padded m" "length (lt_sources m) \<le> k_padded m"
    using inv by (auto simp: lt_inv_def)
  let ?ch = "k_padded m + winner m"
  have leaf: "W 1 < k_padded m" using tree_ok_leaf[OF ok, of 1] kp(1) by simp
  have start: "replay_inv (fr (lt_sources m1)) (k_padded m) (tree m) W ?ch"
    using replay_inv_start[OF ok kp(1), of "fr (lt_sources m1)"] W m1
    by (simp add: map_update front_rank_update)
  have Wch: "W ?ch = winner m"
    using ok leaf W by (simp add: tree_ok_def leaves_ok_def)
  show ?thesis
  proof (cases "?ch = 1")
    case True
    then have "k_padded m = 1" "winner m = 0" using kp by auto
    moreover from True start have "tree_ok (fr (lt_sources m1)) (k_padded m) (tree m) W"
      by (simp add: replay_inv_root)
    ultimately show ?thesis
      using m1 kp W by (auto simp: replay_from_leaf_eq replay_loop_simps lt_inv_def)
  next
    case False
    then have "1 < ?ch" "?ch < 2 * k_padded m" using kp leaf W by auto
    from replay_loop_correct[OF good start this, of "winner m1"] show ?thesis
      using m1 kp Wch by (auto simp: replay_from_leaf_eq lt_inv_def add.commute)
  qed
qed

lemma loser_tree_new_correct:
  assumes "good ss"
  shows "\<exists>m. loser_tree_new C S ss = Ok m \<and> lt_sources m = ss \<and> lt_inv remaining rank m"
proof -
  define kp where "kp = next_power_of_two (max (length ss) 1)"
  have kp: "1 \<le> kp" "length ss \<le> kp"
    using next_power_of_two_ge[of "max (length ss) 1"] by (auto simp: kp_def)
  obtain t where t: "build_subtree C S ss kp (replicate kp NONE_YET) 1 = Ok (champ (fr ss) kp 1, t)"
      "length t = kp" "\<And>m. m < kp \<Longrightarrow> anc 1 m \<Longrightarrow> t ! m = runner_up (fr ss) kp m"
    using build_subtree_correct[OF lt_less_front[OF assms], of "replicate kp NONE_YET" kp 1] by auto
  have "tree_ok (fr ss) kp t (champ (fr ss) kp)"
    using t(2,3) by (rule champ_tree_ok)
  then show ?thesis
    unfolding loser_tree_new_def Let_def kp_def[symmetric]
    using t(1) kp by (auto simp: lt_build_def lt_inv_def)
qed

lemma loser_tree_step_correct:
  assumes good: "good (lt_sources m)" and inv: "lt_inv remaining rank m"
  shows "(\<forall>s \<in> set (lt_sources m). remaining s = []) \<and> loser_tree_step C S f st m = Ok None \<or>
    (\<exists>i k v es m'. loser_tree_step C S f st m = Ok (Some (f st k v, m')) \<and>
       i < length (lt_sources m) \<and> remaining (lt_sources m ! i) = (k, v) # es \<and>
       (\<forall>l \<in> set (map remaining (lt_sources m)). l \<noteq> [] \<longrightarrow> rank k \<le> rank (fst (hd l))) \<and>
       map remaining (lt_sources m') = (map remaining (lt_sources m))[i := es] \<and>
       good (lt_sources m') \<and> lt_inv remaining rank m')"
proof -
  let ?ss = "lt_sources m" and ?w = "winner m"
  let ?ls = "map remaining ?ss"
  obtain W where ok: "tree_ok (front_rank rank ?ls) (k_padded m) (tree m) W" and W: "W 1 = ?w"
    and kp: "length ?ls \<le> k_padded m"
    using inv by (auto simp: lt_inv_def)
  show ?thesis
  proof (cases "front_rank rank ?ls ?w")
    case None
    then have "\<forall>s \<in> set ?ss. remaining s = []" using tree_ok_exhausted[OF ok kp] W by simp
    moreover have "loser_tree_step C S f st m = Ok None"
      using None good peek_empty[OF good_nth]
      by (cases "?w < length ?ss") (auto simp: loser_tree_step_eq front_rank_None)
    ultimately show ?thesis by simp
  next
    case (Some r)
    then obtain k v es where w: "?w < length ?ss" and rem: "remaining (?ss ! ?w) = (k, v) # es"
      by (auto simp: front_rank_def split: if_splits list.splits)
    define m1 where "m1 = m\<lparr>lt_sources := ?ss[?w := advance S (?ss ! ?w)]\<rparr>"
    have wf: "wf (?ss ! ?w)" using good_nth[OF good w] .
    note s' = advance_Cons[OF wf rem]
    have "\<forall>e \<in> set (remaining (?ss ! ?w)). valid (fst e)" using good w by (auto simp: good_sources_def)
    then have g1: "good (lt_sources m1)" using good s' rem by (auto simp: m1_def intro!: good_sources_update)
    obtain m2 where m2: "replay_from_leaf C S m1 ?w = Ok m2" "lt_sources m2 = lt_sources m1"
        "lt_inv remaining rank m2"
      using replay_from_leaf_correct[OF inv w m1_def g1] by auto
    have "loser_tree_step C S f st m = Ok (Some (f st k v, m2))"
      using w peek_Cons[OF wf rem] m2(1) by (simp add: loser_tree_step_eq Let_def m1_def)
    moreover have "map remaining (lt_sources m2) = ?ls[?w := es]"
      using m2(2) s' by (simp add: m1_def map_update)
    moreover have "\<forall>l \<in> set ?ls. l \<noteq> [] \<longrightarrow> rank k \<le> rank (fst (hd l))"
      using w rem tree_ok_least[OF ok kp, of "(k, v)" es] W by auto
    ultimately show ?thesis using w rem g1 m2(2,3) by metis
  qed
qed

lemma loser_tree_run_correct:
  assumes "good (lt_sources m)" and "lt_inv remaining rank m"
  shows "\<exists>xs m'. loser_tree_run C S f st m = Some (Ok (feed f st xs, m')) \<and>
           kmerge rank (map remaining (lt_sources m)) xs \<and> (\<forall>s \<in> set (lt_sources m'). remaining s = [])"
  using assms
proof (induction "length (concat (map remaining (lt_sources m)))" arbitrary: m st rule: less_induct)
  case less
  let ?ls = "map remaining (lt_sources m)"
  note run = loser_tree_run_step[of C S f st m]
  consider "\<forall>s \<in> set (lt_sources m). remaining s = []" "loser_tree_step C S f st m = Ok None"
    | i k v es m' where "loser_tree_step C S f st m = Ok (Some (f st k v, m'))"
        "i < length ?ls" "?ls ! i = (k, v) # es" "\<forall>l \<in> set ?ls. l \<noteq> [] \<longrightarrow> rank k \<le> rank (fst (hd l))"
        "map remaining (lt_sources m') = ?ls[i := es]" "good (lt_sources m')" "lt_inv remaining rank m'"
    using loser_tree_step_correct[OF less.prems, of f st] by auto
  then show ?case
  proof cases
    case 1
    then show ?thesis using run by (auto intro!: exI[of _ "[]"] kmerge_done)
  next
    case 2
    have "length (concat (map remaining (lt_sources m'))) < length (concat ?ls)"
      unfolding 2(5) using 2(2,3) by (rule concat_update_shorter)
    from less.hyps[OF this 2(6,7), of "f st k v"] obtain xs m'' where IH:
        "loser_tree_run C S f (f st k v) m' = Some (Ok (feed f (f st k v) xs, m''))"
        "kmerge rank (?ls[i := es]) xs" "\<forall>s \<in> set (lt_sources m''). remaining s = []"
      unfolding 2(5) by blast
    have "kmerge rank ?ls ((k, v) # xs)" using 2(2-4) IH(2) by (intro kmerge_emit[of i]) auto
    with IH(1,3) 2(1) run show ?thesis by (auto intro!: exI[of _ "(k, v) # xs"])
  qed
qed

end

end
