(* ===== verification/Heap_Merger.thy ===== *)
theory Heap_Merger
  imports Loser_Tree
begin

text \<open>
  Correctness of the heap merger, and what the two mergers have in common. The heap holds one entry
  for every source that is not exhausted, with the key of its front, and its order is the reversed
  order of the keys, so that the laws of \<open>binary_heap\<close> make \<open>pop\<close> return an entry with a least key.
\<close>

section \<open>The heap\<close>

definition heap_ok :: "entry list list \<Rightarrow> HeapEntry list \<Rightarrow> bool" where
  "heap_ok ls h \<longleftrightarrow>
     distinct (map source_idx h) \<and>
     (\<forall>e \<in> set h. source_idx e < length ls \<and> (\<exists>v es. ls ! source_idx e = (heap_key e, v) # es)) \<and>
     (\<forall>i < length ls. ls ! i \<noteq> [] \<longrightarrow> i \<in> source_idx ` set h)"

lemma heap_ok_remove:
  assumes "heap_ok ls h" and "mset h = add_mset e rest'" and "rest' = mset rest"
  shows "\<forall>x \<in> set rest. source_idx x \<noteq> source_idx e" and "set rest \<subseteq> set h" and "e \<in> set h"
    and "distinct (map source_idx rest)"
proof -
  have m: "mset (map source_idx h) = mset (map source_idx (e # rest))"
    using assms(2,3) by (simp add: mset_map)
  have "distinct (map source_idx (e # rest))"
    using assms(1) mset_eq_imp_distinct_iff[OF m] by (simp add: heap_ok_def)
  then show "\<forall>x \<in> set rest. source_idx x \<noteq> source_idx e" "distinct (map source_idx rest)"
    by (auto simp: image_iff)
  have "set_mset (mset h) = insert e (set rest)" using assms(2,3) by simp
  then show "set rest \<subseteq> set h" "e \<in> set h" by auto
qed

lemma heap_ok_mset: "mset h = mset h' \<Longrightarrow> heap_ok ls h = heap_ok ls h'"
  unfolding heap_ok_def by (metis mset_eq_imp_distinct_iff mset_map set_mset_mset)

lemma heap_ok_empty: "heap_ok ls [] \<Longrightarrow> \<forall>l \<in> set ls. l = []"
  by (auto simp: heap_ok_def in_set_conv_nth)

text \<open>Taking an entry out and putting the next key of its source back keeps the heap in order.\<close>

lemma heap_ok_step:
  assumes ok: "heap_ok ls h" and pop: "mset h = add_mset e (mset rest)"
    and front: "ls ! source_idx e = (heap_key e, v) # es"
  shows "heap_ok (ls[source_idx e := es])
           (case es of [] \<Rightarrow> rest
            | (k2, _) # _ \<Rightarrow> \<lparr>source_idx = source_idx e, heap_key = k2\<rparr> # rest)"
    (is "heap_ok ?ls ?h")
proof -
  note rm = heap_ok_remove[OF ok pop refl]
  have seth: "set h = insert e (set rest)"
    using pop by (metis set_mset_add_mset_insert set_mset_mset)
  have i: "source_idx e < length ls" using ok rm(3) by (simp add: heap_ok_def)
  have keep: "source_idx x < length ls \<and> (\<exists>v es. ?ls ! source_idx x = (heap_key x, v) # es)"
    if "x \<in> set rest" for x
  proof -
    have "source_idx x \<noteq> source_idx e" "x \<in> set h" using that rm(1,2) by auto
    then show ?thesis using ok by (simp add: heap_ok_def)
  qed
  have cover: "j \<in> source_idx ` set rest" if "j < length ls" "?ls ! j \<noteq> []" "j \<noteq> source_idx e" for j
    using that ok seth by (auto simp: heap_ok_def)
  show ?thesis
  proof (cases es)
    case Nil
    have "i \<in> source_idx ` set rest" if "i < length ls" "?ls ! i \<noteq> []" for i
      using that cover[of i] Nil by (cases "i = source_idx e") auto
    with Nil show ?thesis using rm(4) keep by (simp add: heap_ok_def)
  next
    case (Cons p ps)
    obtain k2 v2 where p: "p = (k2, v2)" by (cases p)
    have "i \<in> insert (source_idx e) (source_idx ` set rest)" if "i < length ls" "?ls ! i \<noteq> []" for i
      using that cover[of i] by blast
    then show ?thesis
      using rm(1,4) keep i Cons p
      by (auto simp: heap_ok_def image_iff)
  qed
qed

lemma heap_entry_le_cmp: "heap_entry_le C a b = obind (heap_entry_cmp C a b) (\<lambda>c. Ok (c \<noteq> Greater))"
proof -
  have "(Some c = Some Less \<or> Some c = Some Equal) = (c \<noteq> Greater)" for c by (cases c) simp_all
  then show ?thesis
    by (cases "heap_entry_cmp C a b") (simp_all add: heap_entry_le_def heap_entry_partial_cmp_def)
qed

sublocale kway \<subseteq> hq: binary_heap "heap_entry_le C" "\<lambda>e. valid (heap_key e)"
    "\<lambda>a b. rank (heap_key b) \<le> rank (heap_key a)"
  by unfold_locales
    (auto simp: heap_entry_le_cmp heap_entry_cmp_def compare_with_prefix_rank not_less)

context kway
begin

lemma all_valid:
  assumes "good ss" and "heap_ok (map remaining ss) h"
  shows "\<forall>e \<in> set h. valid (heap_key e)"
proof
  fix e assume "e \<in> set h"
  then obtain v es where "source_idx e < length ss" "remaining (ss ! source_idx e) = (heap_key e, v) # es"
    using assms(2) by (auto simp: heap_ok_def)
  then show "valid (heap_key e)" using good_front[OF assms(1)] by fastforce
qed

text \<open>Pushing the front of a source that has no entry in the heap.\<close>

lemma heap_push_ok:
  assumes "hq.is_heap h" and "\<forall>e \<in> set h. valid (heap_key e)" and "good ss"
    and "heap_ok (map remaining ss) (x # h)"
  shows "\<exists>h'. heap_push (heap_entry_le C) h x = Ok h' \<and> hq.is_heap h' \<and> heap_ok (map remaining ss) h'"
proof -
  have "valid (heap_key x)" using all_valid[OF assms(3,4)] by simp
  then obtain h' where "heap_push (heap_entry_le C) h x = Ok h'" "hq.is_heap h'" "mset h' = mset (x # h)"
    using hq.push_correct[OF assms(1), of x] assms(2) by auto
  with assms(4) heap_ok_mset[of h' "x # h"] show ?thesis by blast
qed

lemma heap_init_correct:
  assumes "good (pre @ ss)" and "heap_ok (map remaining pre) h" and "hq.is_heap h"
  shows "\<exists>h'. heap_init C S (length pre) ss h = Ok h' \<and> hq.is_heap h' \<and>
           heap_ok (map remaining (pre @ ss)) h'"
  using assms
proof (induction ss arbitrary: pre h)
  case (Cons s ss)
  have good: "good ((pre @ [s]) @ ss)" "good (pre @ [s])" "good pre" and wf: "wf s"
    using Cons.prems(1) by (auto simp: good_sources_def)
  show ?case
  proof (cases "remaining s")
    case Nil
    then have "heap_ok (map remaining (pre @ [s])) h"
      using Cons.prems(2) by (auto simp: heap_ok_def nth_append less_Suc_eq)
    from Cons.IH[OF good(1) this Cons.prems(3)] Nil wf show ?thesis by (simp add: peek_remaining)
  next
    case front: (Cons e es)
    obtain k v where e: "e = (k, v)" by (cases e)
    let ?x = "\<lparr>source_idx = length pre, heap_key = k\<rparr>"
    have "heap_ok (map remaining (pre @ [s])) (?x # h)"
      using Cons.prems(2) front e by (auto simp: heap_ok_def nth_append less_Suc_eq)
    from heap_push_ok[OF Cons.prems(3) all_valid[OF good(3) Cons.prems(2)] good(2) this]
    obtain h' where h': "heap_push (heap_entry_le C) h ?x = Ok h'" "hq.is_heap h'"
        "heap_ok (map remaining (pre @ [s])) h'" by blast
    from Cons.IH[OF good(1) h'(3,2)] h'(1) front e wf show ?thesis by (simp add: peek_remaining)
  qed
qed auto

text \<open>The invariant of the loop of \<open>run\<close>.\<close>

definition hm_inv :: "'s HeapMerger \<Rightarrow> bool" where
  "hm_inv m \<longleftrightarrow> good (hm_sources m) \<and> heap_ok (map remaining (hm_sources m)) (heap m) \<and> hq.is_heap (heap m)"

lemma hm_inv_fronts:
  assumes "hm_inv m" and "e \<in> set (heap m)"
  shows "source_idx e < length (hm_sources m)"
    and "\<exists>v es. remaining (hm_sources m ! source_idx e) = (heap_key e, v) # es"
  using assms by (auto simp: hm_inv_def heap_ok_def)

lemma hm_inv_pop:
  assumes inv: "hm_inv m" and ne: "heap m \<noteq> []"
  shows "\<exists>e h. heap_pop (heap_entry_le C) (heap m) = Ok (Some (e, h)) \<and> hq.is_heap h \<and>
    mset (heap m) = add_mset e (mset h) \<and> e \<in> set (heap m) \<and>
    (\<forall>l \<in> set (map remaining (hm_sources m)). l \<noteq> [] \<longrightarrow> rank (heap_key e) \<le> rank (fst (hd l)))"
proof -
  let ?ls = "map remaining (hm_sources m)"
  have ok: "heap_ok ?ls (heap m)" and "hq.is_heap (heap m)" and "good (hm_sources m)"
    using inv by (simp_all add: hm_inv_def)
  from hq.pop_correct[OF this(2) all_valid[OF this(3,1)] ne] obtain e h where
      pop: "heap_pop (heap_entry_le C) (heap m) = Ok (Some (e, h))" "hq.is_heap h"
      "mset (heap m) = add_mset e (mset h)"
      and least: "\<forall>x \<in> set (heap m). rank (heap_key e) \<le> rank (heap_key x)" by blast
  have "rank (heap_key e) \<le> rank (fst (hd l))" if l: "l \<in> set ?ls" "l \<noteq> []" for l
  proof -
    obtain j where j: "j < length ?ls" "?ls ! j = l" using l(1) by (auto simp: in_set_conv_nth)
    then have "j \<in> source_idx ` set (heap m)" using ok l(2) by (simp add: heap_ok_def)
    then obtain x where x: "x \<in> set (heap m)" "source_idx x = j" by blast
    then have "heap_key x = fst (hd l)" using hm_inv_fronts(2)[OF inv x(1)] j by auto
    then show ?thesis using least x(1) by auto
  qed
  then show ?thesis using pop heap_ok_remove(3)[OF ok pop(3) refl] by blast
qed

lemma heap_merger_step_correct:
  assumes inv: "hm_inv m"
  shows "heap m = [] \<and> heap_merger_step C S f st m = Ok None \<or>
    (\<exists>i k v es m'. heap_merger_step C S f st m = Ok (Some (f st k v, m')) \<and>
       i < length (hm_sources m) \<and> remaining (hm_sources m ! i) = (k, v) # es \<and>
       (\<forall>l \<in> set (map remaining (hm_sources m)). l \<noteq> [] \<longrightarrow> rank k \<le> rank (fst (hd l))) \<and>
       map remaining (hm_sources m') = (map remaining (hm_sources m))[i := es] \<and> hm_inv m')"
proof (cases "heap m = []")
  case True
  then show ?thesis by (simp add: heap_merger_step_def heap_pop_def)
next
  case False
  let ?ss = "hm_sources m"
  let ?ls = "map remaining ?ss"
  have good: "good ?ss" and ok: "heap_ok ?ls (heap m)" using inv by (simp_all add: hm_inv_def)
  obtain e h where pop: "heap_pop (heap_entry_le C) (heap m) = Ok (Some (e, h))" "hq.is_heap h"
      and ms: "mset (heap m) = add_mset e (mset h)" and e: "e \<in> set (heap m)"
      and least: "\<forall>l \<in> set ?ls. l \<noteq> [] \<longrightarrow> rank (heap_key e) \<le> rank (fst (hd l))"
    using hm_inv_pop[OF inv False] by blast
  define i where "i = source_idx e"
  define k where "k = heap_key e"
  obtain v es where i: "i < length ?ss" and front: "remaining (?ss ! i) = (k, v) # es"
    using hm_inv_fronts[OF inv e] by (auto simp: i_def k_def)
  define s' where "s' = advance S (?ss ! i)"
  have wf: "wf (?ss ! i)" using good i by (rule good_nth)
  have s': "remaining s' = es" "wf s'" using advance_Cons[OF wf front] by (auto simp: s'_def)
  have ls': "map remaining (?ss[i := s']) = ?ls[i := es]" by (simp add: map_update s'(1))
  have "\<forall>x \<in> set (remaining (?ss ! i)). valid (fst x)" using good i by (auto simp: good_sources_def)
  then have g': "good (?ss[i := s'])" using good s' front by (auto intro!: good_sources_update)
  have ok': "heap_ok (map remaining (?ss[i := s'])) (case es of [] \<Rightarrow> h
      | (k2, _) # _ \<Rightarrow> \<lparr>source_idx = i, heap_key = k2\<rparr> # h)"
    using heap_ok_step[OF ok ms, of v es] i front unfolding i_def k_def
    by (simp add: map_update s'(1))
  have vh: "\<forall>x \<in> set h. valid (heap_key x)"
    using all_valid[OF good ok] heap_ok_remove(2)[OF ok ms refl] by blast
  obtain h' where h': "(case es of [] \<Rightarrow> Ok h
      | (k2, _) # _ \<Rightarrow> heap_push (heap_entry_le C) h \<lparr>source_idx = i, heap_key = k2\<rparr>) = Ok h'"
      "hq.is_heap h'" "heap_ok (map remaining (?ss[i := s'])) h'"
    using ok' pop(2) heap_push_ok[OF pop(2) vh g'] by (cases es) (auto split: prod.splits)
  have "heap_merger_step C S f st m = Ok (Some (f st k v, \<lparr>hm_sources = ?ss[i := s'], heap = h'\<rparr>))"
    using i front pop(1) peek_Cons[OF wf front] s' peek_remaining[OF s'(2)] h'(1)
    by (simp add: heap_merger_step_def i_def[symmetric] Let_def s'_def[symmetric]
        split: list.splits prod.splits)
  moreover have "hm_inv \<lparr>hm_sources = ?ss[i := s'], heap = h'\<rparr>" using g' h' by (simp add: hm_inv_def)
  moreover have "\<forall>l \<in> set ?ls. l \<noteq> [] \<longrightarrow> rank k \<le> rank (fst (hd l))" using least by (simp add: k_def)
  ultimately show ?thesis using i front ls' by (metis HeapMerger.select_convs(1))
qed

lemma heap_merger_run_correct:
  assumes "hm_inv m"
  shows "\<exists>xs m'. heap_merger_run C S f st m = Some (Ok (feed f st xs, m')) \<and>
           kmerge rank (map remaining (hm_sources m)) xs"
  using assms
proof (induction "length (concat (map remaining (hm_sources m)))" arbitrary: m st rule: less_induct)
  case less
  let ?ls = "map remaining (hm_sources m)"
  consider "heap m = []" "heap_merger_step C S f st m = Ok None"
    | i k v es m' where "heap_merger_step C S f st m = Ok (Some (f st k v, m'))"
       "i < length (hm_sources m)" "remaining (hm_sources m ! i) = (k, v) # es"
       "\<forall>l \<in> set ?ls. l \<noteq> [] \<longrightarrow> rank k \<le> rank (fst (hd l))"
       "map remaining (hm_sources m') = ?ls[i := es]"
       "hm_inv m'"
    using heap_merger_step_correct[OF less.prems, of f st] by blast
  then show ?case
  proof cases
    case 1
    then have "kmerge rank ?ls []" using less.prems heap_ok_empty by (intro kmerge_done) (auto simp: hm_inv_def)
    with 1 show ?thesis by (auto simp: heap_merger_run.simps[of C S f st m] intro!: exI[of _ "[]"])
  next
    case 2
    have "length (concat (map remaining (hm_sources m'))) < length (concat ?ls)"
      unfolding 2(5) using 2(2,3) by (intro concat_update_shorter) auto
    from less.hyps[OF this 2(6), of "f st k v"] obtain xs m'' where IH:
        "heap_merger_run C S f (f st k v) m' = Some (Ok (feed f (f st k v) xs, m''))"
        "kmerge rank (?ls[i := es]) xs"
      unfolding 2(5) by blast
    have "kmerge rank ?ls ((k, v) # xs)"
      using 2 IH(2) by (intro kmerge_emit[of i]) auto
    with 2(1) IH(1) show ?thesis
      by (auto simp: heap_merger_run.simps[of C S f st m] intro!: exI[of _ "(k, v) # xs"])
  qed
qed

end

section \<open>The mergers on the sources of the library\<close>

interpretation arena_ik: kway arena_source_ops wf_arena arena_remaining
    InternalKeyComparator valid_key ikrank
  by unfold_locales

interpretation vec_ik: kway vec_source_ops "\<lambda>_. True" vec_remaining
    InternalKeyComparator valid_key ikrank
  by unfold_locales

interpretation vec_bw: kway vec_source_ops "\<lambda>_. True" vec_remaining
    BytewiseComparator "\<lambda>_. True" "\<lambda>k. k"
  by unfold_locales

text \<open>What \<open>new\<close> followed by \<open>run\<close> does, for either merger.\<close>

definition loser_tree_merge ::
    "comparator \<Rightarrow> 's source_ops \<Rightarrow> ('st \<Rightarrow> bytes \<Rightarrow> bytes \<Rightarrow> 'st) \<Rightarrow> 'st \<Rightarrow> 's list \<Rightarrow> 'st outcome option" where
  "loser_tree_merge C S f st sources =
     (case loser_tree_new C S sources of
        Panic \<Rightarrow> Some Panic
      | Err e \<Rightarrow> Some (Err e)
      | Ok m \<Rightarrow> map_option (\<lambda>r. obind r (\<lambda>(st', m'). Ok st')) (loser_tree_run C S f st m))"

definition heap_merge ::
    "comparator \<Rightarrow> 's source_ops \<Rightarrow> ('st \<Rightarrow> bytes \<Rightarrow> bytes \<Rightarrow> 'st) \<Rightarrow> 'st \<Rightarrow> 's list \<Rightarrow> 'st outcome option" where
  "heap_merge C S f st sources =
     (case heap_merger_new C S sources of
        Panic \<Rightarrow> Some Panic
      | Err e \<Rightarrow> Some (Err e)
      | Ok m \<Rightarrow> map_option (\<lambda>r. obind r (\<lambda>(st', m'). Ok st')) (heap_merger_run C S f st m))"

context kway
begin

lemma loser_tree_merge_kmerge:
  assumes "good ss"
  shows "\<exists>xs. loser_tree_merge C S f st ss = Some (Ok (feed f st xs)) \<and> kmerge rank (map remaining ss) xs"
proof -
  obtain m where m: "loser_tree_new C S ss = Ok m" "lt_sources m = ss" "lt_inv remaining rank m"
    using loser_tree_new_correct[OF assms] by auto
  from loser_tree_run_correct[of m f st] m assms show ?thesis
    by (auto simp: loser_tree_merge_def)
qed

lemma heap_merge_kmerge:
  assumes "good ss"
  shows "\<exists>xs. heap_merge C S f st ss = Some (Ok (feed f st xs)) \<and> kmerge rank (map remaining ss) xs"
proof -
  have "heap_ok (map remaining []) []" by (simp add: heap_ok_def)
  with heap_init_correct[of "[]" ss "[]"] assms obtain h where
      "heap_init C S 0 ss [] = Ok h" "heap_ok (map remaining ss) h" "hq.is_heap h" by auto
  then show ?thesis
    using heap_merger_run_correct[of "\<lparr>hm_sources = ss, heap = h\<rparr>" f st] assms
    by (auto simp: heap_merge_def heap_merger_new_def hm_inv_def)
qed

end

lemma arena_good_sources:
  "good_sources wf_arena arena_remaining valid_key ss \<longleftrightarrow>
     (\<forall>s \<in> set ss. wf_arena s \<and> keys_valid (arena_remaining s))"
  by (simp add: good_sources_def)

lemma arena_merge_sorted:
  assumes "\<forall>s \<in> set ss. wf_arena s \<and> keys_valid (arena_remaining s) \<and> ik_sorted (arena_remaining s)"
  shows "\<exists>xs. loser_tree_merge InternalKeyComparator arena_source_ops f st ss = Some (Ok (feed f st xs)) \<and>
              ik_sorted xs \<and> mset xs = mset (concat (map arena_remaining ss))"
proof -
  have "good_sources wf_arena arena_remaining valid_key ss"
    using assms by (simp add: arena_good_sources)
  from arena_ik.loser_tree_merge_kmerge[OF this, of f st] obtain xs where
      "loser_tree_merge InternalKeyComparator arena_source_ops f st ss = Some (Ok (feed f st xs))"
      and xs: "kmerge ikrank (map arena_remaining ss) xs" by blast
  moreover have "ik_sorted xs" using assms by (intro kmerge_sorted[OF xs]) simp
  ultimately show ?thesis using kmerge_mset[OF xs] by blast
qed

section \<open>Properties\<close>

text \<open>
  C8. The loser tree merges: on sorted arena sources, any number of them, \<open>new\<close> and \<open>run\<close> end without
  a panic, and the callback has been called exactly once for every entry of every source, in
  internal-key order.
\<close>

theorem loser_tree_sorts:
  assumes "\<forall>s \<in> set ss. wf_arena s \<and> keys_valid (arena_remaining s) \<and> ik_sorted (arena_remaining s)"
  shows "\<exists>xs. loser_tree_merge InternalKeyComparator arena_source_ops f st ss = Some (Ok (feed f st xs)) \<and>
              ik_sorted xs \<and> mset xs = mset (concat (map arena_remaining ss))"
  by (rule arena_merge_sorted[OF assms])

theorem loser_tree_sorts_witness:
  "\<exists>xs. loser_tree_merge InternalKeyComparator arena_source_ops (\<lambda>st k v. st @ [(k, v)]) []
          [arena_of [([97, 1, 5, 0, 0, 0, 0, 0, 0], [1])],
           arena_of [([97, 1, 3, 0, 0, 0, 0, 0, 0], [2]), ([98, 1, 0, 0, 0, 0, 0, 0, 0], [])]] =
          Some (Ok (feed (\<lambda>st k v. st @ [(k, v)]) [] xs)) \<and> ik_sorted xs"
  using loser_tree_sorts[of
      "[arena_of [([97, 1, 5, 0, 0, 0, 0, 0, 0], [1])],
        arena_of [([97, 1, 3, 0, 0, 0, 0, 0, 0], [2]), ([98, 1, 0, 0, 0, 0, 0, 0, 0], [])]]"
      "\<lambda>st k v. st @ [(k, v)]" "[]"]
    arena_of_correct[of "[([97, 1, 5, 0, 0, 0, 0, 0, 0], [1])]"]
    arena_of_correct[of "[([97, 1, 3, 0, 0, 0, 0, 0, 0], [2]), ([98, 1, 0, 0, 0, 0, 0, 0, 0], [])]"]
  by (auto simp: ikrank_le ukey_def)

text \<open>
  C15. The heap and the loser tree are interchangeable: on sorted sources in which no key occurs twice
  they make the same calls of the callback in the same order, and both return.
\<close>

theorem mergers_agree:
  assumes "\<forall>s \<in> set ss. wf_arena s \<and> keys_valid (arena_remaining s) \<and> ik_sorted (arena_remaining s)"
    and "distinct (map fst (concat (map arena_remaining ss)))"
  shows "loser_tree_merge InternalKeyComparator arena_source_ops f st ss =
           heap_merge InternalKeyComparator arena_source_ops f st ss \<and>
         (\<exists>st'. heap_merge InternalKeyComparator arena_source_ops f st ss = Some (Ok st'))"
proof -
  have good: "good_sources wf_arena arena_remaining valid_key ss"
    using assms(1) by (simp add: arena_good_sources)
  obtain xs where xs: "loser_tree_merge InternalKeyComparator arena_source_ops f st ss = Some (Ok (feed f st xs))"
      "kmerge ikrank (map arena_remaining ss) xs"
    using arena_ik.loser_tree_merge_kmerge[OF good, of f st] by blast
  obtain ys where ys: "heap_merge InternalKeyComparator arena_source_ops f st ss = Some (Ok (feed f st ys))"
      "kmerge ikrank (map arena_remaining ss) ys"
    using arena_ik.heap_merge_kmerge[OF good, of f st] by blast
  have "distinct (map (\<lambda>e. ikrank (fst e)) (concat (map arena_remaining ss)))"
    using assms by (intro distinct_ikrank) auto
  then have "xs = ys"
    using assms(1) by (intro kmerge_unique[OF xs(2) ys(2)]) auto
  with xs ys show ?thesis by simp
qed

theorem mergers_agree_witness:
  "\<exists>st'. heap_merge InternalKeyComparator arena_source_ops (\<lambda>st k v. st @ [(k, v)]) []
     [arena_of [([97, 1, 5, 0, 0, 0, 0, 0, 0], [1])], arena_of [([98, 1, 0, 0, 0, 0, 0, 0, 0], [])]] =
     Some (Ok st')"
  using mergers_agree[of
      "[arena_of [([97, 1, 5, 0, 0, 0, 0, 0, 0], [1])], arena_of [([98, 1, 0, 0, 0, 0, 0, 0, 0], [])]]"
      "\<lambda>st k v. st @ [(k, v)]" "[]"]
    arena_of_correct[of "[([97, 1, 5, 0, 0, 0, 0, 0, 0], [1])]"]
    arena_of_correct[of "[([98, 1, 0, 0, 0, 0, 0, 0, 0], [])]"]
  by auto

text \<open>
  C10. The heap of the merger is a priority queue: any sequence of pushes of entries with well-formed
  keys and of pops, begun on the empty heap, runs without a panic, and is a run of the queue that
  keeps a multiset and whose pop takes an entry with a least key, or nothing when it is empty.
\<close>

theorem heap_refines_queue:
  assumes "\<forall>e. Push e \<in> set ops \<longrightarrow> valid_key (heap_key e)"
  shows "\<exists>outs h. heap_ops (heap_entry_le InternalKeyComparator) ops [] = Ok (outs, h) \<and>
           queue_run (\<lambda>a b. ikrank (heap_key b) \<le> ikrank (heap_key a)) ops {#} outs (mset h)"
  using arena_ik.hq.heap_ops_refine[of "[]" ops] assms by auto

theorem heap_refines_queue_witness:
  "\<exists>outs h. heap_ops (heap_entry_le InternalKeyComparator)
       [Push \<lparr>source_idx = 0, heap_key = [98, 1, 5, 0, 0, 0, 0, 0, 0]\<rparr>,
        Push \<lparr>source_idx = 1, heap_key = [97, 1, 3, 0, 0, 0, 0, 0, 0]\<rparr>, Pop, Pop, Pop] [] = Ok (outs, h) \<and>
     queue_run (\<lambda>a b. ikrank (heap_key b) \<le> ikrank (heap_key a))
       [Push \<lparr>source_idx = 0, heap_key = [98, 1, 5, 0, 0, 0, 0, 0, 0]\<rparr>,
        Push \<lparr>source_idx = 1, heap_key = [97, 1, 3, 0, 0, 0, 0, 0, 0]\<rparr>, Pop, Pop, Pop] {#} outs (mset h)"
  by (rule heap_refines_queue) auto

end
