(* ===== verification/Merge_Termination.thy ===== *)
theory Merge_Termination
  imports Heap_Merger
begin

text \<open>
  Both mergers end on every input, whatever the keys: a turn of the loop either stops, or takes an entry
  from a source that has finitely many left. The law a source has to obey is the locale
  \<open>finite_source\<close>. The theory also covers what the well-behaved case leaves out: a merge of one source,
  which compares nothing, and the invariant of the loser tree as the arena sources see it.
\<close>

section \<open>Sources that run dry\<close>

locale finite_source =
  fixes S :: "'s source_ops" and left :: "'s \<Rightarrow> nat"
  assumes advance_less: "peek S s = Ok (Some e) \<Longrightarrow> left (advance S s) < left s"
begin

lemma sum_left_update:
  assumes "i < length ss" and "left s' < left (ss ! i)"
  shows "sum_list (map left (ss[i := s'])) < sum_list (map left ss)"
proof -
  have "ss = take i ss @ ss ! i # drop (Suc i) ss" using assms(1) by (rule id_take_nth_drop)
  then have "sum_list (map left ss) = sum_list (map left (take i ss)) + (left (ss ! i) + sum_list (map left (drop (Suc i) ss)))"
    by (metis list.simps(9) map_append sum_list.Cons sum_list_append)
  then show ?thesis using assms by (simp add: upd_conv_take_nth_drop)
qed

lemma replay_sources: "replay_from_leaf C S m leaf = Ok m' \<Longrightarrow> lt_sources m' = lt_sources m"
  by (auto simp: replay_from_leaf_eq)

lemma loser_tree_step_less:
  assumes "loser_tree_step C S f st m = Ok (Some (st', m'))"
  shows "sum_list (map left (lt_sources m')) < sum_list (map left (lt_sources m))"
proof -
  let ?w = "winner m"
  obtain k v where "?w < length (lt_sources m)" "peek S (lt_sources m ! ?w) = Ok (Some (k, v))"
      "replay_from_leaf C S (m\<lparr>lt_sources := (lt_sources m)[?w := advance S (lt_sources m ! ?w)]\<rparr>) ?w = Ok m'"
    using assms by (auto simp: loser_tree_step_eq Let_def split: if_splits option.splits)
  then show ?thesis using sum_left_update[of ?w "lt_sources m"] advance_less replay_sources by fastforce
qed

lemma loser_tree_run_ends: "loser_tree_run C S f st m \<noteq> None"
proof (induction "sum_list (map left (lt_sources m))" arbitrary: m st rule: less_induct)
  case less
  show ?case
    unfolding loser_tree_run_step[of C S f st m]
    using less.hyps[OF loser_tree_step_less] by (auto split: outcome.splits option.splits prod.splits)
qed

lemma heap_step_less:
  assumes "heap_merger_step C S f st m = Ok (Some (st', m'))"
  shows "sum_list (map left (hm_sources m')) < sum_list (map left (hm_sources m))"
proof -
  obtain e h where pop: "heap_pop (heap_entry_le C) (heap m) = Ok (Some (e, h))"
    using assms by (auto simp: heap_merger_step_def split: option.splits)
  then obtain s where "vec_get (hm_sources m) (source_idx e) = Ok s"
    using assms by (auto simp: heap_merger_step_def)
  moreover from this pop obtain k v where p: "peek S s = Ok (Some (k, v))"
    using assms by (auto simp: heap_merger_step_def)
  ultimately have m': "hm_sources m' = (hm_sources m)[source_idx e := advance S s]"
    using assms pop by (auto simp: heap_merger_step_def Let_def)
  from \<open>vec_get (hm_sources m) (source_idx e) = Ok s\<close>
have "source_idx e < length (hm_sources m)" "s = hm_sources m ! source_idx e"
    by (auto simp: vec_get_def split: if_splits)
  with sum_left_update advance_less[OF p] m' show ?thesis by simp
qed

lemma heap_merger_run_ends: "heap_merger_run C S f st m \<noteq> None"
proof (induction "sum_list (map left (hm_sources m))" arbitrary: m st rule: less_induct)
  case less
  show ?case
    unfolding heap_merger_run.simps[of C S f st m]
    using less.hyps[OF heap_step_less] by (auto split: outcome.splits option.splits prod.splits)
qed

lemma merges_end: "loser_tree_merge C S f st ss \<noteq> None" "heap_merge C S f st ss \<noteq> None"
  using loser_tree_run_ends heap_merger_run_ends
  by (auto simp: loser_tree_merge_def heap_merge_def split: outcome.split)

end

definition arena_left :: "ArenaSource \<Rightarrow> nat" where
  "arena_left s = arena_end s - arena_pos s"

definition vec_left :: "VecSource \<Rightarrow> nat" where
  "vec_left s = length (vec_entries s) - vec_pos s"

interpretation arena_finite: finite_source arena_source_ops arena_left
  by unfold_locales
     (auto simp: arena_source_ops_def arena_source_peek_def arena_source_advance_def arena_left_def
        split: if_splits)

interpretation vec_finite: finite_source vec_source_ops vec_left
  by unfold_locales
     (auto simp: vec_source_ops_def vec_source_peek_def vec_source_advance_def vec_left_def split: if_splits)

section \<open>One source and two\<close>

text \<open>
  The loser tree on one or two sources, for keys on which the comparator may panic. With two there is
  a single match: \<open>front_less\<close> decides it and \<open>duel\<close> is the sequence of them, on the entries left to
  the winner and to the loser, which \<open>fight\<close> finds out first. Once a source is exhausted no key is compared any more.
\<close>

fun front_less :: "comparator \<Rightarrow> entry list \<Rightarrow> entry list \<Rightarrow> bool outcome" where
  "front_less C [] ys = Ok False"
| "front_less C (x # xs) [] = Ok True"
| "front_less C (x # xs) (y # ys) = obind (compare_with_prefix C (fst x) (fst y)) (\<lambda>c. Ok (c = Less))"

function duel :: "comparator \<Rightarrow> ('st \<Rightarrow> bytes \<Rightarrow> bytes \<Rightarrow> 'st) \<Rightarrow> 'st \<Rightarrow> entry list \<Rightarrow> entry list \<Rightarrow> 'st outcome" where
  "duel C f st [] ys = Ok st"
| "duel C f st (x # xs) ys =
     obind (front_less C xs ys) (\<lambda>lt.
     if lt then duel C f (f st (fst x) (snd x)) xs ys else duel C f (f st (fst x) (snd x)) ys xs)"
  by pat_completeness auto
termination
  by (relation "measure (\<lambda>(C, f, st, xs, ys). length xs + length ys)") auto

definition fight :: "comparator \<Rightarrow> ('st \<Rightarrow> bytes \<Rightarrow> bytes \<Rightarrow> 'st) \<Rightarrow> 'st \<Rightarrow> entry list \<Rightarrow> entry list \<Rightarrow> 'st outcome" where
  "fight C f st xs ys =
     obind (front_less C xs ys) (\<lambda>lt. if lt then duel C f st xs ys else duel C f st ys xs)"

lemma duel_Cons: "duel C f st (x # xs) ys = fight C f (f st (fst x) (snd x)) xs ys"
  by (simp add: fight_def)

lemma fight_exhausted:
  "fight C f st [] [] = Ok st"
  "fight C f st [] (y # ys) = fight C f (f st (fst y) (snd y)) ys []"
  "fight C f st (x # xs) [] = fight C f (f st (fst x) (snd x)) xs []"
  by (simp_all add: fight_def)

context merge_source
begin

lemma single_source_run:
  assumes "wf s" and "lt_sources m = [s]" and "winner m = 0" and "k_padded m = 1"
  shows "\<exists>m'. loser_tree_run C S f st m = Some (Ok (feed f st (remaining s), m'))"
  using assms
proof (induction "remaining s" arbitrary: s m st)
  case Nil
  from Nil show ?case
    using peek_empty[OF Nil.prems(1) Nil.hyps[symmetric]] by (simp add: loser_tree_run.simps[of C S f st m])
next
  case (Cons e es)
  obtain k v where e: "e = (k, v)" by (cases e)
  note front = peek_Cons[OF Cons.prems(1) Cons.hyps(2)[symmetric]]
  note next_s = advance_Cons[OF Cons.prems(1) Cons.hyps(2)[symmetric]]
  let ?m = "m\<lparr>lt_sources := [advance S s]\<rparr>"
  have replay: "replay_from_leaf C S ?m 0 = Ok ?m"
    using Cons.prems by (simp add: replay_from_leaf_eq replay_loop_simps[of _ _ _ _ _ 0])
  obtain m' where "loser_tree_run C S f (f st k v) ?m = Some (Ok (feed f (f st k v) es, m'))"
    using Cons.hyps(1)[of "advance S s" ?m "f st k v"] next_s Cons.prems by auto
  with Cons.prems front replay e show ?case
    by (simp add: loser_tree_run.simps[of C S f st m] flip: Cons.hyps(2))
qed

lemma single_source_merge:
  assumes "wf s"
  shows "loser_tree_merge C S f st [s] = Some (Ok (feed f st (remaining s)))"
proof -
  let ?m = "\<lparr>lt_sources = [s], tree = [NONE_YET], winner = 0, k_padded = 1\<rparr>"
  have "loser_tree_new C S [s] = Ok ?m"
    by (simp add: loser_tree_new_def lt_build_def next_power_of_two.simps build_subtree.simps[of _ _ _ "Suc 0"] Let_def)
  with single_source_run[OF assms, of ?m C f st] show ?thesis by (auto simp: loser_tree_merge_def)
qed

lemma lt_less_fronts:
  assumes "\<forall>s \<in> set ss. wf s" and "a < length ss" and "b < length ss"
  shows "lt_less C S ss a b = front_less C (remaining (ss ! a)) (remaining (ss ! b))"
  using assms
  by (cases "remaining (ss ! a)"; cases "remaining (ss ! b)")
     (auto simp: lt_less_def peek_at_def peek_remaining split: prod.split)

lemma duel_replay:
  assumes "length (lt_sources m) = 2" and "\<forall>s \<in> set (lt_sources m). wf s" and "k_padded m = 2" and "w < 2"
    and "tree m = [n, 1 - w]"
  shows "replay_from_leaf C S m w =
    obind (front_less C (remaining (lt_sources m ! w)) (remaining (lt_sources m ! (1 - w)))) (\<lambda>lt.
      Ok (if lt then m\<lparr>tree := [n, 1 - w], winner := w\<rparr> else m\<lparr>tree := [n, w], winner := 1 - w\<rparr>))"
proof -
  have "(w + 2) div 2 = 1" using assms(4) by simp
  moreover have "lt_less C S (lt_sources m) w (1 - w) =
      front_less C (remaining (lt_sources m ! w)) (remaining (lt_sources m ! (1 - w)))"
    using assms(1,2,4) by (intro lt_less_fronts) auto
  ultimately show ?thesis
    using assms(3,5)
    by (auto simp: replay_from_leaf_eq replay_loop_simps[of _ _ _ _ _ "Suc 0"] vec_get_def vec_set_def obind_assoc
        intro!: obind_cong)
qed

text \<open>The state of the tree on two sources: the winner, and the other leaf at the root.\<close>

definition duelling :: "'s LoserTreeMerger \<Rightarrow> bool" where
  "duelling m \<longleftrightarrow> length (lt_sources m) = 2 \<and> (\<forall>s \<in> set (lt_sources m). wf s) \<and> k_padded m = 2 \<and>
     winner m < 2 \<and> (\<exists>n. tree m = [n, 1 - winner m])"

abbreviation ahead :: "'s LoserTreeMerger \<Rightarrow> entry list" where
  "ahead m \<equiv> remaining (lt_sources m ! winner m)"

abbreviation behind :: "'s LoserTreeMerger \<Rightarrow> entry list" where
  "behind m \<equiv> remaining (lt_sources m ! (1 - winner m))"

lemma duel_turn:
  assumes m: "duelling m" and e: "ahead m = e # es"
  shows "\<exists>g. (\<forall>lt. duelling (g lt) \<and> ahead (g lt) = (if lt then es else behind m) \<and>
                 behind (g lt) = (if lt then behind m else es)) \<and>
    loser_tree_run C S f st m =
      (case front_less C es (behind m) of
         Panic \<Rightarrow> Some Panic | Err x \<Rightarrow> Some (Err x)
       | Ok lt \<Rightarrow> loser_tree_run C S f (f st (fst e) (snd e)) (g lt))"
proof -
  obtain n w where w: "winner m = w" "w = 0 \<or> w = 1" and n: "tree m = [n, 1 - w]"
      and src: "length (lt_sources m) = 2" "\<forall>s \<in> set (lt_sources m). wf s" "k_padded m = 2"
    using m by (auto simp: duelling_def less_2_cases_iff)
  define s where "s = lt_sources m ! w"
  have "wf s" using src w(2) by (auto simp: s_def)
  then have adv: "wf (advance S s)" "remaining (advance S s) = es" "peek S s = Ok (Some e)"
    using advance_Cons[of s e es] peek_Cons[of s e es] e by (simp_all add: s_def w(1))
  let ?m = "m\<lparr>lt_sources := (lt_sources m)[w := advance S s]\<rparr>"
  define g where "g lt = (if lt then ?m\<lparr>tree := [n, 1 - w], winner := w\<rparr> else ?m\<lparr>tree := [n, w], winner := 1 - w\<rparr>)"
    for lt
  have wf_m: "\<forall>s \<in> set (lt_sources ?m). wf s"
    using src(2) adv(1) by (auto dest!: set_update_subset_insert[THEN subsetD])
  have "replay_from_leaf C S ?m w = obind (front_less C es (behind m)) (\<lambda>lt. Ok (g lt))"
    using duel_replay[of ?m w n C] src w n wf_m adv(2) by (auto simp: g_def)
  then have "loser_tree_run C S f st m =
      (case front_less C es (behind m) of
         Panic \<Rightarrow> Some Panic | Err x \<Rightarrow> Some (Err x)
       | Ok lt \<Rightarrow> loser_tree_run C S f (f st (fst e) (snd e)) (g lt))"
    using src(1) w adv(3)
    by (cases e; cases "front_less C es (behind m)") (auto simp: loser_tree_run.simps[of C S f st m] s_def Let_def)
  moreover have "duelling (g lt) \<and> ahead (g lt) = (if lt then es else behind m) \<and>
      behind (g lt) = (if lt then behind m else es)" for lt
    using src w wf_m adv(2) by (auto simp: g_def duelling_def)
  ultimately show ?thesis by blast
qed

lemma duel_run:
  assumes "duelling m"
  shows "\<exists>r. loser_tree_run C S f st m = Some r \<and>
    obind r (\<lambda>(st', _). Ok st') = duel C f st (ahead m) (behind m)"
  using assms
proof (induction "length (ahead m) + length (behind m)" arbitrary: m st rule: less_induct)
  case less
  show ?case
  proof (cases "ahead m")
    case Nil
    moreover have "wf (lt_sources m ! winner m)" using less.prems by (auto simp: duelling_def)
    ultimately show ?thesis
      using less.prems peek_empty by (simp add: loser_tree_run.simps[of C S f st m] duelling_def)
  next
    case (Cons e es)
    obtain g where g: "\<And>lt. duelling (g lt)" "\<And>lt. ahead (g lt) = (if lt then es else behind m)"
          "\<And>lt. behind (g lt) = (if lt then behind m else es)"
        and run: "loser_tree_run C S f st m = (case front_less C es (behind m) of
          Panic \<Rightarrow> Some Panic | Err x \<Rightarrow> Some (Err x)
        | Ok lt \<Rightarrow> loser_tree_run C S f (f st (fst e) (snd e)) (g lt))"
      using duel_turn[OF less.prems Cons, of C f st] by blast
    have "length (ahead (g lt)) + length (behind (g lt)) < length (ahead m) + length (behind m)" for lt
      using Cons g(2,3) by simp
    note next_duel = less.hyps[OF this g(1), where st = "f st (fst e) (snd e)", unfolded g(2,3)]
    show ?thesis
    proof (cases "front_less C es (behind m)")
      case (Ok lt)
      then show ?thesis using run Cons next_duel[of lt] by (cases lt) simp_all
    qed (use run Cons in simp_all)
  qed
qed

lemma two_sources_merge:
  assumes "wf s" and "wf t"
  shows "loser_tree_merge C S f st [s, t] = Some (fight C f st (remaining s) (remaining t))"
proof -
  have np: "next_power_of_two (Suc (Suc 0)) = 2" by (simp add: next_power_of_two.simps)
  have less: "lt_less C S [s, t] 0 1 = front_less C (remaining s) (remaining t)"
    using lt_less_fronts[of "[s, t]" 0 1] assms by simp
  have "build_subtree C S [s, t] 2 [n, n] 1 = obind (front_less C (remaining s) (remaining t)) (\<lambda>lt.
      Ok (if lt then (0, [n, 1]) else (1, [n, 0])))" for n
    using less
    by (auto simp: build_subtree.simps[of _ _ _ _ _ 1] build_subtree.simps[of _ _ _ _ _ "Suc 0"]
         build_subtree.simps[of _ _ _ _ _ 2] build_subtree.simps[of _ _ _ _ _ 3] vec_set_def
         build_subtree.simps[of _ _ _ _ _ "Suc (Suc 0)"] build_subtree.simps[of _ _ _ _ _ "Suc (Suc (Suc 0))"]
         intro!: obind_cong)
  then have new: "loser_tree_new C S [s, t] = obind (front_less C (remaining s) (remaining t)) (\<lambda>lt.
      Ok \<lparr>lt_sources = [s, t], tree = [NONE_YET, if lt then 1 else 0], winner = (if lt then 0 else 1), k_padded = 2\<rparr>)"
    by (auto simp: loser_tree_new_def lt_build_def np Let_def obind_assoc numeral_2_eq_2 intro!: obind_cong)
  show ?thesis
  proof (cases "front_less C (remaining s) (remaining t)")
    case (Ok lt)
    define m where "m = \<lparr>lt_sources = [s, t], tree = [NONE_YET, if lt then 1 else 0],
      winner = (if lt then 0 else 1), k_padded = 2\<rparr>"
    have "duelling m" using assms by (auto simp: m_def duelling_def)
    from duel_run[OF this, of C f st] new Ok show ?thesis by (auto simp: loser_tree_merge_def m_def[symmetric]) (auto simp: m_def fight_def)
  qed (use new in \<open>simp_all add: loser_tree_merge_def fight_def\<close>)
qed

end

section \<open>Properties\<close>

text \<open>
  Every merge ends: on any list of arena sources, with any comparator and callback, with valid keys or
  not, sorted or not, both mergers come to an end (which may be a panic).
\<close>

theorem merges_terminate:
  "loser_tree_merge C arena_source_ops f st ss \<noteq> None \<and> heap_merge C arena_source_ops f st ss \<noteq> None"
  by (simp add: arena_finite.merges_end del: not_None_eq)

text \<open>
  C9. The invariant of the loser tree, over arena sources: \<open>new\<close> establishes it, and after the
  winner's source has advanced, \<open>replay_from_leaf\<close> re-establishes it without a panic and without
  touching the sources; in a tree that obeys it the winner's key is least among the front keys.
\<close>

theorem loser_tree_invariant:
  assumes "\<forall>s \<in> set ss. wf_arena s \<and> keys_valid (arena_remaining s)"
  shows "(\<exists>m. loser_tree_new InternalKeyComparator arena_source_ops ss = Ok m \<and> lt_sources m = ss \<and>
            lt_inv arena_remaining ikrank m) \<and>
         (\<forall>m. lt_sources m = ss \<longrightarrow> lt_inv arena_remaining ikrank m \<longrightarrow> winner m < length ss \<longrightarrow>
            arena_remaining (ss ! winner m) \<noteq> [] \<longrightarrow>
            (\<forall>s \<in> set ss. arena_remaining s \<noteq> [] \<longrightarrow>
               ikrank (fst (hd (arena_remaining (ss ! winner m)))) \<le> ikrank (fst (hd (arena_remaining s)))) \<and>
            (\<exists>m'. replay_from_leaf InternalKeyComparator arena_source_ops
                (m\<lparr>lt_sources := ss[winner m := arena_source_advance (ss ! winner m)]\<rparr>) (winner m) = Ok m' \<and>
               lt_sources m' = ss[winner m := arena_source_advance (ss ! winner m)] \<and>
               lt_inv arena_remaining ikrank m'))"
proof (intro conjI allI impI ballI)
  show "\<exists>m. loser_tree_new InternalKeyComparator arena_source_ops ss = Ok m \<and> lt_sources m = ss \<and>
            lt_inv arena_remaining ikrank m"
    using arena_ik.loser_tree_new_correct assms by (simp add: arena_good_sources)
next
  fix m
  assume m: "lt_sources m = ss" "lt_inv arena_remaining ikrank m" "winner m < length ss"
      and ne: "arena_remaining (ss ! winner m) \<noteq> []"
  obtain e es where e: "arena_remaining (ss ! winner m) = e # es" using ne by (meson neq_Nil_conv)
  from m e show "ikrank (fst (hd (arena_remaining (ss ! winner m)))) \<le> ikrank (fst (hd (arena_remaining s)))"
    if "s \<in> set ss" "arena_remaining s \<noteq> []" for s
    using tree_ok_least[of ikrank "map arena_remaining ss" "k_padded m" "tree m" _ e es] that
    by (auto simp: lt_inv_def)
  let ?s = "arena_source_advance (ss ! winner m)"
  have w: "wf_arena (ss ! winner m)" "keys_valid (arena_remaining (ss ! winner m))" using assms nth_mem[OF m(3)] by blast+
  have adv: "advance arena_source_ops = arena_source_advance" by (simp add: arena_source_ops_def)
  have s: "wf_arena ?s" "arena_remaining ?s = tl (arena_remaining (ss ! winner m))"
    using asrc.wf_advance[OF w(1) ne] asrc.remaining_advance[OF w(1) ne] by (simp_all add: adv)
  have "keys_valid (arena_remaining ?s)" using w(2) s(2) ne by (auto dest: list.set_sel(2))
  with assms s(1) have "good_sources wf_arena arena_remaining valid_key (ss[winner m := ?s])"
    unfolding arena_good_sources by (auto dest!: set_update_subset_insert[THEN subsetD])
  with arena_ik.replay_from_leaf_correct[OF m(2), of "m\<lparr>lt_sources := ss[winner m := ?s]\<rparr>" ?s] m(1,3)
  show "\<exists>m'. replay_from_leaf InternalKeyComparator arena_source_ops
          (m\<lparr>lt_sources := ss[winner m := ?s]\<rparr>) (winner m) = Ok m' \<and>
        lt_sources m' = ss[winner m := ?s] \<and> lt_inv arena_remaining ikrank m'"
    by simp
qed

theorem loser_tree_invariant_witness:
  "\<exists>m. loser_tree_new InternalKeyComparator arena_source_ops
         [arena_of [([97, 1, 5, 0, 0, 0, 0, 0, 0], [1])], arena_of [([98, 1, 0, 0, 0, 0, 0, 0, 0], [])]] = Ok m \<and>
       lt_inv arena_remaining ikrank m"
  using loser_tree_invariant[of
      "[arena_of [([97, 1, 5, 0, 0, 0, 0, 0, 0], [1])], arena_of [([98, 1, 0, 0, 0, 0, 0, 0, 0], [])]]"]
    arena_of_correct[of "[([97, 1, 5, 0, 0, 0, 0, 0, 0], [1])]"]
    arena_of_correct[of "[([98, 1, 0, 0, 0, 0, 0, 0, 0], [])]"]
  by fastforce

end
