(* ===== verification/Strategy.thy ===== *)
theory Strategy
  imports Merger
begin

text \<open>
  The compaction strategies (\<^verbatim>\<open>compaction/strategy.rs\<close>) and the callback that
  \<open>compact_with_strategy\<close> (\<^verbatim>\<open>compaction/mod.rs\<close>) runs on every entry of the merge. The trait
  \<open>CompactionStrategy\<close> is its one method \<open>decide\<close>, a function on the strategy's own state. The
  variables the callback captures are the record \<open>compact_state\<close>.

  The contract is stated by what a reader sees: \<open>visible s es uk\<close> is the newest version of the user
  key \<open>uk\<close> at or below the sequence number \<open>s\<close>.
\<close>

section \<open>Model\<close>

datatype KeepDecision = Keep | Drop

type_synonym 'st decide = "'st \<Rightarrow> InternalKey \<Rightarrow> bool \<Rightarrow> KeepDecision \<times> 'st"

definition is_tombstone :: "ValueType \<Rightarrow> bool" where
  "is_tombstone t \<longleftrightarrow> t = Deletion \<or> t = SingleDeletion"

definition bottommost_decide :: "unit decide" where
  "bottommost_decide self ik is_first_for_key =
     (if \<not> is_first_for_key then (Drop, self)
      else if is_tombstone (value_type ik) then (Drop, self)
      else (Keep, self))"

record SnapshotAwareStrategy =
  snapshot_seqno :: u64
  kept_visible_version_for_current_key :: bool

definition snapshot_aware_new :: "u64 \<Rightarrow> SnapshotAwareStrategy" where
  "snapshot_aware_new s = \<lparr>snapshot_seqno = s, kept_visible_version_for_current_key = False\<rparr>"

definition snapshot_aware_decide :: "SnapshotAwareStrategy decide" where
  "snapshot_aware_decide self ik is_first_for_key =
     (let self1 = (if is_first_for_key
                   then self\<lparr>kept_visible_version_for_current_key := False\<rparr> else self)
      in if is_first_for_key then
           (Keep,
            if sequence ik \<le> snapshot_seqno self1
            then self1\<lparr>kept_visible_version_for_current_key := True\<rparr> else self1)
         else if kept_visible_version_for_current_key self1 then (Drop, self1)
         else if sequence ik \<le> snapshot_seqno self1 then
           (Keep, self1\<lparr>kept_visible_version_for_current_key := True\<rparr>)
         else (Drop, self1))"

definition passthrough_decide :: "unit decide" where
  "passthrough_decide self ik is_first_for_key = (Keep, self)"

record 'st compact_state =
  last_user_key :: bytes
  has_last_user_key :: bool
  strategy_state :: 'st
  out_entries :: "entry list"

definition compact_init :: "'st \<Rightarrow> 'st compact_state" where
  "compact_init st =
     \<lparr>last_user_key = [], has_last_user_key = False, strategy_state = st, out_entries = []\<rparr>"

definition compact_step ::
    "'st decide \<Rightarrow> 'st compact_state \<Rightarrow> bytes \<Rightarrow> bytes \<Rightarrow> 'st compact_state" where
  "compact_step decide cs key val =
     (case internal_key_split key of
        Ok ik \<Rightarrow>
          (let is_first_for_key = (\<not> has_last_user_key cs \<or> last_user_key cs \<noteq> user_key ik);
               cs1 = cs\<lparr>last_user_key := user_key ik, has_last_user_key := True\<rparr>;
               (d, st') = decide (strategy_state cs1) ik is_first_for_key;
               cs2 = cs1\<lparr>strategy_state := st'\<rparr>
           in if d = Drop then cs2
              else cs2\<lparr>out_entries := out_entries cs2 @ [(key, val)]\<rparr>)
      | Err _ \<Rightarrow> cs
      | Panic \<Rightarrow> cs)"

section \<open>What a reader sees\<close>

text \<open>
  On a list in internal-key order the newest version at or below \<open>s\<close> is the first that is old
  enough. \<open>read_of\<close> is what it means to a reader who finds it on top: nothing when it deletes the key,
  and nothing that could be said without more when it is a merge operand, which needs the values
  below it and the store's merge operator, or a version of another type.
\<close>

definition visible :: "u64 \<Rightarrow> entry list \<Rightarrow> bytes \<Rightarrow> entry option" where
  "visible s es uk = find (\<lambda>e. ukey (fst e) = uk \<and> seqno (fst e) \<le> s) es"

definition latest :: "entry list \<Rightarrow> bytes \<Rightarrow> entry option" where
  "latest es uk = find (\<lambda>e. ukey (fst e) = uk) es"

datatype reading = NotFound | Found bytes | Unresolved

fun read_of :: "entry option \<Rightarrow> reading" where
  "read_of None = NotFound"
| "read_of (Some (k, v)) =
     (case vtype k of
        Value \<Rightarrow> Found v
      | BlobIndex \<Rightarrow> Found v
      | Deletion \<Rightarrow> NotFound
      | SingleDeletion \<Rightarrow> NotFound
      | _ \<Rightarrow> Unresolved)"

lemma latest_visible_max: "latest es uk = visible (- 1) es uk"
  by (simp add: latest_def visible_def)

lemma visible_simps:
  "visible r [] uk = None"
  "visible r (e # es) uk = (if ukey (fst e) = uk \<and> seqno (fst e) \<le> r then Some e else visible r es uk)"
  by (simp_all add: visible_def)

text \<open>The order of the entries is what makes the first one the newest.\<close>

lemma ik_sorted_ukey: "ik_sorted es \<Longrightarrow> sorted (map (\<lambda>e. ukey (fst e)) es)"
  by (induction es) (auto simp: ikrank_le)

lemma packed_mono_seqno: "packed a \<le> packed b \<Longrightarrow> seqno a \<le> seqno b"
  by (simp add: seqno_def word_le_nat_alt drop_bit_eq_div unat_div div_le_mono)

lemma visible_is_newest:
  assumes "ik_sorted es" and "visible s es uk = Some e"
  shows "e \<in> set es \<and> ukey (fst e) = uk \<and> seqno (fst e) \<le> s \<and>
         (\<forall>e' \<in> set es. ukey (fst e') = uk \<longrightarrow> seqno (fst e') \<le> s \<longrightarrow> packed (fst e') \<le> packed (fst e))"
  using assms
proof (induction es)
  case (Cons x xs)
  show ?case
  proof (cases "ukey (fst x) = uk \<and> seqno (fst x) \<le> s")
    case True
    with Cons.prems show ?thesis by (auto simp: visible_def ikrank_le)
  next
    case False
    with Cons show ?thesis by (auto simp: visible_def)
  qed
qed (simp add: visible_def)

section \<open>The callback on a list of valid keys\<close>

text \<open>
  \<open>keep_run decide p st es\<close> are the entries the callback keeps, when \<open>p\<close> is the user key it saw
  last.
\<close>

fun keep_run :: "'st decide \<Rightarrow> bytes option \<Rightarrow> 'st \<Rightarrow> entry list \<Rightarrow> entry list" where
  "keep_run decide p st [] = []"
| "keep_run decide p st (e # es) =
     (let k = fst e;
          (d, st') = decide st \<lparr>user_key = ukey k, sequence = seqno k, value_type = vtype k\<rparr>
                       (p \<noteq> Some (ukey k))
      in (if d = Keep then [e] else []) @ keep_run decide (Some (ukey k)) st' es)"

definition last_key :: "'st compact_state \<Rightarrow> bytes option" where
  "last_key cs = (if has_last_user_key cs then Some (last_user_key cs) else None)"

lemma compact_step_keep_run:
  assumes "keys_valid es"
  shows "out_entries (feed (compact_step decide) cs es) =
           out_entries cs @ keep_run decide (last_key cs) (strategy_state cs) es"
  using assms
proof (induction es arbitrary: cs)
  case (Cons e es)
  obtain k v where e: "e = (k, v)" by (cases e)
  let ?ik = "\<lparr>user_key = ukey k, sequence = seqno k, value_type = vtype k\<rparr>"
  obtain d st' where d: "decide (strategy_state cs) ?ik (last_key cs \<noteq> Some (ukey k)) = (d, st')"
    by (cases "decide (strategy_state cs) ?ik (last_key cs \<noteq> Some (ukey k))")
  have first: "(\<not> has_last_user_key cs \<or> last_user_key cs \<noteq> ukey k) = (last_key cs \<noteq> Some (ukey k))"
    by (simp add: last_key_def)
  show ?case
    using Cons.IH[of "compact_step decide cs k v"] Cons.prems e d first
    by (cases d) (simp_all add: compact_step_def last_key_def Let_def)
qed simp

lemma compact_init_keep_run:
  "keys_valid es \<Longrightarrow> out_entries (feed (compact_step decide) (compact_init st) es) = keep_run decide None st es"
  by (simp add: compact_step_keep_run compact_init_def last_key_def)

section \<open>Passthrough\<close>

lemma passthrough_keep_run: "keep_run passthrough_decide p st es = es"
  by (induction es arbitrary: p) (simp_all add: passthrough_decide_def)

section \<open>Bottommost\<close>

fun newest_only :: "bytes option \<Rightarrow> entry list \<Rightarrow> entry list" where
  "newest_only p [] = []"
| "newest_only p (e # es) =
     (if p = Some (ukey (fst e)) then [] else [e]) @ newest_only (Some (ukey (fst e))) es"

abbreviation live :: "entry \<Rightarrow> bool" where
  "live e \<equiv> \<not> is_tombstone (vtype (fst e))"

lemma bottommost_keep_run:
  "keep_run bottommost_decide p st es = filter live (newest_only p es)"
  by (induction es arbitrary: p) (simp_all add: bottommost_decide_def)

lemma newest_only_subset: "set (newest_only p es) \<subseteq> set es"
  by (induction es arbitrary: p) auto

lemma newest_only_latest:
  assumes "sorted (map (\<lambda>e. ukey (fst e)) es)" and "p \<noteq> Some uk"
  shows "latest (newest_only p es) uk = latest es uk"
  using assms
proof (induction es arbitrary: p)
  case (Cons e es)
  show ?case
  proof (cases "ukey (fst e) = uk")
    case True
    with Cons.prems show ?thesis by (simp add: latest_def)
  next
    case False
    with Cons show ?thesis by (simp add: latest_def)
  qed
qed simp

lemma newest_only_strict:
  assumes "sorted (map (\<lambda>e. ukey (fst e)) es)" and "\<forall>e \<in> set es. \<forall>u. p = Some u \<longrightarrow> u \<le> ukey (fst e)"
  shows "sorted_wrt (<) (map (\<lambda>e. ukey (fst e)) (newest_only p es)) \<and>
         (\<forall>e \<in> set (newest_only p es). \<forall>u. p = Some u \<longrightarrow> u < ukey (fst e))"
  using assms
proof (induction es arbitrary: p)
  case (Cons e es)
  have "sorted_wrt (<) (map (\<lambda>e. ukey (fst e)) (newest_only (Some (ukey (fst e))) es)) \<and>
        (\<forall>x \<in> set (newest_only (Some (ukey (fst e))) es). ukey (fst e) < ukey (fst x))"
    using Cons.IH[of "Some (ukey (fst e))"] Cons.prems by auto
  with Cons.prems show ?case by force
qed simp

lemma latest_filter_live:
  assumes "sorted_wrt (<) (map (\<lambda>e. ukey (fst e)) es)"
  shows "latest (filter live es) uk =
      (case latest es uk of None \<Rightarrow> None | Some e \<Rightarrow> if live e then Some e else None)"
  using assms
proof (induction es)
  case (Cons e es)
  have "latest (filter live es) uk = None" if "ukey (fst e) = uk"
    using Cons.prems that by (auto simp: latest_def find_None_iff)
  with Cons show ?case by (auto simp: latest_def)
qed (simp add: latest_def)

section \<open>Any strategy\<close>

lemma keep_run_subset: "set (keep_run decide p st es) \<subseteq> set es"
  by (induction es arbitrary: p st) (auto simp: Let_def split: prod.splits)

lemma keep_run_sorted_wrt: "sorted_wrt R es \<Longrightarrow> sorted_wrt R (keep_run decide p st es)"
proof (induction es arbitrary: p st)
  case (Cons e es)
  from Cons.prems have "\<forall>x \<in> set (keep_run decide q st' es). R e x" for q st'
    using keep_run_subset by fastforce
  with Cons show ?case by (auto simp: Let_def split: prod.splits)
qed simp

lemma sorted_by_sorted_wrt:
  "sorted_by rank es = sorted_wrt (\<lambda>a b. rank (fst a) \<le> rank (fst b)) es"
  by (simp add: sorted_wrt_map)

lemma keep_run_ik_sorted: "ik_sorted es \<Longrightarrow> ik_sorted (keep_run decide p st es)"
  unfolding sorted_by_sorted_wrt by (rule keep_run_sorted_wrt)

section \<open>Snapshot-aware\<close>

lemma snapshot_seqno_decide [simp]:
  "snapshot_seqno (snd (snapshot_aware_decide st ik f)) = snapshot_seqno st"
  by (simp add: snapshot_aware_decide_def Let_def)

lemma snapshot_keep_visible:
  assumes "snapshot_seqno st = s"
    and "p = Some uk \<Longrightarrow> \<not> kept_visible_version_for_current_key st"
  shows "visible s (keep_run snapshot_aware_decide p st es) uk = visible s es uk"
  using assms
proof (induction es arbitrary: p st)
  case (Cons e es)
  let ?k = "fst e"
  obtain d st' where d: "snapshot_aware_decide st
      \<lparr>user_key = ukey ?k, sequence = seqno ?k, value_type = vtype ?k\<rparr> (p \<noteq> Some (ukey ?k)) = (d, st')"
    by (metis surj_pair)
  have s': "snapshot_seqno st' = s"
    using d Cons.prems(1) snapshot_seqno_decide by (metis snd_conv)
  show ?case
  proof (cases "ukey ?k = uk")
    case uk: True
    show ?thesis
    proof (cases "seqno ?k \<le> s")
      case True
      with d uk Cons.prems have "d = Keep"
        by (auto simp: snapshot_aware_decide_def Let_def split: if_splits)
      with d True uk show ?thesis by (simp add: visible_def)
    next
      case False
      with d uk Cons.prems have "\<not> kept_visible_version_for_current_key st'"
        by (auto simp: snapshot_aware_decide_def Let_def split: if_splits)
      with Cons.IH[of st' "Some uk"] d s' uk False show ?thesis by (simp add: visible_def)
    qed
  next
    case False
    with Cons.IH[of st' "Some (ukey ?k)"] d s' show ?thesis by (simp add: visible_def)
  qed
qed simp

lemma snapshot_keep_latest:
  assumes "p \<noteq> Some uk"
  shows "latest (keep_run snapshot_aware_decide p st es) uk = latest es uk"
  using assms
proof (induction es arbitrary: p st)
  case (Cons e es)
  show ?case
  proof (cases "ukey (fst e) = uk")
    case True
    with Cons.prems show ?thesis by (simp add: latest_def snapshot_aware_decide_def Let_def)
  next
    case False
    with Cons.IH[of "Some (ukey (fst e))"] show ?thesis
      by (auto simp: latest_def Let_def split: prod.splits)
  qed
qed (simp add: latest_def)

abbreviation versions :: "bytes \<Rightarrow> entry list \<Rightarrow> entry list" where
  "versions uk es \<equiv> filter (\<lambda>e. ukey (fst e) = uk) es"

lemma versions_keep_run_none:
  "\<forall>e \<in> set es. ukey (fst e) \<noteq> uk \<Longrightarrow> versions uk (keep_run decide p st es) = []"
  using keep_run_subset by (fastforce simp: filter_empty_conv)

text \<open>
  The versions of a key that are kept: the newest, and of the older ones the one the snapshot sees,
  unless the newest is that version already.
\<close>

definition snapshot_versions :: "u64 \<Rightarrow> entry list \<Rightarrow> bytes \<Rightarrow> entry list" where
  "snapshot_versions s es uk =
     (case latest es uk of
        None \<Rightarrow> []
      | Some e \<Rightarrow> if seqno (fst e) \<le> s then [e]
                  else (case visible s es uk of None \<Rightarrow> [e] | Some e' \<Rightarrow> [e, e']))"

lemma snapshot_versions_same_key:
  assumes "sorted (map (\<lambda>e. ukey (fst e)) es)" and "\<forall>e \<in> set es. uk \<le> ukey (fst e)"
    and "snapshot_seqno st = s"
  shows "versions uk (keep_run snapshot_aware_decide (Some uk) st es) =
         (if kept_visible_version_for_current_key st then []
          else case visible s es uk of None \<Rightarrow> [] | Some e \<Rightarrow> [e])"
  using assms
proof (induction es arbitrary: st)
  case (Cons e es)
  show ?case
  proof (cases "ukey (fst e) = uk")
    case True
    then show ?thesis
      using Cons.IH[of st] Cons.IH[of "st\<lparr>kept_visible_version_for_current_key := True\<rparr>"] Cons.prems
      by (auto simp: snapshot_aware_decide_def visible_def)
  next
    case False
    with Cons.prems have none: "\<forall>x \<in> set (e # es). ukey (fst x) \<noteq> uk" by force
    then have "versions uk (keep_run snapshot_aware_decide (Some uk) st (e # es)) = []"
      by (rule versions_keep_run_none)
    moreover have "visible s (e # es) uk = None" using none by (auto simp: visible_def find_None_iff)
    ultimately show ?thesis by (simp del: keep_run.simps)
  qed
qed (simp add: visible_def)

lemma snapshot_keep_versions:
  assumes "sorted (map (\<lambda>e. ukey (fst e)) es)" and "p \<noteq> Some uk" and "snapshot_seqno st = s"
  shows "versions uk (keep_run snapshot_aware_decide p st es) = snapshot_versions s es uk"
  using assms
proof (induction es arbitrary: p st)
  case (Cons e es)
  obtain d st' where d: "snapshot_aware_decide st
      \<lparr>user_key = ukey (fst e), sequence = seqno (fst e), value_type = vtype (fst e)\<rparr>
      (p \<noteq> Some (ukey (fst e))) = (d, st')"
    by (metis surj_pair)
  then have s': "snapshot_seqno st' = s" using Cons.prems(3) snapshot_seqno_decide by (metis snd_conv)
  show ?case
  proof (cases "ukey (fst e) = uk")
    case True
    with d Cons.prems(2,3) have "d = Keep" "kept_visible_version_for_current_key st' \<longleftrightarrow> seqno (fst e) \<le> s"
      by (auto simp: snapshot_aware_decide_def Let_def split: if_splits)
    then show ?thesis
      using True snapshot_versions_same_key[of es uk st' s] Cons.prems d s'
      by (auto simp: snapshot_versions_def latest_def visible_def split: option.splits)
  next
    case False
    then have "latest (e # es) uk = latest es uk" "visible s (e # es) uk = visible s es uk"
      by (simp_all add: latest_def visible_def)
    then have "snapshot_versions s (e # es) uk = snapshot_versions s es uk"
      unfolding snapshot_versions_def by (simp only:)
    with False show ?thesis using Cons.IH[of "Some (ukey (fst e))" st'] Cons.prems d s' by simp
  qed
qed (simp add: snapshot_versions_def latest_def)

lemma snapshot_versions_length: "length (snapshot_versions s es uk) \<le> 2"
  by (simp add: snapshot_versions_def split: option.splits)

lemma visible_versions: "visible r (versions uk es) uk = visible r es uk"
  by (induction es) (auto simp: visible_def)

lemma visible_SomeD: "visible r es uk = Some e \<Longrightarrow> e \<in> set es \<and> ukey (fst e) = uk \<and> seqno (fst e) \<le> r"
  by (auto simp: visible_def find_Some_iff)

lemma visible_latest: "latest es uk = Some e \<Longrightarrow> seqno (fst e) \<le> r \<Longrightarrow> visible r es uk = Some e"
  by (induction es) (auto simp: latest_def visible_def split: if_splits)

text \<open>A reader that sees a version other than those two loses it; every other reader keeps its view.\<close>

lemma visible_snapshot_versions:
  "visible r (snapshot_versions s es uk) uk = visible r es uk \<longleftrightarrow>
     visible r es uk \<in> {None, latest es uk, visible s es uk}"
proof (cases "latest es uk")
  case None
  then have "visible q es uk = None" for q by (auto simp: latest_def visible_def find_None_iff)
  with None show ?thesis by (simp add: snapshot_versions_def visible_def)
next
  case (Some l)
  have first: "visible q es uk = Some l" if "seqno (fst l) \<le> q" for q
    using Some that by (rule visible_latest)
  have uk: "ukey (fst l) = uk" using Some by (auto simp: latest_def find_Some_iff)
  show ?thesis
  proof (cases "visible s es uk")
    case None
    then have "\<not> seqno (fst l) \<le> s" using first by force
    with None Some uk first[of r] show ?thesis
      by (auto simp: snapshot_versions_def visible_simps dest: visible_SomeD)
  next
    case (Some v)
    note v = visible_SomeD[OF Some]
    have "visible r es uk \<noteq> None" if "seqno (fst v) \<le> r"
      using that v unfolding visible_def find_None_iff by blast
    then show ?thesis
      using \<open>latest es uk = Some l\<close> Some first[of s] first[of r] uk v
      by (auto simp: snapshot_versions_def visible_simps dest: visible_SomeD)
  qed
qed

section \<open>Properties\<close>

text \<open>
  C13. Bottommost compaction of a merged stream keeps, for every user key, exactly its newest version
  when that is a live value and nothing when it is a tombstone; the output is in strictly ascending
  user-key order, so no key occurs twice, and holds only entries of the input.
\<close>

theorem bottommost_keeps_newest:
  assumes "keys_valid es" and "ik_sorted es"
  shows "latest (out_entries (feed (compact_step bottommost_decide) (compact_init ()) es)) uk =
           (case latest es uk of None \<Rightarrow> None | Some e \<Rightarrow> if live e then Some e else None) \<and>
         sorted_wrt (<) (map (\<lambda>e. ukey (fst e))
           (out_entries (feed (compact_step bottommost_decide) (compact_init ()) es))) \<and>
         set (out_entries (feed (compact_step bottommost_decide) (compact_init ()) es)) \<subseteq> set es"
proof -
  let ?N = "newest_only None es"
  have out: "out_entries (feed (compact_step bottommost_decide) (compact_init ()) es) = filter live ?N"
    using assms(1) by (simp add: compact_init_keep_run bottommost_keep_run)
  have uks: "sorted (map (\<lambda>e. ukey (fst e)) es)" using assms(2) by (rule ik_sorted_ukey)
  have strict: "sorted_wrt (<) (map (\<lambda>e. ukey (fst e)) ?N)"
    using newest_only_strict[OF uks, of None] by simp
  have "latest (filter live ?N) uk =
      (case latest ?N uk of None \<Rightarrow> None | Some e \<Rightarrow> if live e then Some e else None)"
    using strict by (rule latest_filter_live)
  then show ?thesis
    using newest_only_latest[OF uks, of None uk] strict newest_only_subset[of None es]
    by (auto simp: out sorted_wrt_map intro: sorted_wrt_filter)
qed

theorem bottommost_keeps_newest_witness:
  "latest (out_entries (feed (compact_step bottommost_decide) (compact_init ())
      [([97, 1, 5, 0, 0, 0, 0, 0, 0], [1]), ([97, 1, 3, 0, 0, 0, 0, 0, 0], [2]),
       ([98, 0, 9, 0, 0, 0, 0, 0, 0], []), ([98, 1, 2, 0, 0, 0, 0, 0, 0], [3])])) [97] =
     Some ([97, 1, 5, 0, 0, 0, 0, 0, 0], [1])"
  using bottommost_keeps_newest[of
      "[([97, 1, 5, 0, 0, 0, 0, 0, 0], [1]), ([97, 1, 3, 0, 0, 0, 0, 0, 0], [2]),
        ([98, 0, 9, 0, 0, 0, 0, 0, 0], []), ([98, 1, 2, 0, 0, 0, 0, 0, 0], [3])]" "[97]"]
  by (simp add: ikrank_le ukey_def packed_def latest_def vtype_def value_type_from_byte_def
        is_tombstone_def)

text \<open>
  C14. Snapshot-aware compaction of a merged stream keeps what the current reader and the reader at the
  snapshot see, tombstones included, for every user key, with at most two versions of it; the output
  stays in internal-key order.
\<close>

theorem snapshot_aware_preserves_reads:
  assumes "keys_valid es" and "ik_sorted es"
  shows "visible s (out_entries (feed (compact_step snapshot_aware_decide)
             (compact_init (snapshot_aware_new s)) es)) uk = visible s es uk \<and>
         latest (out_entries (feed (compact_step snapshot_aware_decide)
             (compact_init (snapshot_aware_new s)) es)) uk = latest es uk \<and>
         length (versions uk (out_entries (feed (compact_step snapshot_aware_decide)
             (compact_init (snapshot_aware_new s)) es))) \<le> 2 \<and>
         ik_sorted (out_entries (feed (compact_step snapshot_aware_decide)
             (compact_init (snapshot_aware_new s)) es))"
  using assms ik_sorted_ukey[OF assms(2)]
  by (simp add: compact_init_keep_run snapshot_keep_visible snapshot_keep_latest
        snapshot_keep_versions snapshot_versions_length
        keep_run_ik_sorted snapshot_aware_new_def)

theorem snapshot_aware_preserves_reads_witness:
  "visible 6 (out_entries (feed (compact_step snapshot_aware_decide)
       (compact_init (snapshot_aware_new 6))
         [([97, 1, 9, 0, 0, 0, 0, 0, 0], [1]), ([97, 1, 8, 0, 0, 0, 0, 0, 0], [2]),
          ([97, 1, 5, 0, 0, 0, 0, 0, 0], [3]), ([97, 1, 4, 0, 0, 0, 0, 0, 0], [4])])) [97] =
     visible 6
         [([97, 1, 9, 0, 0, 0, 0, 0, 0], [1]), ([97, 1, 8, 0, 0, 0, 0, 0, 0], [2]),
          ([97, 1, 5, 0, 0, 0, 0, 0, 0], [3]), ([97, 1, 4, 0, 0, 0, 0, 0, 0], [4])] [97]"
  using snapshot_aware_preserves_reads[of
      "[([97, 1, 9, 0, 0, 0, 0, 0, 0], [1]), ([97, 1, 8, 0, 0, 0, 0, 0, 0], [2]),
        ([97, 1, 5, 0, 0, 0, 0, 0, 0], [3]), ([97, 1, 4, 0, 0, 0, 0, 0, 0], [4])]" 6 "[97]"]
  by (simp add: ikrank_le ukey_def packed_def)

text \<open>
  C31. What snapshot-aware compaction of a merged stream does to every reader: of a user key it keeps
  the newest version and the one visible at the snapshot, and no other; so a reader at any sequence
  number sees what it saw before if and only if it saw nothing or one of these two. One snapshot
  boundary does not stand for the snapshots above it.
\<close>

theorem snapshot_aware_reads_exact:
  fixes s :: u64
  assumes "keys_valid es" and "ik_sorted es"
  defines "kept \<equiv> out_entries (feed (compact_step snapshot_aware_decide) (compact_init (snapshot_aware_new s)) es)"
  shows "versions uk kept = snapshot_versions s es uk \<and>
         (visible r kept uk = visible r es uk \<longleftrightarrow> visible r es uk \<in> {None, latest es uk, visible s es uk})"
proof -
  have v: "versions uk kept = snapshot_versions s es uk"
    using assms(1) ik_sorted_ukey[OF assms(2)]
    by (simp add: kept_def compact_init_keep_run snapshot_keep_versions snapshot_aware_new_def)
  then have "visible r kept uk = visible r (snapshot_versions s es uk) uk"
    using visible_versions[of r uk kept] by simp
  with v show ?thesis by (simp only: visible_snapshot_versions)
qed

text \<open>
  With versions 9, 8 and 5 of a key and the earliest snapshot at 6, a reader at 8 sees version 8 before
  the compaction and not after it.
\<close>

theorem snapshot_aware_reads_exact_witness:
  "let es = [(make_internal_key [97] 9 1, [1]), (make_internal_key [97] 8 1, [2]),
             (make_internal_key [97] 5 1, [3])];
       kept = out_entries (feed (compact_step snapshot_aware_decide)
                (compact_init (snapshot_aware_new 6)) es)
   in read_of (visible 8 es [97]) = Found [2] \<and> visible 8 kept [97] \<noteq> visible 8 es [97]"
  using snapshot_aware_reads_exact[where es = "[(make_internal_key [97] 9 1, [1]), (make_internal_key [97] 8 1, [2]),
      (make_internal_key [97] 5 1, [3])]" and s = 6 and uk = "[97]" and r = 8]
  by (simp add: visible_def latest_def seqno_def vtype_def value_type_from_byte_def is_tombstone_def ikrank_le)

text \<open>
  The passthrough strategy writes the merged stream unchanged.
\<close>

theorem passthrough_keeps_all:
  assumes "keys_valid es"
  shows "out_entries (feed (compact_step passthrough_decide) (compact_init ()) es) = es"
  using assms by (simp add: compact_init_keep_run passthrough_keep_run)

theorem passthrough_keeps_all_witness:
  "out_entries (feed (compact_step passthrough_decide) (compact_init ())
     [([97, 0, 9, 0, 0, 0, 0, 0, 0], []), ([97, 1, 2, 0, 0, 0, 0, 0, 0], [3])]) =
     [([97, 0, 9, 0, 0, 0, 0, 0, 0], []), ([97, 1, 2, 0, 0, 0, 0, 0, 0], [3])]"
  by (rule passthrough_keeps_all) simp

end
