(* ===== verification/Oracle.thy ===== *)
theory Oracle
  imports Strategy
begin

unbundle bit_operations_syntax

text \<open>
  The reference compaction of \<^verbatim>\<open>oracle/src/lib.rs\<close>: for every user key the version with the highest
  sequence number, without it when it is a tombstone. Its \<open>BTreeMap\<close> is a list of pairs with
  strictly ascending keys; the crate has its own decoder of the key suffix and its own \<open>ValueType\<close>,
  whose constructors carry the suffix \<open>_O\<close> here.
\<close>

section \<open>Model\<close>

datatype oracle_ValueType = Deletion_O | Value_O | SingleDeletion_O | Other_O u8

definition decode_suffix :: "bytes \<Rightarrow> (bytes \<times> u64 \<times> oracle_ValueType) outcome" where
  "decode_suffix internal_key =
     obind (usize_sub (length internal_key) 8) (\<lambda>at.
       let packed = from_le_bytes (drop at internal_key) :: u64;
           seq = drop_bit 8 packed;
           b = ucast (packed AND 0xff) :: u8;
           ty = (if b = 0x0 then Deletion_O else if b = 0x1 then Value_O
                 else if b = 0x7 then SingleDeletion_O else Other_O b)
       in Ok (take at internal_key, seq, ty))"

fun btree_insert :: "'k::linorder \<Rightarrow> 'v \<Rightarrow> ('k \<times> 'v) list \<Rightarrow> ('k \<times> 'v) list" where
  "btree_insert k v [] = [(k, v)]"
| "btree_insert k v ((k', v') # m) =
     (if k < k' then (k, v) # (k', v') # m
      else if k = k' then (k, v) # m
      else (k', v') # btree_insert k v m)"

type_synonym best_map = "(bytes \<times> (u64 \<times> bytes \<times> bool)) list"

definition naive_step :: "best_map \<Rightarrow> entry \<Rightarrow> best_map outcome" where
  "naive_step best e =
     (case e of (key, val) \<Rightarrow>
       obind (decode_suffix key) (\<lambda>(user_key, seq, ty).
         let is_tombstone = (ty = Deletion_O \<or> ty = SingleDeletion_O)
         in case map_of best user_key of
              Some (existing_seq, _, _) \<Rightarrow>
                if existing_seq \<ge> seq then Ok best
                else Ok (btree_insert user_key (seq, val, is_tombstone) best)
            | None \<Rightarrow> Ok (btree_insert user_key (seq, val, is_tombstone) best)))"

fun naive_source :: "best_map \<Rightarrow> entry list \<Rightarrow> best_map outcome" where
  "naive_source best [] = Ok best"
| "naive_source best (e # es) = obind (naive_step best e) (\<lambda>best'. naive_source best' es)"

fun naive_sources :: "best_map \<Rightarrow> entry list list \<Rightarrow> best_map outcome" where
  "naive_sources best [] = Ok best"
| "naive_sources best (s # ss) = obind (naive_source best s) (\<lambda>best'. naive_sources best' ss)"

definition naive_compact :: "entry list list \<Rightarrow> entry list outcome" where
  "naive_compact sources =
     obind (naive_sources [] sources) (\<lambda>best.
       Ok (map (\<lambda>(user_key, (_, val, _)). (user_key, val))
             (filter (\<lambda>(_, (_, _, is_tombstone)). \<not> is_tombstone) best)))"

section \<open>Sorted association lists\<close>

abbreviation keys_ascending :: "('k::linorder \<times> 'v) list \<Rightarrow> bool" where
  "keys_ascending m \<equiv> sorted_wrt (<) (map fst m)"

lemma btree_insert_keys: "set (map fst (btree_insert k v m)) = insert k (set (map fst m))"
  by (induction k v m rule: btree_insert.induct) (simp_all add: insert_commute)

lemma btree_insert_ascending: "keys_ascending m \<Longrightarrow> keys_ascending (btree_insert k v m)"
proof (induction m)
  case (Cons a m)
  then show ?case
    using btree_insert_keys[of k v m] by (cases a) (auto simp: image_iff)
qed simp

lemma btree_insert_map_of: "keys_ascending m \<Longrightarrow> map_of (btree_insert k v m) = (map_of m)(k \<mapsto> v)"
  by (induction m) (auto simp: fun_eq_iff)

text \<open>A map has one representation with ascending keys.\<close>

lemma ascending_distinct: "keys_ascending m \<Longrightarrow> distinct (map fst m)"
  by (simp add: strict_sorted_iff)

lemma ascending_unique:
  assumes "keys_ascending a" and "keys_ascending b" and "map_of a = map_of b"
  shows "a = b"
proof -
  have "set a = set b"
    using assms ascending_distinct
    by (metis map_of_eq_Some_iff subrelI subset_antisym)
  moreover have "inj_on fst (set a)"
    using assms(1) ascending_distinct by (metis distinct_map)
  ultimately show ?thesis
    using assms map_sorted_distinct_set_unique[of fst a b] by (simp add: strict_sorted_iff)
qed

section \<open>The map holds the newest version of every key\<close>

definition best_of :: "entry list \<Rightarrow> best_map \<Rightarrow> bool" where
  "best_of es best \<longleftrightarrow> keys_ascending best \<and>
     (\<forall>uk. map_of best uk = None \<longleftrightarrow> (\<forall>e \<in> set es. ukey (fst e) \<noteq> uk)) \<and>
     (\<forall>uk s v t. map_of best uk = Some (s, v, t) \<longrightarrow>
        (\<exists>k. (k, v) \<in> set es \<and> ukey k = uk \<and> seqno k = s \<and> t = is_tombstone (vtype k)) \<and>
        (\<forall>e \<in> set es. ukey (fst e) = uk \<longrightarrow> seqno (fst e) \<le> s))"

lemma decode_suffix_valid:
  assumes "valid_key k"
  obtains ty where "decode_suffix k = Ok (ukey k, seqno k, ty)"
    and "(ty = Deletion_O \<or> ty = SingleDeletion_O) = is_tombstone (vtype k)"
proof -
  let ?b = "ucast (packed k AND 0xff) :: u8"
  let ?ty = "if ?b = 0x0 then Deletion_O else if ?b = 0x1 then Value_O
             else if ?b = 0x7 then SingleDeletion_O else Other_O ?b"
  have "decode_suffix k = Ok (ukey k, seqno k, ?ty)"
    using assms by (simp add: decode_suffix_def usize_sub_def ukey_def seqno_def packed_def Let_def)
  moreover have "(?ty = Deletion_O \<or> ?ty = SingleDeletion_O) = is_tombstone (vtype k)"
    by (simp add: is_tombstone_def vtype_def value_type_from_byte_def)
  ultimately show ?thesis by (rule that)
qed

lemma naive_step_best:
  assumes "best_of es best" and "valid_key (fst e)"
  shows "\<exists>best'. naive_step best e = Ok best' \<and> best_of (es @ [e]) best'"
proof -
  obtain k v where e: "e = (k, v)" by (cases e)
  obtain ty where ty: "decode_suffix k = Ok (ukey k, seqno k, ty)"
      "(ty = Deletion_O \<or> ty = SingleDeletion_O) = is_tombstone (vtype k)"
    using assms(2) e by (auto elim: decode_suffix_valid)
  let ?new = "btree_insert (ukey k) (seqno k, v, is_tombstone (vtype k)) best"
  have asc: "keys_ascending best" using assms(1) by (simp add: best_of_def)
  show ?thesis
  proof (cases "\<exists>s v' t. map_of best (ukey k) = Some (s, v', t) \<and> seqno k \<le> s")
    case True
    then have "naive_step best e = Ok best"
      using ty e by (auto simp: naive_step_def)
    moreover have "best_of (es @ [e]) best"
      using assms(1) True e unfolding best_of_def by fastforce
    ultimately show ?thesis by blast
  next
    case False
    then have "naive_step best e = Ok ?new"
      using ty e by (cases "map_of best (ukey k)") (force simp: naive_step_def)+
    moreover have "best_of (es @ [e]) ?new"
    proof -
      have below: "\<forall>e' \<in> set es. ukey (fst e') = ukey k \<longrightarrow> seqno (fst e') \<le> seqno k"
      proof (intro ballI impI)
        fix e' assume e': "e' \<in> set es" "ukey (fst e') = ukey k"
        then obtain s v' t where "map_of best (ukey k) = Some (s, v', t)"
          using assms(1) unfolding best_of_def by (metis not_None_eq surj_pair)
        moreover from this have "seqno (fst e') \<le> s"
          using assms(1) e' unfolding best_of_def by blast
        ultimately show "seqno (fst e') \<le> seqno k" using False by force
      qed
      show ?thesis
        using assms(1) e below btree_insert_ascending[OF asc] btree_insert_map_of[OF asc]
        unfolding best_of_def by auto metis
    qed
    ultimately show ?thesis by blast
  qed
qed

lemma naive_source_best:
  assumes "best_of es best" and "keys_valid xs"
  shows "\<exists>best'. naive_source best xs = Ok best' \<and> best_of (es @ xs) best'"
  using assms
proof (induction xs arbitrary: es best)
  case (Cons x xs)
  then obtain b where b: "naive_step best x = Ok b" "best_of (es @ [x]) b"
    using naive_step_best[of es best x] by auto
  then show ?case using Cons.IH[OF b(2)] Cons.prems(2) by simp
qed simp

lemma naive_sources_best:
  assumes "best_of es best" and "keys_valid (concat ss)"
  shows "\<exists>best'. naive_sources best ss = Ok best' \<and> best_of (es @ concat ss) best'"
  using assms
proof (induction ss arbitrary: es best)
  case (Cons s ss)
  then obtain b where b: "naive_source best s = Ok b" "best_of (es @ s) b"
    using naive_source_best[of es best s] by auto
  then show ?case using Cons.IH[OF b(2)] Cons.prems(2) by simp
qed simp

lemma naive_step_not_Err: "naive_step best e \<noteq> Err x"
  by (auto simp: naive_step_def decode_suffix_def usize_sub_def Let_def
        split: prod.splits option.splits if_splits)

lemma naive_step_panic: "\<not> valid_key (fst e) \<Longrightarrow> naive_step best e = Panic"
  by (cases e) (simp add: naive_step_def decode_suffix_def usize_sub_def)

lemma naive_source_panic:
  "\<exists>e \<in> set es. \<not> valid_key (fst e) \<Longrightarrow> naive_source best es = Panic"
proof (induction es arbitrary: best)
  case (Cons e es)
  show ?case
  proof (cases "naive_step best e")
    case (Ok b)
    then have "valid_key (fst e)" using naive_step_panic[of e best] by force
    with Cons Ok show ?thesis by auto
  qed (simp_all add: naive_step_not_Err)
qed simp

lemma naive_source_not_Err: "naive_source best es \<noteq> Err x"
proof (induction es arbitrary: best)
  case (Cons e es)
  then show ?case by (cases "naive_step best e") (simp_all add: naive_step_not_Err)
qed simp

lemma naive_sources_panic:
  "\<exists>e \<in> set (concat ss). \<not> valid_key (fst e) \<Longrightarrow> naive_sources best ss = Panic"
proof (induction ss arbitrary: best)
  case (Cons s ss)
  show ?case
  proof (cases "naive_source best s")
    case (Ok b)
    then have "keys_valid s" using naive_source_panic[of s best] by force
    with Cons Ok show ?thesis by auto
  qed (simp_all add: naive_source_not_Err)
qed simp

section \<open>Agreement with the newest versions of a sorted list\<close>

abbreviation strip :: "entry list \<Rightarrow> entry list" where
  "strip es \<equiv> map (\<lambda>e. (ukey (fst e), snd e)) es"

text \<open>No two versions of a user key have the same sequence number.\<close>

definition distinct_versions :: "entry list \<Rightarrow> bool" where
  "distinct_versions es = distinct (map (\<lambda>e. (ukey (fst e), seqno (fst e))) es)"

lemma distinct_versions_inj:
  "distinct_versions es \<Longrightarrow> a \<in> set es \<Longrightarrow> b \<in> set es \<Longrightarrow> ukey (fst a) = ukey (fst b) \<Longrightarrow>
     seqno (fst a) = seqno (fst b) \<Longrightarrow> a = b"
  unfolding distinct_versions_def distinct_map inj_on_def by blast

lemma distinct_versions_mset: "mset a = mset b \<Longrightarrow> distinct_versions a = distinct_versions b"
  unfolding distinct_versions_def by (rule mset_eq_imp_distinct_iff) simp

abbreviation version_pairs :: "entry list \<Rightarrow> best_map" where
  "version_pairs es \<equiv> map (\<lambda>e. (ukey (fst e), (seqno (fst e), snd e, is_tombstone (vtype (fst e))))) es"

lemma map_of_version_pairs:
  "map_of (version_pairs es) uk =
     map_option (\<lambda>e. (seqno (fst e), snd e, is_tombstone (vtype (fst e)))) (latest es uk)"
  by (induction es) (auto simp: latest_def)

lemma latest_None: "latest es uk = None \<longleftrightarrow> (\<forall>e \<in> set es. ukey (fst e) \<noteq> uk)"
  by (auto simp: latest_def find_None_iff)

lemma best_of_latest:
  assumes best: "best_of es best" and sorted: "ik_sorted xs" and perm: "mset xs = mset es"
    and dist: "distinct_versions es"
  shows "map_of best uk = map_of (version_pairs xs) uk"
proof (cases "latest xs uk")
  case None
  then have "map_of best uk = None"
    using best perm unfolding best_of_def latest_None by (metis mset_eq_setD)
  with None show ?thesis by (simp add: map_of_version_pairs)
next
  case (Some e)
  have set: "set xs = set es" using perm by (rule mset_eq_setD)
  have e: "e \<in> set es" "ukey (fst e) = uk"
      "\<And>e'. e' \<in> set es \<Longrightarrow> ukey (fst e') = uk \<Longrightarrow> seqno (fst e') \<le> seqno (fst e)"
    using visible_is_newest[OF sorted, of "- 1" uk e] Some set packed_mono_seqno
    by (auto simp: latest_visible_max)
  obtain s v t where b: "map_of best uk = Some (s, v, t)"
    using best e unfolding best_of_def by (metis not_None_eq surj_pair)
  then obtain k where k: "(k, v) \<in> set es" "ukey k = uk" "seqno k = s" "t = is_tombstone (vtype k)"
      "seqno (fst e) \<le> s"
    using best e unfolding best_of_def by metis
  then have "(k, v) = e"
    using distinct_versions_inj[OF dist k(1) e(1)] e(2) e(3)[OF k(1)] by simp
  with Some b k show ?thesis by (auto simp: map_of_version_pairs)
qed

lemma naive_compact_newest:
  assumes "keys_valid (concat ss)" and "distinct_versions (concat ss)"
    and "ik_sorted xs" and "mset xs = mset (concat ss)"
  shows "naive_compact ss = Ok (strip (filter live (newest_only None xs)))"
proof -
  have "best_of [] []" by (simp add: best_of_def)
  then obtain best where best: "naive_sources [] ss = Ok best" "best_of (concat ss) best"
    using naive_sources_best assms(1) by fastforce
  let ?N = "newest_only None xs"
  have uks: "sorted (map (\<lambda>e. ukey (fst e)) xs)"
    using assms(3) by (rule ik_sorted_ukey)
  have "best = version_pairs ?N"
  proof (rule ascending_unique)
    show "keys_ascending best" using best(2) by (simp add: best_of_def)
    show "keys_ascending (version_pairs ?N)"
      using newest_only_strict[OF uks, of None] by (simp add: comp_def)
    show "map_of best = map_of (version_pairs ?N)"
      using best_of_latest[OF best(2) assms(3,4,2)] newest_only_latest[OF uks, of None]
      by (simp add: fun_eq_iff map_of_version_pairs)
  qed
  then show ?thesis
    using best(1) by (simp add: naive_compact_def filter_map comp_def)
qed

section \<open>Properties\<close>

text \<open>
  The reference implementation panics on a key without room for the suffix, and returns on all
  others.
\<close>

theorem naive_compact_total:
  "naive_compact ss = Panic \<longleftrightarrow> (\<exists>e \<in> set (concat ss). \<not> valid_key (fst e))"
proof
  assume "naive_compact ss = Panic"
  then show "\<exists>e \<in> set (concat ss). \<not> valid_key (fst e)"
    using naive_sources_best[of "[]" "[]" ss] by (force simp: naive_compact_def best_of_def)
next
  assume "\<exists>e \<in> set (concat ss). \<not> valid_key (fst e)"
  then show "naive_compact ss = Panic"
    using naive_sources_panic by (auto simp: naive_compact_def)
qed

end
