(* ===== verification/Compaction.thy ===== *)
theory Compaction
  imports Load Merge_Termination Oracle
begin

text \<open>
  The compaction job (\<^verbatim>\<open>compaction/mod.rs\<close>): the merge of the sources through a strategy into a new table
  file, and the sharded job, which cuts every source at common boundary keys and compacts the shards
  in tasks of their own. The file bytes a strategy's caller gets come with the strategy's state, which
  the code updates in place. \<open>None\<close> is a job that does not end.

  The contract of a strategy is the locale \<open>read_preserving\<close>: what one reader sees of a stream in
  internal-key order is what it sees of the entries the strategy keeps.
\<close>

section \<open>Model\<close>

record CompactionOptions =
  sst_builder :: SstBuilderOptions

definition compact_with_strategy ::
    "ext \<Rightarrow> 'st decide \<Rightarrow> ArenaSource list \<Rightarrow> CompactionOptions \<Rightarrow> 'st \<Rightarrow> (bytes \<times> 'st) outcome option" where
  "compact_with_strategy X decide sources opts strategy =
     map_option
       (\<lambda>merged. obind merged (\<lambda>cs.
          obind (build_sst X (sst_builder opts) (out_entries cs)) (\<lambda>bytes_out.
          Ok (bytes_out, strategy_state cs))))
       (loser_tree_merge InternalKeyComparator arena_source_ops (compact_step decide)
          (compact_init strategy) sources)"

definition compact :: "ext \<Rightarrow> ArenaSource list \<Rightarrow> CompactionOptions \<Rightarrow> bytes outcome option" where
  "compact X sources opts =
     map_option (\<lambda>r. obind r (\<lambda>(bytes_out, _). Ok bytes_out))
       (compact_with_strategy X bottommost_decide sources opts ())"

text \<open>\<open>Iterator::max_by_key\<close>: of several greatest elements the last.\<close>

fun max_by_key :: "('a \<Rightarrow> nat) \<Rightarrow> 'a list \<Rightarrow> 'a option" where
  "max_by_key f [] = None"
| "max_by_key f (x # xs) = Some (foldl (\<lambda>m y. if f m \<le> f y then y else m) x xs)"

definition pick_shard_boundaries :: "ArenaSource list \<Rightarrow> nat \<Rightarrow> bytes list outcome" where
  "pick_shard_boundaries sources num_shards =
     obind (expect (max_by_key total_len sources)) (\<lambda>largest.
       let n = total_len largest
       in if n = 0 then Ok []
          else omap (\<lambda>i. obind (usize_mul n i) (\<lambda>m.
                         let idx = m div num_shards in key_at largest (min idx (n - 1))))
                 [1..<num_shards])"

definition push_input :: "'a list list \<Rightarrow> nat \<Rightarrow> 'a \<Rightarrow> 'a list list outcome" where
  "push_input inputs i x = obind (vec_get inputs i) (\<lambda>v. vec_set inputs i (v @ [x]))"

text \<open>The loop over the boundaries for one source, from \<open>shard_idx\<close> and \<open>start\<close>, and what follows it.\<close>

fun shard_source ::
    "ArenaSource \<Rightarrow> nat \<Rightarrow> nat \<Rightarrow> bytes list \<Rightarrow> ArenaSource list list \<Rightarrow> ArenaSource list list outcome" where
  "shard_source source shard_idx start [] shard_inputs =
     obind (usize_sub (length shard_inputs) 1) (\<lambda>last_idx.
     obind (arena_source_shard source start (total_len source)) (\<lambda>s.
     push_input shard_inputs last_idx s))"
| "shard_source source shard_idx start (boundary # boundaries) shard_inputs =
     obind (lower_bound source boundary) (\<lambda>stop.
     obind (arena_source_shard source start stop) (\<lambda>s.
     obind (push_input shard_inputs shard_idx s) (\<lambda>shard_inputs'.
     shard_source source (shard_idx + 1) stop boundaries shard_inputs')))"

fun shard_sources ::
    "bytes list \<Rightarrow> ArenaSource list \<Rightarrow> ArenaSource list list \<Rightarrow> ArenaSource list list outcome" where
  "shard_sources boundaries [] shard_inputs = Ok shard_inputs"
| "shard_sources boundaries (source # sources) shard_inputs =
     obind (shard_source source 0 0 boundaries shard_inputs) (\<lambda>shard_inputs'.
     shard_sources boundaries sources shard_inputs')"

text \<open>
  The tasks share nothing but the arenas they read, so each is its result; the results are awaited in
  shard order, and a task that panicked is an error for the job.
\<close>

fun await_tasks :: "bytes outcome option list \<Rightarrow> bytes list outcome option" where
  "await_tasks [] = Some (Ok [])"
| "await_tasks (task # tasks) =
     (case task of
        None \<Rightarrow> None
      | Some Panic \<Rightarrow> Some (Err (Msg ''subcompaction shard task panicked''))
      | Some (Err e) \<Rightarrow> Some (Err e)
      | Some (Ok bytes_out) \<Rightarrow>
          map_option (\<lambda>r. obind r (\<lambda>outputs. Ok (bytes_out # outputs))) (await_tasks tasks))"

definition compact_sharded ::
    "ext \<Rightarrow> ArenaSource list \<Rightarrow> nat \<Rightarrow> CompactionOptions \<Rightarrow> bytes list outcome option" where
  "compact_sharded X sources num_shards opts =
     (if num_shards \<le> 1 \<or> sources = [] then
        map_option (\<lambda>r. obind r (\<lambda>bytes_out. Ok [bytes_out])) (compact X sources opts)
      else
        case obind (pick_shard_boundaries sources num_shards) (\<lambda>boundaries.
               shard_sources boundaries sources (replicate (length boundaries + 1) [])) of
          Panic \<Rightarrow> Some Panic
        | Err e \<Rightarrow> Some (Err e)
        | Ok shard_inputs \<Rightarrow>
            await_tasks (map (\<lambda>shard_sources. compact X shard_sources opts) shard_inputs))"

section \<open>Sizes\<close>

lemma size_bound_mono:
  "mset xs \<subseteq># mset ys \<Longrightarrow> sst_size_bound opts xs \<le> sst_size_bound opts ys"
  using entries_size_mono[of xs ys] size_mset_mono[of "mset xs" "mset ys"]
  by (simp add: sst_size_bound_def)

lemma keep_run_mset: "mset (keep_run decide p st es) \<subseteq># mset es"
proof (induction es arbitrary: p st)
  case (Cons e es)
  obtain d st' where d: "decide st \<lparr>user_key = ukey (fst e), sequence = seqno (fst e),
      value_type = vtype (fst e)\<rparr> (p \<noteq> Some (ukey (fst e))) = (d, st')" by (metis surj_pair)
  let ?kept = "mset (keep_run decide (Some (ukey (fst e))) st' es)"
  have "?kept \<subseteq># mset es" by (rule Cons.IH)
  moreover have "mset es \<subseteq># add_mset e (mset es)" by simp
  ultimately have "?kept \<subseteq># add_mset e (mset es)" by (rule subset_mset.order_trans)
  with \<open>?kept \<subseteq># mset es\<close> d show ?case by simp
qed simp

lemma rewritten_entries_valid:
  assumes "keys_valid es"
  shows "\<exists>es'. rewritten_entries opts es = Ok es' \<and> sst_size_bound opts es' = sst_size_bound opts es"
proof (cases "opt_external_sst_global_seqno opts")
  case None
  then show ?thesis by (simp add: rewritten_entries_def)
next
  case (Some g)
  have "\<exists>es'. zero_out_seqnos es = Ok es' \<and> length es' = length es \<and> entries_size es' = entries_size es"
    using assms
  proof (induction es)
    case (Cons e es)
    obtain k v where e: "e = (k, v)" by (cases e)
    then obtain k' where "zero_out_seqno k = Ok k'" "length k' = length k"
      using zero_out_seqno_valid[of k] Cons.prems by auto
    with Cons e show ?case by auto
  qed simp
  with Some show ?thesis by (auto simp: rewritten_entries_def sst_size_bound_def)
qed

section \<open>A compaction job\<close>

text \<open>The sources a job is given: well-formed arenas with valid keys in internal-key order.\<close>

definition sorted_source :: "ArenaSource \<Rightarrow> bool" where
  "sorted_source s \<longleftrightarrow> wf_arena s \<and> keys_valid (arena_remaining s) \<and> ik_sorted (arena_remaining s)"

abbreviation all_entries :: "ArenaSource list \<Rightarrow> entry list" where
  "all_entries ss \<equiv> concat (map arena_remaining ss)"

text \<open>\<open>merged ss xs\<close>: the entries of the sources in internal-key order.\<close>

definition merged :: "ArenaSource list \<Rightarrow> entry list \<Rightarrow> bool" where
  "merged ss xs \<longleftrightarrow> ik_sorted xs \<and> mset xs = mset (all_entries ss)"

lemma merged_valid: "\<forall>s \<in> set ss. sorted_source s \<Longrightarrow> merged ss xs \<Longrightarrow> keys_valid xs"
proof -
  assume src: "\<forall>s \<in> set ss. sorted_source s" and "merged ss xs"
  then have "set xs = set (all_entries ss)" unfolding merged_def by (intro mset_eq_setD) simp
  moreover have "keys_valid (all_entries ss)" using src unfolding sorted_source_def by fastforce
  ultimately show ?thesis by (simp only:)
qed

lemma merged_unique:
  assumes "\<forall>s \<in> set ss. sorted_source s" and "distinct (map fst (all_entries ss))"
    and "merged ss xs" and "merged ss ys"
  shows "xs = ys"
proof (rule sorted_by_unique[where rank = ikrank])
  show "ik_sorted xs" "ik_sorted ys" "mset xs = mset ys" using assms(3,4) by (simp_all add: merged_def)
  have "mset (map fst xs) = mset (map fst (all_entries ss))"
    using assms(3) by (simp only: mset_map merged_def)
  then have "distinct (map fst xs)" using assms(2) mset_eq_imp_distinct_iff by blast
  then show "distinct (map (\<lambda>e. ikrank (fst e)) xs)"
    using merged_valid[OF assms(1,3)] by (intro distinct_ikrank)
qed

text \<open>A job ends, and its file loads back to the entries the strategy keeps of a merge of the sources.\<close>

lemma compact_with_strategy_correct:
  assumes src: "\<forall>s \<in> set ss. sorted_source s"
    and size: "sst_size_bound (sst_builder opts) (all_entries ss) < 2 ^ 32"
  shows "\<exists>xs es' disk st'. merged ss xs \<and>
           rewritten_entries (sst_builder opts) (keep_run decide None st xs) = Ok es' \<and>
           sst_size_bound (sst_builder opts) es' < 2 ^ 32 \<and>
           build_sst X (sst_builder opts) (keep_run decide None st xs) = Ok disk \<and>
           compact_with_strategy X decide ss opts st = Some (Ok (disk, st')) \<and>
           load_arena_source X (blocking_file_reader disk) = Ok (arena_of es') \<and>
           wf_arena (arena_of es') \<and> arena_remaining (arena_of es') = es'"
proof -
  obtain xs where merge: "loser_tree_merge InternalKeyComparator arena_source_ops (compact_step decide)
        (compact_init st) ss = Some (Ok (feed (compact_step decide) (compact_init st) xs))"
      and xs: "merged ss xs"
    using arena_merge_sorted[of ss "compact_step decide" "compact_init st"] src
    by (auto simp: sorted_source_def merged_def)
  have valid: "keys_valid xs" by (rule merged_valid[OF src xs])
  let ?kept = "keep_run decide None st xs"
  have kept: "out_entries (feed (compact_step decide) (compact_init st) xs) = ?kept"
    using valid by (rule compact_init_keep_run)
  have "keys_valid ?kept" using valid keep_run_subset by fastforce
  then obtain es' where es': "rewritten_entries (sst_builder opts) ?kept = Ok es'"
      "sst_size_bound (sst_builder opts) es' = sst_size_bound (sst_builder opts) ?kept"
    using rewritten_entries_valid by blast
  have "sst_size_bound (sst_builder opts) ?kept \<le> sst_size_bound (sst_builder opts) (all_entries ss)"
    using keep_run_mset[of decide None st xs] xs by (intro size_bound_mono) (simp add: merged_def)
  with size es'(2) have bound: "sst_size_bound (sst_builder opts) es' < 2 ^ 32" by simp
  obtain disk where disk: "build_sst X (sst_builder opts) ?kept = Ok disk"
      "load_arena_source X (blocking_file_reader disk) = Ok (arena_of es')"
    using build_sst_load[OF es'(1) bound] by blast
  have "compact_with_strategy X decide ss opts st =
      Some (Ok (disk, strategy_state (feed (compact_step decide) (compact_init st) xs)))"
    by (simp add: compact_with_strategy_def merge kept disk(1))
  with xs es'(1) bound disk arena_of_correct[OF size_bound_fits[OF bound]] show ?thesis by blast
qed

text \<open>With the default strategy and without ingestion: the newest live versions.\<close>

lemma compact_correct:
  assumes src: "\<forall>s \<in> set ss. sorted_source s"
    and size: "sst_size_bound (sst_builder opts) (all_entries ss) < 2 ^ 32"
    and plain: "opt_external_sst_global_seqno (sst_builder opts) = None"
  shows "\<exists>xs disk s. merged ss xs \<and> compact X ss opts = Some (Ok disk) \<and>
           load_arena_source X (blocking_file_reader disk) = Ok s \<and> wf_arena s \<and>
           arena_remaining s = filter live (newest_only None xs)"
  using compact_with_strategy_correct[OF src size, of bottommost_decide "()" X] plain
  by (auto simp: compact_def rewritten_entries_def bottommost_keep_run)

lemma compact_correct_unique:
  assumes "\<forall>s \<in> set ss. sorted_source s" and "sst_size_bound (sst_builder opts) (all_entries ss) < 2 ^ 32"
    and "opt_external_sst_global_seqno (sst_builder opts) = None"
    and "distinct (map fst (all_entries ss))" and "merged ss xs"
  shows "\<exists>disk s. compact X ss opts = Some (Ok disk) \<and>
           load_arena_source X (blocking_file_reader disk) = Ok s \<and> wf_arena s \<and>
           arena_remaining s = filter live (newest_only None xs)"
  using compact_correct[OF assms(1-3), of X] merged_unique[OF assms(1,4,5)] by metis

section \<open>Cutting a list at boundary keys\<close>

text \<open>The pieces of a list that boundary user keys cut out.\<close>

fun pieces :: "bytes list \<Rightarrow> entry list \<Rightarrow> entry list list" where
  "pieces [] es = [es]"
| "pieces (b # bs) es =
     filter (\<lambda>e. ukey (fst e) < ukey b) es # pieces bs (filter (\<lambda>e. ukey b \<le> ukey (fst e)) es)"

lemma length_pieces [simp]: "length (pieces bs es) = Suc (length bs)"
  by (induction bs arbitrary: es) simp_all

lemma pieces_mset_subset: "p \<in> set (pieces bs es) \<Longrightarrow> mset p \<subseteq># mset es"
proof (induction bs arbitrary: es)
  case (Cons b bs)
  then show ?case by (auto dest!: Cons.IH intro: subset_mset.order_trans)
qed simp

lemma pieces_sorted: "ik_sorted es \<Longrightarrow> p \<in> set (pieces bs es) \<Longrightarrow> ik_sorted p"
proof (induction bs arbitrary: es)
  case (Cons b bs)
  have "ik_sorted (filter P es)" for P using Cons.prems(1) by (intro sorted_filter)
  with Cons show ?case by auto
qed simp

text \<open>The pieces of a merge are merges of the pieces.\<close>

lemma pieces_columns:
  assumes "mset xs = mset (concat ess)" and "i \<le> length bs"
  shows "mset (pieces bs xs ! i) = mset (concat (map (\<lambda>es. pieces bs es ! i) ess))"
  using assms
proof (induction bs arbitrary: xs ess i)
  case (Cons b bs)
  have part: "mset (filter P xs) = mset (concat (map (filter P) ess))" for P
    using Cons.prems(1) by (metis filter_concat mset_filter)
  show ?case
  proof (cases i)
    case 0
    then show ?thesis using part by simp
  next
    case (Suc j)
    with Cons.IH[OF part, of j] Cons.prems(2) show ?thesis by (simp add: comp_def)
  qed
qed simp

lemma sorted_split:
  assumes "sorted (map f xs)"
  shows "takeWhile (\<lambda>x. f x < (c :: 'b::linorder)) xs = filter (\<lambda>x. f x < c) xs \<and>
         dropWhile (\<lambda>x. f x < c) xs = filter (\<lambda>x. c \<le> f x) xs"
  using assms
proof (induction xs)
  case (Cons x xs)
  then show ?case
    by (auto simp: not_less intro!: filter_False[symmetric] filter_True[symmetric])
       (meson leD order_trans)
qed simp

lemma newest_only_append:
  assumes "\<forall>a \<in> set as. \<forall>b \<in> set bs. ukey (fst a) \<noteq> ukey (fst b)"
    and "\<forall>b \<in> set bs. p \<noteq> Some (ukey (fst b))"
  shows "newest_only p (as @ bs) = newest_only p as @ newest_only None bs"
  using assms
proof (induction as arbitrary: p)
  case Nil
  then show ?case by (cases bs) auto
qed simp

lemma newest_only_pieces:
  assumes "ik_sorted xs"
  shows "concat (map (\<lambda>p. filter live (newest_only None p)) (pieces bs xs)) = filter live (newest_only None xs)"
  using assms
proof (induction bs arbitrary: xs)
  case (Cons b bs)
  let ?lo = "filter (\<lambda>e. ukey (fst e) < ukey b) xs" and ?hi = "filter (\<lambda>e. ukey b \<le> ukey (fst e)) xs"
  have split: "xs = ?lo @ ?hi"
    using sorted_split[OF ik_sorted_ukey[OF Cons.prems], of "ukey b"] takeWhile_dropWhile_id by metis
  have "newest_only None (?lo @ ?hi) = newest_only None ?lo @ newest_only None ?hi"
    by (rule newest_only_append) auto
  then have "filter live (newest_only None xs) =
      filter live (newest_only None ?lo) @ filter live (newest_only None ?hi)"
    using split by (metis filter_append)
  moreover have "ik_sorted ?hi" using Cons.prems by (intro sorted_filter)
  ultimately show ?case using Cons.IH by simp
qed simp

section \<open>Sharding the sources\<close>

text \<open>A source as \<open>build\<close> leaves it: nothing consumed, nothing cut off.\<close>

definition whole_source :: "ArenaSource \<Rightarrow> bool" where
  "whole_source s \<longleftrightarrow> sorted_source s \<and> arena_pos s = 0 \<and> arena_end s = length (spans s)"

lemma whole_source_entries:
  assumes "whole_source s"
  shows "arena_remaining s = arena_entries s" and "wf_arena s" and "keys_valid (arena_entries s)"
    and "ik_sorted (arena_entries s)"
proof -
  show eq: "arena_remaining s = arena_entries s"
    using assms by (simp add: whole_source_def arena_remaining_def)
  show "wf_arena s" "keys_valid (arena_entries s)" "ik_sorted (arena_entries s)"
    using assms unfolding whole_source_def sorted_source_def eq by simp_all
qed

lemma whole_source_lower_bound:
  assumes "whole_source s" and "valid_key b"
  shows "lower_bound s b = Ok (length (takeWhile (\<lambda>e. ukey (fst e) < ukey b) (arena_entries s)))"
  using whole_source_entries[OF assms(1)] ik_sorted_ukey[of "arena_entries s"] assms(2)
  by (intro lower_bound_correct) (auto simp: list_all_iff comp_def)

lemma length_takeWhile_mono: "(\<And>x. P x \<Longrightarrow> Q x) \<Longrightarrow> length (takeWhile P xs) \<le> length (takeWhile Q xs)"
  by (induction xs) auto

lemma cut_from:
  assumes sorted: "sorted (map (\<lambda>e. ukey (fst e)) es)" and n: "n = length (takeWhile (\<lambda>e. ukey (fst e) < u) es)"
    and start: "start \<le> n"
  shows "drop start (take n es) = filter (\<lambda>e. ukey (fst e) < u) (drop start es) \<and>
         drop n es = filter (\<lambda>e. u \<le> ukey (fst e)) (drop start es)"
proof -
  let ?P = "\<lambda>e. ukey (fst e) < u"
  have take: "take n es = takeWhile ?P es" and drop: "drop n es = dropWhile ?P es"
    unfolding n by (rule takeWhile_eq_take[symmetric], rule dropWhile_eq_drop[symmetric])
  have all: "?P x" if "x \<in> set (take start es)" for x
    using set_take_subset_set_take[OF start, of es] that take by (auto dest: set_takeWhileD)
  have "takeWhile ?P es = take start es @ takeWhile ?P (drop start es)"
      "dropWhile ?P es = dropWhile ?P (drop start es)"
    using takeWhile_append2[of "take start es" ?P "drop start es"]
      dropWhile_append2[of "take start es" ?P "drop start es"] all by simp_all
  moreover have "start \<le> length es" using start n length_takeWhile_le le_trans by blast
  ultimately have "drop start (take n es) = takeWhile ?P (drop start es)"
      "drop n es = dropWhile ?P (drop start es)"
    using take drop by simp_all
  moreover have "sorted (map (\<lambda>e. ukey (fst e)) (drop start es))"
    using sorted by (simp add: sorted_wrt_drop flip: drop_map)
  ultimately show ?thesis using sorted_split[of "\<lambda>e. ukey (fst e)" "drop start es" u] by simp
qed

text \<open>One source spread over the shard inputs from \<open>shard_idx\<close> on.\<close>

definition spread :: "nat \<Rightarrow> ArenaSource list list \<Rightarrow> entry list list \<Rightarrow> ArenaSource list list \<Rightarrow> bool" where
  "spread i inputs ps inputs' \<longleftrightarrow> length inputs' = length inputs \<and>
     (\<forall>j < i. inputs' ! j = inputs ! j) \<and>
     (\<forall>j < length ps. \<exists>t. inputs' ! (i + j) = inputs ! (i + j) @ [t] \<and> wf_arena t \<and> arena_remaining t = ps ! j)"

lemma spread_Cons:
  assumes "spread (Suc i) (inputs[i := inputs ! i @ [t]]) ps inputs'" and "i < length inputs"
    and "wf_arena t" and "arena_remaining t = p"
  shows "spread i inputs (p # ps) inputs'"
  using assms by (auto simp: spread_def nth_Cons split: nat.split)

lemma shard_source_correct:
  assumes "whole_source s" and "\<forall>b \<in> set bs. valid_key b" and "sorted (map ukey bs)"
    and "\<forall>b \<in> set bs. start \<le> length (takeWhile (\<lambda>e. ukey (fst e) < ukey b) (arena_entries s))"
    and "start \<le> length (arena_entries s)" and "length inputs = i + length bs + 1"
  shows "\<exists>inputs'. shard_source s i start bs inputs = Ok inputs' \<and>
           spread i inputs (pieces bs (drop start (arena_entries s))) inputs'"
  using assms
proof (induction bs arbitrary: i start inputs)
  case Nil
  note whole = whole_source_entries[OF Nil.prems(1)]
  obtain t where "arena_source_shard s start (length (spans s)) = Ok t" "wf_arena t"
      "arena_remaining t = drop start (arena_entries s)"
    using arena_shard_remaining[of start "length (spans s)" s] whole(2) Nil.prems(5) by auto
  with Nil.prems(6) show ?case
    by (simp add: push_input_def total_len_def spread_def)
next
  case (Cons b bs)
  note whole = whole_source_entries[OF Cons.prems(1)]
  have srt: "sorted (map (\<lambda>e. ukey (fst e)) (arena_entries s))"
    using whole(4) by (rule ik_sorted_ukey)
  define n where "n = length (takeWhile (\<lambda>e. ukey (fst e) < ukey b) (arena_entries s))"
  have n: "lower_bound s b = Ok n" "start \<le> n" "n \<le> length (arena_entries s)"
    using whole_source_lower_bound[OF Cons.prems(1)] Cons.prems(2,4)
    unfolding n_def by (simp, simp, intro length_takeWhile_le)
  note cut = cut_from[OF srt n_def n(2)]
  obtain t where t: "arena_source_shard s start n = Ok t" "wf_arena t"
      "arena_remaining t = drop start (take n (arena_entries s))"
    using arena_shard_remaining[OF n(2), of s] n(3) whole(2) by auto
  have later: "n \<le> length (takeWhile (\<lambda>e. ukey (fst e) < ukey b') (arena_entries s))" if "b' \<in> set bs" for b'
  proof -
    have "ukey b \<le> ukey b'" using Cons.prems(3) that by simp
    then show ?thesis unfolding n_def by (intro length_takeWhile_mono) auto
  qed
  let ?inputs = "inputs[i := inputs ! i @ [t]]"
  obtain inputs' where inputs': "shard_source s (i + 1) n bs ?inputs = Ok inputs'"
      "spread (Suc i) ?inputs (pieces bs (drop n (arena_entries s))) inputs'"
    using Cons.IH[of n ?inputs "Suc i"] Cons.prems later n(3) by auto
  have "spread i inputs (pieces (b # bs) (drop start (arena_entries s))) inputs'"
    using spread_Cons[OF inputs'(2) _ t(2,3)] cut Cons.prems(6) by simp
  with n(1) t(1) inputs'(1) Cons.prems(6) show ?case by (simp add: push_input_def)
qed

text \<open>All sources spread: shard input \<open>j\<close> holds the \<open>j\<close>-th piece of every source.\<close>

lemma shard_sources_correct:
  assumes "\<forall>s \<in> set ss. whole_source s" and "\<forall>b \<in> set bs. valid_key b" and "sorted (map ukey bs)"
    and "length inputs = length bs + 1"
  shows "\<exists>inputs'. shard_sources bs ss inputs = Ok inputs' \<and> length inputs' = length inputs \<and>
           (\<forall>j \<le> length bs. \<exists>ts. inputs' ! j = inputs ! j @ ts \<and> (\<forall>t \<in> set ts. wf_arena t) \<and>
              map arena_remaining ts = map (\<lambda>s. pieces bs (arena_entries s) ! j) ss)"
  using assms
proof (induction ss arbitrary: inputs)
  case (Cons s ss)
  obtain inputs1 where in1: "shard_source s 0 0 bs inputs = Ok inputs1"
      "spread 0 inputs (pieces bs (arena_entries s)) inputs1"
    using shard_source_correct[of s bs 0 inputs 0] Cons.prems by auto
  have len1: "length inputs1 = length inputs" using in1(2) by (simp add: spread_def)
  obtain inputs2 where in2: "shard_sources bs ss inputs1 = Ok inputs2" "length inputs2 = length inputs1"
      "\<forall>j \<le> length bs. \<exists>ts. inputs2 ! j = inputs1 ! j @ ts \<and> (\<forall>t \<in> set ts. wf_arena t) \<and>
         map arena_remaining ts = map (\<lambda>s. pieces bs (arena_entries s) ! j) ss"
    using Cons.IH[of inputs1] Cons.prems len1 by auto
  have "\<exists>ts. inputs2 ! j = inputs ! j @ ts \<and> (\<forall>t \<in> set ts. wf_arena t) \<and>
      map arena_remaining ts = map (\<lambda>s. pieces bs (arena_entries s) ! j) (s # ss)" if j: "j \<le> length bs" for j
  proof -
    obtain t where "inputs1 ! j = inputs ! j @ [t]" "wf_arena t"
        "arena_remaining t = pieces bs (arena_entries s) ! j"
      using in1(2) j by (auto simp: spread_def less_Suc_eq_le)
    moreover obtain ts where "inputs2 ! j = inputs1 ! j @ ts" "\<forall>t \<in> set ts. wf_arena t"
        "map arena_remaining ts = map (\<lambda>s. pieces bs (arena_entries s) ! j) ss"
      using in2(3) j by blast
    ultimately show ?thesis by (intro exI[of _ "t # ts"]) simp
  qed
  with in1(1) in2(1,2) len1 show ?case by simp
qed simp

lemma max_by_key_correct:
  assumes "xs \<noteq> []"
  shows "\<exists>m. max_by_key f xs = Some m \<and> m \<in> set xs \<and> (\<forall>x \<in> set xs. f x \<le> f m)"
proof -
  have "foldl (\<lambda>m y. if f m \<le> f y then y else m) x ys \<in> set (x # ys) \<and>
      (\<forall>z \<in> set (x # ys). f z \<le> f (foldl (\<lambda>m y. if f m \<le> f y then y else m) x ys))" for x ys
  proof (induction ys arbitrary: x)
    case (Cons y ys)
    show ?case using Cons.IH[of "if f x \<le> f y then y else x"] by (auto split: if_splits)
  qed simp
  with assms show ?thesis by (cases xs) auto
qed

text \<open>The boundary keys, as positions in the largest source.\<close>

lemma boundary_keys:
  assumes whole: "whole_source m" and n: "0 < n" "n = total_len m" and room: "n * num_shards < 2 ^ 64"
  defines "at \<equiv> \<lambda>i. fst (arena_entries m ! min (n * i div num_shards) (n - 1))"
  shows "i < num_shards \<Longrightarrow> obind (usize_mul n i) (\<lambda>k. let idx = k div num_shards in key_at m (min idx (n - 1))) = Ok (at i)"
    and "valid_key (at i)" and "i \<le> j \<Longrightarrow> ukey (at i) \<le> ukey (at j)"
proof -
  note ws = whole_source_entries[OF whole]
  have idx: "min k (n - 1) < length (spans m)" for k using n unfolding total_len_def by linarith
  show "obind (usize_mul n i) (\<lambda>k. let idx = k div num_shards in key_at m (min idx (n - 1))) = Ok (at i)"
    if "i < num_shards"
  proof -
    have "n * i \<le> n * num_shards" using that by simp
    then have "n * i < 2 ^ 64" using room by (rule le_less_trans)
    then show ?thesis using ws(2) idx by (simp add: usize_mul_def key_at_Ok at_def)
  qed
  show "valid_key (at i)"
    unfolding at_def by (intro bspec[OF ws(3)] nth_mem) (simp only: length_arena_entries idx)
  show "ukey (at i) \<le> ukey (at j)" if "i \<le> j"
  proof -
    have "min (n * i div num_shards) (n - 1) \<le> min (n * j div num_shards) (n - 1)"
      using that by (intro min.mono div_le_mono) simp_all
    then show ?thesis
      using sorted_nth_mono[OF ik_sorted_ukey[OF ws(4)], of "min (n * i div num_shards) (n - 1)"
          "min (n * j div num_shards) (n - 1)"]
      by (simp add: at_def idx del: One_nat_def)
  qed
qed

lemma pick_boundaries_at:
  assumes m: "max_by_key total_len ss = Some m" and whole: "whole_source m" and pos: "0 < total_len m"
    and room: "total_len m * num_shards < 2 ^ 64"
  shows "pick_shard_boundaries ss num_shards =
    Ok (map (\<lambda>i. fst (arena_entries m ! min (total_len m * i div num_shards) (total_len m - 1))) [1..<num_shards])"
proof -
  have "omap (\<lambda>i. obind (usize_mul (total_len m) i) (\<lambda>k.
      let idx = k div num_shards in key_at m (min idx (total_len m - 1)))) [1..<num_shards] =
    Ok (map (\<lambda>i. fst (arena_entries m ! min (total_len m * i div num_shards) (total_len m - 1))) [1..<num_shards])"
    using boundary_keys(1)[OF whole pos refl room] by (intro omap_Ok) simp
  with m pos show ?thesis by (simp add: pick_shard_boundaries_def Let_def)
qed

lemma pick_shard_boundaries_correct:
  assumes "\<forall>s \<in> set ss. whole_source s" and "ss \<noteq> []"
    and room: "\<forall>s \<in> set ss. total_len s * num_shards < 2 ^ 64"
  shows "\<exists>bs. pick_shard_boundaries ss num_shards = Ok bs \<and> (\<forall>b \<in> set bs. valid_key b) \<and>
           sorted (map ukey bs) \<and> length bs = (if \<forall>s \<in> set ss. total_len s = 0 then 0 else num_shards - 1)"
proof -
  obtain m where m: "max_by_key total_len ss = Some m" "m \<in> set ss" "\<forall>s \<in> set ss. total_len s \<le> total_len m"
    using max_by_key_correct[OF assms(2)] by blast
  show ?thesis
  proof (cases "total_len m = 0")
    case True
    with m show ?thesis by (auto simp: pick_shard_boundaries_def)
  next
    case False
    define n where "n = total_len m"
    define at where "at i = fst (arena_entries m ! min (n * i div num_shards) (n - 1))" for i
    have pos: "0 < n" and fits: "n * num_shards < 2 ^ 64" using False room m(2) by (simp_all add: n_def)
    note keys = boundary_keys[OF bspec[OF assms(1) m(2)] pos n_def fits, folded at_def]
    have pick: "pick_shard_boundaries ss num_shards = Ok (map at [1..<num_shards])"
      using pick_boundaries_at[OF m(1) bspec[OF assms(1) m(2)], of num_shards] pos fits by (simp add: n_def at_def)
    have "sorted (map ukey (map at [1..<num_shards]))"
      using keys(3) by (simp add: sorted_map sorted_wrt_map sorted_wrt_upt sorted_wrt_iff_nth_less)
    moreover have "\<not> (\<forall>s \<in> set ss. total_len s = 0)" using False m(2) by auto
    ultimately show ?thesis using pick keys(2) by auto
  qed
qed

section \<open>The sharded job\<close>

lemma await_tasks_Ok: "await_tasks (map (\<lambda>j. Some (Ok (d j))) js) = Some (Ok (map d js))"
  by (induction js) simp_all

lemma whole_sources_sorted: "\<forall>s \<in> set ss. whole_source s \<Longrightarrow> \<forall>s \<in> set ss. sorted_source s"
  by (simp add: whole_source_def)

text \<open>The sources of shard \<open>j\<close>: sorted, and their merge is the \<open>j\<close>-th piece of the merge.\<close>

lemma shard_sources_sorted:
  assumes whole: "\<forall>s \<in> set ss. whole_source s" and xs: "merged ss xs" and j: "j \<le> length bs"
    and wf: "\<forall>t \<in> set ts. wf_arena t"
    and ts: "map arena_remaining ts = map (\<lambda>s. pieces bs (arena_entries s) ! j) ss"
  shows "\<forall>t \<in> set ts. sorted_source t" and "merged ts (pieces bs xs ! j)"
proof -
  show "\<forall>t \<in> set ts. sorted_source t"
  proof
    fix t assume t: "t \<in> set ts"
    then have "arena_remaining t \<in> set (map (\<lambda>s. pieces bs (arena_entries s) ! j) ss)"
      unfolding ts[symmetric] by simp
    then obtain s where s: "s \<in> set ss" "arena_remaining t = pieces bs (arena_entries s) ! j" by auto
    note ws = whole_source_entries[OF bspec[OF whole s(1)]]
    have p: "arena_remaining t \<in> set (pieces bs (arena_entries s))" using s(2) j by simp
    have "set (arena_remaining t) \<subseteq> set (arena_entries s)"
      using pieces_mset_subset[OF p] by (metis set_mset_mono set_mset_mset)
    then show "sorted_source t"
      using wf t ws(3) pieces_sorted[OF ws(4) p] unfolding sorted_source_def by blast
  qed
  have "map arena_entries ss = map arena_remaining ss"
    using whole by (simp add: whole_source_entries(1))
  then have "mset xs = mset (concat (map arena_entries ss))"
    using xs unfolding merged_def by (simp only:)
  from pieces_columns[OF this j] have "mset (pieces bs xs ! j) = mset (all_entries ts)"
    by (simp only: ts map_map comp_def)
  moreover have "ik_sorted (pieces bs xs ! j)"
  proof (rule pieces_sorted)
    show "ik_sorted xs" using xs unfolding merged_def by (rule conjunct1)
    show "pieces bs xs ! j \<in> set (pieces bs xs)" using j by simp
  qed
  ultimately show "merged ts (pieces bs xs ! j)" by (simp add: merged_def)
qed

lemma mset_subset_distinct: "mset xs \<subseteq># mset ys \<Longrightarrow> distinct (map f ys) \<Longrightarrow> distinct (map f xs)"
proof -
  assume "mset xs \<subseteq># mset ys" and d: "distinct (map f ys)"
  then obtain zs where "mset ys = mset (xs @ zs)" by (metis ex_mset mset_append subset_mset.le_iff_add)
  then have "mset (map f ys) = mset (map f (xs @ zs))" by (simp only: mset_map)
  then have "distinct (map f (xs @ zs))" using d mset_eq_imp_distinct_iff by blast
  then show ?thesis by simp
qed

lemma compact_shard:
  assumes whole: "\<forall>s \<in> set ss. whole_source s" and xs: "merged ss xs" and j: "j \<le> length bs"
    and size: "sst_size_bound (sst_builder opts) (all_entries ss) < 2 ^ 32"
    and plain: "opt_external_sst_global_seqno (sst_builder opts) = None"
    and dist: "distinct (map fst (all_entries ss))"
    and wf: "\<forall>t \<in> set ts. wf_arena t"
    and ts: "map arena_remaining ts = map (\<lambda>s. pieces bs (arena_entries s) ! j) ss"
  shows "\<exists>disk s. compact X ts opts = Some (Ok disk) \<and>
           load_arena_source X (blocking_file_reader disk) = Ok s \<and> wf_arena s \<and>
           arena_remaining s = filter live (newest_only None (pieces bs xs ! j))"
proof -
  note shard = shard_sources_sorted[OF whole xs j wf ts]
  have "mset (pieces bs xs ! j) \<subseteq># mset xs" using j by (intro pieces_mset_subset[of _ bs]) simp
  then have sub: "mset (all_entries ts) \<subseteq># mset (all_entries ss)"
    using shard(2) xs by (simp add: merged_def)
  have "sst_size_bound (sst_builder opts) (all_entries ts) < 2 ^ 32"
    using size_bound_mono[OF sub, of "sst_builder opts"] size by simp
  moreover have "distinct (map fst (all_entries ts))" using sub dist by (rule mset_subset_distinct)
  ultimately show ?thesis using compact_correct_unique[OF shard(1) _ plain _ shard(2)] by blast
qed

lemma shard_room:
  assumes whole: "\<forall>s \<in> set ss. whole_source s" and size: "sst_size_bound opts (all_entries ss) < 2 ^ 32"
    and shards: "num_shards < 2 ^ 32" and s: "s \<in> set ss"
  shows "total_len s * num_shards < 2 ^ 64"
proof -
  have "arena_entries s = arena_remaining s" using whole s by (simp add: whole_source_entries(1))
  then have "total_len s \<le> length (all_entries ss)"
    using member_le_sum_list[of "length (arena_remaining s)" "map length (map arena_remaining ss)"] s
    by (simp add: total_len_def length_concat flip: length_arena_entries)
  then have "total_len s < 2 ^ 32" using size by (simp add: sst_size_bound_def)
  then show ?thesis using shards mult_strict_mono[of "total_len s" "2 ^ 32" num_shards "2 ^ 32"] by simp
qed

text \<open>What the cut produces: the boundaries, and the sources of each shard with their pieces.\<close>

lemma shards_cut:
  assumes whole: "\<forall>s \<in> set ss. whole_source s" and "\<forall>s \<in> set ss. total_len s * num_shards < 2 ^ 64"
    and "1 < num_shards" and "ss \<noteq> []"
  shows "\<exists>bs inputs. pick_shard_boundaries ss num_shards = Ok bs \<and>
    shard_sources bs ss (replicate (length bs + 1) []) = Ok inputs \<and>
    length bs = (if \<forall>s \<in> set ss. total_len s = 0 then 0 else num_shards - 1) \<and>
    length inputs = length bs + 1 \<and>
    (\<forall>j \<le> length bs. (\<forall>t \<in> set (inputs ! j). wf_arena t) \<and>
       map arena_remaining (inputs ! j) = map (\<lambda>s. pieces bs (arena_entries s) ! j) ss)"
proof -
  obtain bs where bs: "pick_shard_boundaries ss num_shards = Ok bs" "\<forall>b \<in> set bs. valid_key b"
      "sorted (map ukey bs)" "length bs = (if \<forall>s \<in> set ss. total_len s = 0 then 0 else num_shards - 1)"
    using pick_shard_boundaries_correct[OF whole, of num_shards] assms(2-4) by auto
  obtain inputs where inputs: "shard_sources bs ss (replicate (length bs + 1) []) = Ok inputs"
      "length inputs = length bs + 1"
      "\<forall>j \<le> length bs. \<exists>ts. inputs ! j = replicate (length bs + 1) [] ! j @ ts \<and> (\<forall>t \<in> set ts. wf_arena t) \<and>
         map arena_remaining ts = map (\<lambda>s. pieces bs (arena_entries s) ! j) ss"
    using shard_sources_correct[OF whole bs(2,3), of "replicate (length bs + 1) []"] by auto
  have "(\<forall>t \<in> set (inputs ! j). wf_arena t) \<and>
      map arena_remaining (inputs ! j) = map (\<lambda>s. pieces bs (arena_entries s) ! j) ss" if "j \<le> length bs" for j
    using inputs(3) that by (auto simp del: replicate_Suc)
  with bs(1,4) inputs(1,2) show ?thesis by blast
qed

lemma compact_shards:
  assumes whole: "\<forall>s \<in> set ss. whole_source s" and xs: "merged ss xs"
    and size: "sst_size_bound (sst_builder opts) (all_entries ss) < 2 ^ 32"
    and plain: "opt_external_sst_global_seqno (sst_builder opts) = None"
    and dist: "distinct (map fst (all_entries ss))" and len: "length inputs = length bs + 1"
    and inputs: "\<forall>j \<le> length bs. (\<forall>t \<in> set (inputs ! j). wf_arena t) \<and>
       map arena_remaining (inputs ! j) = map (\<lambda>s. pieces bs (arena_entries s) ! j) ss"
  shows "\<exists>disks outs. map (\<lambda>ts. compact X ts opts) inputs = map (\<lambda>d. Some (Ok d)) disks \<and>
    list_all2 (\<lambda>disk s. load_arena_source X (blocking_file_reader disk) = Ok s \<and> wf_arena s) disks outs \<and>
    concat (map arena_remaining outs) = filter live (newest_only None xs)"
proof -
  have "\<exists>disk s. compact X (inputs ! j) opts = Some (Ok disk) \<and>
           load_arena_source X (blocking_file_reader disk) = Ok s \<and> wf_arena s \<and>
           arena_remaining s = filter live (newest_only None (pieces bs xs ! j))" if "j \<le> length bs" for j
    using inputs that by (intro compact_shard[OF whole xs that size plain dist]) auto
  then obtain d s where ds: "\<forall>j \<le> length bs. compact X (inputs ! j) opts = Some (Ok (d j)) \<and>
           load_arena_source X (blocking_file_reader (d j)) = Ok (s j) \<and> wf_arena (s j) \<and>
           arena_remaining (s j) = filter live (newest_only None (pieces bs xs ! j))"
    by metis
  let ?js = "[0..<length bs + 1]"
  have "map (\<lambda>ts. compact X ts opts) inputs = map (\<lambda>d. Some (Ok d)) (map d ?js)"
    using ds len by (intro nth_equalityI) (auto simp: less_Suc_eq_le simp del: upt_Suc)
  moreover have "map arena_remaining (map s ?js) = map (\<lambda>p. filter live (newest_only None p)) (pieces bs xs)"
    using ds by (intro nth_equalityI) (auto simp: less_Suc_eq_le simp del: upt_Suc)
  then have "concat (map arena_remaining (map s ?js)) = filter live (newest_only None xs)"
    using newest_only_pieces[of xs bs] xs by (simp add: merged_def del: upt_Suc)
  moreover have "list_all2 (\<lambda>disk s. load_arena_source X (blocking_file_reader disk) = Ok s \<and> wf_arena s)
      (map d ?js) (map s ?js)"
    using ds by (simp add: list_all2_conv_all_nth less_Suc_eq_le del: upt_Suc)
  ultimately show ?thesis by blast
qed

lemma compact_sharded_correct:
  assumes whole: "\<forall>s \<in> set ss. whole_source s" and xs: "merged ss xs"
    and size: "sst_size_bound (sst_builder opts) (all_entries ss) < 2 ^ 32"
    and plain: "opt_external_sst_global_seqno (sst_builder opts) = None"
    and dist: "distinct (map fst (all_entries ss))" and shards: "num_shards < 2 ^ 32"
  shows "\<exists>disks outs. compact_sharded X ss num_shards opts = Some (Ok disks) \<and>
           list_all2 (\<lambda>disk s. load_arena_source X (blocking_file_reader disk) = Ok s \<and> wf_arena s) disks outs \<and>
           concat (map arena_remaining outs) = filter live (newest_only None xs) \<and>
           length disks = (if \<forall>s \<in> set ss. total_len s = 0 then 1 else max num_shards 1)"
proof (cases "num_shards \<le> 1 \<or> ss = []")
  case True
  obtain disk s where "compact X ss opts = Some (Ok disk)"
      "load_arena_source X (blocking_file_reader disk) = Ok s" "wf_arena s"
      "arena_remaining s = filter live (newest_only None xs)"
    using compact_correct_unique[OF whole_sources_sorted[OF whole] size plain dist xs] by blast
  with True show ?thesis
    by (intro exI[of _ "[disk]"] exI[of _ "[s]"]) (auto simp: compact_sharded_def)
next
  case False
  have room: "\<forall>s \<in> set ss. total_len s * num_shards < 2 ^ 64" using shard_room[OF whole size shards] by blast
  from False obtain bs inputs where bs: "pick_shard_boundaries ss num_shards = Ok bs"
      "length bs = (if \<forall>s \<in> set ss. total_len s = 0 then 0 else num_shards - 1)"
      and inputs: "shard_sources bs ss (replicate (length bs + 1) []) = Ok inputs" "length inputs = length bs + 1"
        "\<forall>j \<le> length bs. (\<forall>t \<in> set (inputs ! j). wf_arena t) \<and>
           map arena_remaining (inputs ! j) = map (\<lambda>s. pieces bs (arena_entries s) ! j) ss"
    using shards_cut[OF whole room] by auto
  obtain disks outs where disks: "map (\<lambda>ts. compact X ts opts) inputs = map (\<lambda>d. Some (Ok d)) disks"
      "list_all2 (\<lambda>disk s. load_arena_source X (blocking_file_reader disk) = Ok s \<and> wf_arena s) disks outs"
      "concat (map arena_remaining outs) = filter live (newest_only None xs)"
    using compact_shards[OF whole xs size plain dist inputs(2,3)] by blast
  have "compact_sharded X ss num_shards opts = Some (Ok disks)"
    using False bs(1) inputs(1) disks(1) by (simp add: compact_sharded_def await_tasks_Ok del: replicate_Suc)
  moreover have "length disks = length bs + 1" using disks(1) inputs(2) by (metis length_map)
  ultimately show ?thesis
    using bs(2) False disks(2,3) by (intro exI[of _ disks] exI[of _ outs]) auto
qed

section \<open>The abstract store\<close>

text \<open>
  What a set of sources means to a reader at sequence number \<open>s\<close>, whatever the order of the entries
  and whatever the compactor does with them. The version of the key with the greatest packed sequence
  and type among those old enough decides, unless a range deletion that the reader sees is newer and
  covers the key: it deletes the user keys from its own up to its value. \<open>point_entry\<close> are the entries
  whose meaning does not depend on other entries: no range deletions, merge operands or unknown types.
\<close>

fun newest_at :: "u64 \<Rightarrow> entry list \<Rightarrow> bytes \<Rightarrow> entry option" where
  "newest_at s [] uk = None"
| "newest_at s (e # es) uk =
     (let r = newest_at s es uk
      in if ukey (fst e) = uk \<and> seqno (fst e) \<le> s then
           (case r of
              None \<Rightarrow> Some e
            | Some e' \<Rightarrow> if packed (fst e') < packed (fst e) then Some e else r)
         else r)"

definition range_deleted :: "u64 \<Rightarrow> entry list \<Rightarrow> bytes \<Rightarrow> u64 \<Rightarrow> bool" where
  "range_deleted s es uk seq \<longleftrightarrow>
     (\<exists>e \<in> set es. vtype (fst e) = RangeDeletion \<and> ukey (fst e) \<le> uk \<and> uk < snd e \<and>
        seqno (fst e) \<le> s \<and> seq < seqno (fst e))"

definition store_at :: "u64 \<Rightarrow> entry list \<Rightarrow> bytes \<Rightarrow> reading" where
  "store_at s es uk =
     (case newest_at s (filter (\<lambda>e. vtype (fst e) \<noteq> RangeDeletion) es) uk of
        None \<Rightarrow> NotFound
      | Some e \<Rightarrow> if range_deleted s es uk (seqno (fst e)) then NotFound else read_of (Some e))"

definition store :: "entry list \<Rightarrow> bytes \<Rightarrow> reading" where
  "store es = store_at (- 1) es"

definition point_entry :: "entry \<Rightarrow> bool" where
  "point_entry e \<longleftrightarrow> vtype (fst e) \<in> {Value, Deletion, SingleDeletion, BlobIndex}"

lemma store_at_points:
  assumes "\<forall>e \<in> set es. point_entry e"
  shows "store_at s es uk = read_of (newest_at s es uk)"
proof -
  have plain: "\<forall>e \<in> set es. vtype (fst e) \<noteq> RangeDeletion" using assms by (auto simp: point_entry_def)
  then have "filter (\<lambda>e. vtype (fst e) \<noteq> RangeDeletion) es = es" by simp
  then show ?thesis
    using plain by (auto simp: store_at_def range_deleted_def split: option.split)
qed

lemma newest_at_None: "newest_at s es uk = None \<longleftrightarrow> (\<forall>e \<in> set es. ukey (fst e) = uk \<longrightarrow> \<not> seqno (fst e) \<le> s)"
  by (induction es) (auto simp: Let_def split: option.splits)

lemma newest_at_Some:
  "newest_at s es uk = Some e \<Longrightarrow>
     e \<in> set es \<and> ukey (fst e) = uk \<and> seqno (fst e) \<le> s \<and>
     (\<forall>e' \<in> set es. ukey (fst e') = uk \<longrightarrow> seqno (fst e') \<le> s \<longrightarrow> packed (fst e') \<le> packed (fst e))"
proof (induction es arbitrary: e)
  case (Cons x xs)
  show ?case
  proof (cases "newest_at s xs uk")
    case None
    with Cons.prems show ?thesis
      using newest_at_None[of s xs uk] by (auto simp: Let_def split: if_splits)
  next
    case (Some e')
    with Cons.prems Cons.IH[OF Some] show ?thesis
      by (auto simp: Let_def not_less split: if_splits)
  qed
qed simp

lemma visible_None: "visible s es uk = None \<longleftrightarrow> (\<forall>e \<in> set es. ukey (fst e) = uk \<longrightarrow> \<not> seqno (fst e) \<le> s)"
  by (auto simp: visible_def find_None_iff)

lemma newest_at_visible:
  assumes "keys_valid es" and "distinct (map fst es)" and "ik_sorted xs" and "mset xs = mset es"
  shows "newest_at s es uk = visible s xs uk"
proof (cases "visible s xs uk")
  case None
  then have "newest_at s es uk = None"
    using mset_eq_setD[OF assms(4)] unfolding visible_None newest_at_None by simp
  with None show ?thesis by simp
next
  case (Some e)
  have set: "set xs = set es" using assms(4) by (rule mset_eq_setD)
  note e = visible_is_newest[OF assms(3) Some, unfolded set]
  obtain e' where e': "newest_at s es uk = Some e'"
    using e newest_at_None[of s es uk] by fastforce
  note new = newest_at_Some[OF e']
  have "packed (fst e) \<le> packed (fst e')" "packed (fst e') \<le> packed (fst e)"
    using e new by blast+
  then have "packed (fst e) = packed (fst e')" by (rule order_antisym)
  then have "fst e = fst e'" using e new assms(1) by (simp add: key_eq_iff)
  then have "e = e'" using e new assms(2) by (metis distinct_map inj_onD)
  with Some e' show ?thesis by simp
qed

lemma newest_at_sorted:
  assumes "keys_valid es" and "distinct (map fst es)" and "ik_sorted es"
  shows "newest_at s es uk = visible s es uk"
  using newest_at_visible[OF assms refl] .

section \<open>The contract of a strategy\<close>

locale read_preserving =
  fixes decide :: "'st decide" and init :: 'st and read :: "entry list \<Rightarrow> bytes \<Rightarrow> reading"
  assumes reads_kept: "ik_sorted es \<Longrightarrow> read (keep_run decide None init es) uk = read es uk"
begin

lemma job_keeps_reads:
  assumes "\<forall>s \<in> set ss. sorted_source s"
    and "sst_size_bound (sst_builder opts) (all_entries ss) < 2 ^ 32"
    and "opt_external_sst_global_seqno (sst_builder opts) = None"
  shows "\<exists>xs disk st' s. merged ss xs \<and> compact_with_strategy X decide ss opts init = Some (Ok (disk, st')) \<and>
           load_arena_source X (blocking_file_reader disk) = Ok s \<and> sorted_source s \<and>
           mset (arena_remaining s) \<subseteq># mset (all_entries ss) \<and>
           (\<forall>uk. read (arena_remaining s) uk = read xs uk)"
proof -
  obtain xs es' disk st' where job: "merged ss xs"
      "rewritten_entries (sst_builder opts) (keep_run decide None init xs) = Ok es'"
      "compact_with_strategy X decide ss opts init = Some (Ok (disk, st'))"
      "load_arena_source X (blocking_file_reader disk) = Ok (arena_of es')"
      "wf_arena (arena_of es')" "arena_remaining (arena_of es') = es'"
    using compact_with_strategy_correct[OF assms(1,2), of decide init X] by blast
  have es': "es' = keep_run decide None init xs"
    using job(2) assms(3) by (simp add: rewritten_entries_def)
  have xs: "ik_sorted xs" using job(1) unfolding merged_def by (rule conjunct1)
  have "sorted_source (arena_of es')"
    using job(5) merged_valid[OF assms(1) job(1)] keep_run_ik_sorted[OF xs, of decide None init]
      keep_run_subset[of decide None init xs]
    unfolding sorted_source_def job(6) unfolding es' by blast
  moreover have "mset es' \<subseteq># mset (all_entries ss)"
    using keep_run_mset[of decide None init xs] job(1) es' by (simp add: merged_def)
  ultimately show ?thesis
    using job(1,3,4,6) es' reads_kept[OF xs] by metis
qed

text \<open>With no internal key twice, and point entries only, the read of the merge is the read of the store.\<close>

lemma job_refines_store:
  assumes src: "\<forall>s \<in> set ss. sorted_source s"
    and size: "sst_size_bound (sst_builder opts) (all_entries ss) < 2 ^ 32"
    and plain: "opt_external_sst_global_seqno (sst_builder opts) = None"
    and dist: "distinct (map fst (all_entries ss))"
    and points: "\<forall>e \<in> set (all_entries ss). point_entry e"
    and read: "\<And>es uk. read es uk = read_of (visible q es uk)"
  shows "\<exists>disk st' s. compact_with_strategy X decide ss opts init = Some (Ok (disk, st')) \<and>
           load_arena_source X (blocking_file_reader disk) = Ok s \<and> sorted_source s \<and>
           store_at q (arena_remaining s) = store_at q (all_entries ss)"
proof -
  obtain xs disk st' s where job: "merged ss xs"
      "compact_with_strategy X decide ss opts init = Some (Ok (disk, st'))"
      "load_arena_source X (blocking_file_reader disk) = Ok s" "sorted_source s"
      "mset (arena_remaining s) \<subseteq># mset (all_entries ss)"
      "\<forall>uk. read (arena_remaining s) uk = read xs uk"
    using job_keeps_reads[OF src size plain, of X] by blast
  have "keys_valid (all_entries ss)" using src unfolding sorted_source_def by fastforce
  then have "newest_at q (all_entries ss) uk = visible q xs uk" for uk
    using dist job(1) unfolding merged_def by (intro newest_at_visible) blast+
  moreover have "newest_at q (arena_remaining s) uk = visible q (arena_remaining s) uk" for uk
    using job(4) mset_subset_distinct[OF job(5) dist] unfolding sorted_source_def
    by (intro newest_at_sorted) blast+
  moreover have "\<forall>e \<in> set (arena_remaining s). point_entry e"
    using points set_mset_mono[OF job(5)] unfolding set_mset_mset by blast
  ultimately have "store_at q (arena_remaining s) = store_at q (all_entries ss)"
    using job(6) by (simp add: fun_eq_iff store_at_points points read)
  with job(2-4) show ?thesis by blast
qed

end

interpretation bottommost: read_preserving bottommost_decide "()" "\<lambda>es uk. read_of (latest es uk)"
proof
  fix es uk
  assume es: "ik_sorted es"
  have strict: "sorted_wrt (<) (map (\<lambda>e. ukey (fst e)) (newest_only None es))"
    using newest_only_strict[OF ik_sorted_ukey[OF es], of None] by simp
  show "read_of (latest (keep_run bottommost_decide None () es) uk) = read_of (latest es uk)"
    unfolding bottommost_keep_run latest_filter_live[OF strict] newest_only_latest[OF ik_sorted_ukey[OF es] option.distinct(1)]
    by (auto simp: is_tombstone_def split: option.split ValueType.split)
qed

interpretation snapshot: read_preserving snapshot_aware_decide "snapshot_aware_new q"
    "\<lambda>es uk. read_of (visible q es uk)" for q
  by unfold_locales (simp add: snapshot_keep_visible snapshot_aware_new_def)

interpretation snapshot_latest: read_preserving snapshot_aware_decide "snapshot_aware_new q"
    "\<lambda>es uk. read_of (latest es uk)" for q
  by unfold_locales (simp add: snapshot_keep_latest)

interpretation passthrough: read_preserving passthrough_decide "()" read for read
  by unfold_locales (simp add: passthrough_keep_run)

section \<open>Jobs that are not well behaved\<close>

lemma compact_with_strategy_ends: "compact_with_strategy X decide ss opts st \<noteq> None"
  by (simp add: compact_with_strategy_def arena_finite.merges_end del: not_None_eq)

lemma compact_ends: "compact X ss opts \<noteq> None"
  using compact_with_strategy_ends by (simp add: compact_def del: not_None_eq)

lemma await_tasks_ends: "\<forall>t \<in> set tasks. t \<noteq> None \<Longrightarrow> await_tasks tasks \<noteq> None"
proof (induction tasks)
  case (Cons t ts)
  then obtain r where "t = Some r" by auto
  with Cons show ?case by (cases r) auto
qed simp

text \<open>The callback skips an entry whose key has no room for the suffix.\<close>

lemma compact_step_malformed: "\<not> valid_key k \<Longrightarrow> compact_step decide cs k v = cs"
  by (simp add: compact_step_def internal_key_split_def NUM_INTERNAL_BYTES_def)

lemma compact_feed_filter:
  "feed (compact_step decide) cs es = feed (compact_step decide) cs (filter (\<lambda>e. valid_key (fst e)) es)"
  by (induction es arbitrary: cs) (auto simp: compact_step_malformed)

lemma compact_single_source:
  assumes "wf_arena s"
  shows "\<exists>st'. compact_with_strategy X decide [s] opts st =
           Some (obind (build_sst X (sst_builder opts)
                   (keep_run decide None st (filter (\<lambda>e. valid_key (fst e)) (arena_remaining s))))
                  (\<lambda>disk. Ok (disk, st')))"
  using asrc.single_source_merge[OF assms, of InternalKeyComparator "compact_step decide" "compact_init st"]
  by (simp add: compact_with_strategy_def compact_feed_filter[of _ _ "arena_remaining s"] compact_init_keep_run)
     blast

text \<open>
  Two sources, sorted or not, whose front entries are compared: \<open>two_way\<close> takes the entry with the
  smaller key until one list is used up and then the rest of the other one, and \<open>malformed_meets\<close>
  says that on the way a malformed key is in front of one list while the other one is not used up.
\<close>

fun two_way :: "entry list \<Rightarrow> entry list \<Rightarrow> entry list" where
  "two_way [] ys = ys"
| "two_way (x # xs) [] = x # xs"
| "two_way (x # xs) (y # ys) =
     (if ikrank (fst x) < ikrank (fst y) then x # two_way xs (y # ys) else y # two_way (x # xs) ys)"

fun malformed_meets :: "entry list \<Rightarrow> entry list \<Rightarrow> bool" where
  "malformed_meets [] ys \<longleftrightarrow> False"
| "malformed_meets (x # xs) [] \<longleftrightarrow> False"
| "malformed_meets (x # xs) (y # ys) \<longleftrightarrow>
     \<not> valid_key (fst x) \<or> \<not> valid_key (fst y) \<or>
     (if ikrank (fst x) < ikrank (fst y) then malformed_meets xs (y # ys) else malformed_meets (x # xs) ys)"

lemma two_way_Nil [simp]: "two_way xs [] = xs" "malformed_meets xs [] \<longleftrightarrow> False"
  by (cases xs; simp)+

lemma two_way_commute:
  assumes "\<forall>x \<in> set xs. \<forall>y \<in> set ys. fst x \<noteq> fst y"
  shows "malformed_meets ys xs = malformed_meets xs ys \<and>
    (\<not> malformed_meets xs ys \<longrightarrow> two_way ys xs = two_way xs ys)"
  using assms
proof (induction xs ys rule: malformed_meets.induct)
  case (3 x xs y ys)
  have "ikrank (fst x) < ikrank (fst y) \<longleftrightarrow> \<not> ikrank (fst y) < ikrank (fst x)"
    if "valid_key (fst x)" "valid_key (fst y)"
    using ikrank_inject[OF that] "3.prems" linorder_less_linear[of "ikrank (fst x)" "ikrank (fst y)"] by auto
  with 3 show ?case by (cases "ikrank (fst x) < ikrank (fst y)") auto
qed simp_all

lemma front_less_ik:
  "front_less InternalKeyComparator (x # xs) (y # ys) =
     (if valid_key (fst x) \<and> valid_key (fst y) then Ok (ikrank (fst x) < ikrank (fst y)) else Panic)"
proof (cases "valid_key (fst x) \<and> valid_key (fst y)")
  case True
  then show ?thesis using ikc.compare_with_prefix_rank[of "fst x" "fst y"] by (simp add: cmp_of_def)
next
  case False
  then have "internal_key_compare (fst x) (fst y) = Panic"
    by (cases "valid_key (fst x)") (auto simp: internal_key_compare_def)
  then show ?thesis using False by (simp add: compare_with_prefix_def InternalKeyComparator_def)
qed

lemma feed_front: "feed f st (x # xs) = feed f (f st (fst x) (snd x)) xs"
  by (cases x) simp

lemma fight_two_way:
  assumes "\<forall>x \<in> set xs. \<forall>y \<in> set ys. fst x \<noteq> fst y"
  shows "fight InternalKeyComparator f st xs ys =
    (if malformed_meets xs ys then Panic else Ok (feed f st (two_way xs ys)))"
  using assms
proof (induction "length xs + length ys" arbitrary: xs ys st rule: less_induct)
  case less
  consider "xs = []" "ys = []" | y ys' where "xs = []" "ys = y # ys'" | x xs' where "xs = x # xs'" "ys = []"
    | x xs' y ys' where "xs = x # xs'" "ys = y # ys'"
    by (meson list.exhaust)
  then show ?case
  proof cases
    case (4 x xs' y ys')
    have prems: "\<forall>x \<in> set xs'. \<forall>y \<in> set ys. fst x \<noteq> fst y" "\<forall>y \<in> set ys'. \<forall>x \<in> set xs. fst y \<noteq> fst x"
        "\<forall>x \<in> set xs. \<forall>y \<in> set ys'. fst x \<noteq> fst y"
      using less.prems 4 by fastforce+
    then show ?thesis
      using less.hyps[OF _ prems(1)] less.hyps[OF _ prems(2)] two_way_commute[OF prems(3)] 4
      by (simp add: fight_def[of _ _ _ "_ # _" "_ # _"] front_less_ik duel_Cons feed_front del: front_less.simps(3) duel.simps(2))
  qed (use less.hyps in \<open>simp_all add: fight_exhausted feed_front\<close>)
qed

lemma compact_two_sources:
  assumes "wf_arena s" and "wf_arena t"
    and "\<forall>x \<in> set (arena_remaining s). \<forall>y \<in> set (arena_remaining t). fst x \<noteq> fst y"
  shows "\<exists>st'. compact_with_strategy X decide [s, t] opts st = Some
    (if malformed_meets (arena_remaining s) (arena_remaining t) then Panic
     else obind (build_sst X (sst_builder opts) (keep_run decide None st
            (filter (\<lambda>e. valid_key (fst e)) (two_way (arena_remaining s) (arena_remaining t)))))
            (\<lambda>disk. Ok (disk, st')))"
  using asrc.two_sources_merge[OF assms(1,2), of InternalKeyComparator "compact_step decide" "compact_init st"]
    compact_feed_filter[of decide "compact_init st" "two_way (arena_remaining s) (arena_remaining t)"]
  unfolding fight_two_way[OF assms(3)]
  by (cases "malformed_meets (arena_remaining s) (arena_remaining t)")
     (auto simp: compact_with_strategy_def compact_init_keep_run)

section \<open>From files to sources\<close>

lemma arena_of_whole:
  assumes "keys_valid es" and "ik_sorted es" and "entries_size es < 2 ^ 32"
  shows "whole_source (arena_of es)"
  using arena_of_correct[OF assms(3)] assms(1,2)
  by (simp add: whole_source_def sorted_source_def) (simp add: arena_builder_build_def)

lemma size_bound_concat: "es \<in> set ess \<Longrightarrow> sst_size_bound opts es \<le> sst_size_bound opts (concat ess)"
  by (intro size_bound_mono mset_concat_member)

lemma arenas_of_entries:
  "\<forall>es \<in> set ess. entries_size es < 2 ^ 32 \<Longrightarrow> all_entries (map (\<lambda>es. arena_of es) ess) = concat ess"
  by (induction ess) (simp_all add: arena_of_correct)

text \<open>Input files: each is written from one sorted run, and loading them gives these runs.\<close>

lemma input_files:
  assumes "\<forall>es \<in> set ess. keys_valid es \<and> ik_sorted es"
    and "sst_size_bound opts (concat ess) < 2 ^ 32" and "opt_external_sst_global_seqno opts = None"
  shows "\<exists>disks ss. omap (build_sst X opts) ess = Ok disks \<and>
           omap (\<lambda>disk. load_arena_source X (blocking_file_reader disk)) disks = Ok ss \<and>
           (\<forall>s \<in> set ss. whole_source s) \<and> all_entries ss = concat ess"
proof -
  have size: "sst_size_bound opts es < 2 ^ 32" if "es \<in> set ess" for es
    using size_bound_concat[OF that, of opts] assms(2) by (rule le_less_trans)
  have rew: "rewritten_entries opts es = Ok es" for es using assms(3) by (simp add: rewritten_entries_def)
  have "\<forall>es. \<exists>disk. es \<in> set ess \<longrightarrow> build_sst X opts es = Ok disk \<and>
      load_arena_source X (blocking_file_reader disk) = Ok (arena_of es)"
    using build_sst_load[OF rew size, of _ X] by blast
  then obtain d where d: "\<And>es. es \<in> set ess \<Longrightarrow> build_sst X opts es = Ok (d es) \<and>
      load_arena_source X (blocking_file_reader (d es)) = Ok (arena_of es)"
    by metis
  have "omap (build_sst X opts) ess = Ok (map d ess)" using d by (intro omap_Ok) simp
  moreover have "omap (\<lambda>disk. load_arena_source X (blocking_file_reader disk)) (map d ess) =
      Ok (map (\<lambda>es. arena_of es) ess)"
    using d by (induction ess) simp_all
  moreover have "\<forall>s \<in> set (map (\<lambda>es. arena_of es) ess). whole_source s"
    using assms(1) size_bound_fits[OF size] by (auto intro!: arena_of_whole)
  moreover have "all_entries (map (\<lambda>es. arena_of es) ess) = concat ess"
    using size_bound_fits[OF size] by (intro arenas_of_entries) blast
  ultimately show ?thesis by blast
qed

lemma distinct_versions_keys:
  assumes "distinct_versions es"
  shows "distinct (map fst es)"
proof -
  have "distinct (map (\<lambda>k. (ukey k, seqno k)) (map fst es))"
    using assms by (simp add: distinct_versions_def comp_def)
  then show ?thesis by (simp only: distinct_map)
qed

end
