(* ===== verification/Cli.thy ===== *)
theory Cli
  imports Compaction
begin

text \<open>
  The two programs: \<^verbatim>\<open>bin/compact_files.rs\<close>, which compacts table files into one, and
  \<^verbatim>\<open>bin/compactor.rs\<close>, which prints a table file. The operating system they see is a map from paths to
  the contents of the files that can be opened, and a function that says how a write of a file goes. A
  Rust string is the list of its code points. A run gives its status, the lines it printed to either
  stream, as values of a datatype with what each line shows, and the files it leaves; printing itself
  is taken to succeed.
\<close>

section \<open>Strings\<close>

type_synonym ustring = "nat list"

definition utext :: "string \<Rightarrow> ustring" where
  "utext = map of_char"

definition is_cont :: "nat \<Rightarrow> bool" where
  "is_cont b \<longleftrightarrow> 0x80 \<le> b \<and> b \<le> 0xBF"

text \<open>
  Decoding of UTF-8, as \<open>read_to_string\<close> checks it: no overlong form, no surrogate, nothing past
  \<open>0x10FFFF\<close>.
\<close>

fun utf8_decode :: "nat list \<Rightarrow> ustring option" where
  "utf8_decode [] = Some []"
| "utf8_decode (a # bs) =
     (if a < 0x80 then map_option (Cons a) (utf8_decode bs)
      else if 0xC2 \<le> a \<and> a \<le> 0xDF then
        (case bs of
           b # bs1 \<Rightarrow>
             if is_cont b then map_option (Cons ((a - 0xC0) * 0x40 + (b - 0x80))) (utf8_decode bs1) else None
         | _ \<Rightarrow> None)
      else if 0xE0 \<le> a \<and> a \<le> 0xEF then
        (case bs of
           b # c # bs2 \<Rightarrow>
             if is_cont b \<and> is_cont c \<and> (a = 0xE0 \<longrightarrow> 0xA0 \<le> b) \<and> (a = 0xED \<longrightarrow> b \<le> 0x9F) then
               map_option (Cons ((a - 0xE0) * 0x1000 + (b - 0x80) * 0x40 + (c - 0x80))) (utf8_decode bs2)
             else None
         | _ \<Rightarrow> None)
      else if 0xF0 \<le> a \<and> a \<le> 0xF4 then
        (case bs of
           b # c # d # bs3 \<Rightarrow>
             if is_cont b \<and> is_cont c \<and> is_cont d \<and> (a = 0xF0 \<longrightarrow> 0x90 \<le> b) \<and> (a = 0xF4 \<longrightarrow> b \<le> 0x8F) then
               map_option (Cons ((a - 0xF0) * 0x40000 + (b - 0x80) * 0x1000 + (c - 0x80) * 0x40 + (d - 0x80)))
                 (utf8_decode bs3)
             else None
         | _ \<Rightarrow> None)
      else None)"

text \<open>
  \<open>String::from_utf8_lossy\<close>: a sequence that is not UTF-8 becomes one replacement character for the longest
  part of it that a correct sequence could begin with, or for one byte, and decoding goes on behind it.
\<close>

definition REPLACEMENT_CHARACTER :: nat where
  "REPLACEMENT_CHARACTER = 0xFFFD"

definition second_ok :: "nat \<Rightarrow> nat \<Rightarrow> bool" where
  "second_ok a b \<longleftrightarrow> is_cont b \<and> (a = 0xE0 \<longrightarrow> 0xA0 \<le> b) \<and> (a = 0xED \<longrightarrow> b \<le> 0x9F) \<and>
     (a = 0xF0 \<longrightarrow> 0x90 \<le> b) \<and> (a = 0xF4 \<longrightarrow> b \<le> 0x8F)"

fun from_utf8_lossy :: "nat list \<Rightarrow> ustring" where
  "from_utf8_lossy [] = []"
| "from_utf8_lossy (a # bs) =
     (if a < 0x80 then a # from_utf8_lossy bs
      else if 0xC2 \<le> a \<and> a \<le> 0xDF then
        (case bs of
           [] \<Rightarrow> [REPLACEMENT_CHARACTER]
         | b # bs1 \<Rightarrow>
             if is_cont b then ((a - 0xC0) * 0x40 + (b - 0x80)) # from_utf8_lossy bs1
             else REPLACEMENT_CHARACTER # from_utf8_lossy bs)
      else if 0xE0 \<le> a \<and> a \<le> 0xEF then
        (case bs of
           [] \<Rightarrow> [REPLACEMENT_CHARACTER]
         | b # bs1 \<Rightarrow>
             if second_ok a b then
               (case bs1 of
                  [] \<Rightarrow> [REPLACEMENT_CHARACTER]
                | c # bs2 \<Rightarrow>
                    if is_cont c then
                      ((a - 0xE0) * 0x1000 + (b - 0x80) * 0x40 + (c - 0x80)) # from_utf8_lossy bs2
                    else REPLACEMENT_CHARACTER # from_utf8_lossy bs1)
             else REPLACEMENT_CHARACTER # from_utf8_lossy bs)
      else if 0xF0 \<le> a \<and> a \<le> 0xF4 then
        (case bs of
           [] \<Rightarrow> [REPLACEMENT_CHARACTER]
         | b # bs1 \<Rightarrow>
             if second_ok a b then
               (case bs1 of
                  [] \<Rightarrow> [REPLACEMENT_CHARACTER]
                | c # bs2 \<Rightarrow>
                    if is_cont c then
                      (case bs2 of
                         [] \<Rightarrow> [REPLACEMENT_CHARACTER]
                       | d # bs3 \<Rightarrow>
                           if is_cont d then
                             ((a - 0xF0) * 0x40000 + (b - 0x80) * 0x1000 + (c - 0x80) * 0x40 + (d - 0x80)) #
                             from_utf8_lossy bs3
                           else REPLACEMENT_CHARACTER # from_utf8_lossy bs2)
                    else REPLACEMENT_CHARACTER # from_utf8_lossy bs1)
             else REPLACEMENT_CHARACTER # from_utf8_lossy bs)
      else REPLACEMENT_CHARACTER # from_utf8_lossy bs)"

definition lossy :: "bytes \<Rightarrow> ustring" where
  "lossy bs = from_utf8_lossy (map unat bs)"

text \<open>On UTF-8 nothing is lost.\<close>

lemma from_utf8_lossy_valid: "utf8_decode bs = Some s \<Longrightarrow> from_utf8_lossy bs = s"
proof (induction bs arbitrary: s rule: length_induct)
  case (1 bs)
  have shorter: "from_utf8_lossy xs = t" if "utf8_decode xs = Some t" "length xs < length bs" for xs t
    using 1 that by blast
  show ?case
  proof (cases bs)
    case (Cons a as)
    consider "a < 0x80" | "0xC2 \<le> a" "a \<le> 0xDF" | "0xE0 \<le> a" "a \<le> 0xEF" | "0xF0 \<le> a" "a \<le> 0xF4"
      using 1(2) Cons by (auto split: if_splits)
    then show ?thesis
    proof cases
      case 1
      then show ?thesis using \<open>utf8_decode bs = Some s\<close> Cons shorter[of as] by auto
    next
      case 2
      then obtain b xs t where "as = b # xs" "is_cont b" "utf8_decode xs = Some t"
          "s = ((a - 0xC0) * 0x40 + (b - 0x80)) # t"
        using \<open>utf8_decode bs = Some s\<close> Cons by (auto split: list.splits if_splits)
      then show ?thesis using 2 Cons shorter[of xs t] by simp
    next
      case 3
      then obtain b c xs t where "as = b # c # xs" "second_ok a b" "is_cont c" "utf8_decode xs = Some t"
          "s = ((a - 0xE0) * 0x1000 + (b - 0x80) * 0x40 + (c - 0x80)) # t"
        using \<open>utf8_decode bs = Some s\<close> Cons by (auto simp: second_ok_def split: list.splits if_splits)
      then show ?thesis using 3 Cons shorter[of xs t] by simp
    next
      case 4
      then obtain b c d xs t where "as = b # c # d # xs" "second_ok a b" "is_cont c" "is_cont d"
          "utf8_decode xs = Some t"
          "s = ((a - 0xF0) * 0x40000 + (b - 0x80) * 0x1000 + (c - 0x80) * 0x40 + (d - 0x80)) # t"
        using \<open>utf8_decode bs = Some s\<close> Cons by (auto simp: second_ok_def split: list.splits if_splits)
      then show ?thesis using 4 Cons shorter[of xs t] by simp
    qed
  qed (use 1 in simp)
qed

definition is_whitespace :: "nat \<Rightarrow> bool" where
  "is_whitespace c \<longleftrightarrow>
     (9 \<le> c \<and> c \<le> 13) \<or> c = 32 \<or> c = 0x85 \<or> c = 0xA0 \<or> c = 0x1680 \<or> (0x2000 \<le> c \<and> c \<le> 0x200A) \<or>
     c = 0x2028 \<or> c = 0x2029 \<or> c = 0x202F \<or> c = 0x205F \<or> c = 0x3000"

definition trim :: "ustring \<Rightarrow> ustring" where
  "trim s = rev (dropWhile is_whitespace (rev (dropWhile is_whitespace s)))"

definition strip_cr :: "ustring \<Rightarrow> ustring" where
  "strip_cr l = (if l \<noteq> [] \<and> last l = 13 then butlast l else l)"

text \<open>\<open>str::lines\<close>: a line ends at a line feed, and a carriage return in front of it goes too.\<close>

function str_lines :: "ustring \<Rightarrow> ustring list" where
  "str_lines s =
     (if s = [] then []
      else case dropWhile (\<lambda>c. c \<noteq> 10) s of
             [] \<Rightarrow> [s]
           | _ # rest \<Rightarrow> strip_cr (takeWhile (\<lambda>c. c \<noteq> 10) s) # str_lines rest)"
  by pat_completeness auto
termination
proof (relation "measure length", simp)
  fix s :: ustring and c rest
  assume "dropWhile (\<lambda>c. c \<noteq> 10) s = c # rest"
  then have "length (c # rest) \<le> length s" by (metis length_dropWhile_le)
  then show "(rest, s) \<in> measure length" by simp
qed

declare str_lines.simps [simp del]

section \<open>Compacting files\<close>

type_synonym files = "ustring \<Rightarrow> bytes option"

text \<open>The reader of a file that can be opened; \<open>io::open\<close> shares it behind an \<open>Arc\<close>.\<close>

definition blocking_open :: "files \<Rightarrow> ustring \<Rightarrow> file_reader option" where
  "blocking_open fs path = map_option blocking_file_reader (fs path)"

definition io_open :: "files \<Rightarrow> ustring \<Rightarrow> file_reader option" where
  "io_open fs path = map_option arc_file_reader (blocking_open fs path)"

lemma io_open_iff: "io_open fs path = map_option blocking_file_reader (fs path)"
  by (simp add: io_open_def blocking_open_def option.map_comp comp_def)

datatype status = Exited nat | Panicked

datatype message =
    CompactUsage
  | ListArgumentMissing
  | ListReadFailed ustring
  | InputOpenFailed ustring
  | InputLoadFailed ustring error
  | CompactionFailed error
  | OutputWriteFailed ustring
  | Wrote nat ustring nat

text \<open>
  \<open>std::fs::write\<close> opens the file, which creates it or cuts it to length 0, and then writes the bytes. It
  may fail before the file is changed, or after some of the bytes are written.
\<close>

datatype write_outcome = Written | NotOpened | CutShort nat

fun fs_write :: "write_outcome \<Rightarrow> files \<Rightarrow> ustring \<Rightarrow> bytes \<Rightarrow> bool \<times> files" where
  "fs_write Written fs path data = (True, fs(path \<mapsto> data))"
| "fs_write NotOpened fs path data = (False, fs)"
| "fs_write (CutShort n) fs path data = (False, fs(path \<mapsto> take n data))"

datatype 'a progress = Continue 'a | Stop status "message list"

fun and_then :: "'a progress \<Rightarrow> ('a \<Rightarrow> 'b progress) \<Rightarrow> 'b progress" where
  "and_then (Continue x) f = f x"
| "and_then (Stop st ms) f = Stop st ms"

definition input_paths_of :: "files \<Rightarrow> ustring list \<Rightarrow> ustring list progress" where
  "input_paths_of fs args =
     (if args ! 2 = utext ''--list'' then
        if length args \<le> 3 then Stop (Exited 1) [ListArgumentMissing]
        else case Option.bind (fs (args ! 3)) (\<lambda>disk. utf8_decode (map unat disk)) of
               None \<Rightarrow> Stop (Exited 1) [ListReadFailed (args ! 3)]
             | Some s \<Rightarrow> Continue (filter (\<lambda>l. l \<noteq> []) (map trim (str_lines s)))
      else Continue (drop 2 args))"

fun load_inputs :: "ext \<Rightarrow> files \<Rightarrow> ustring list \<Rightarrow> ArenaSource list progress" where
  "load_inputs X fs [] = Continue []"
| "load_inputs X fs (path # paths) =
     (case io_open fs path of
        None \<Rightarrow> Stop (Exited 1) [InputOpenFailed path]
      | Some reader \<Rightarrow>
          (case load_arena_source X reader of
             Panic \<Rightarrow> Stop Panicked []
           | Err e \<Rightarrow> Stop (Exited 1) [InputLoadFailed path e]
           | Ok s \<Rightarrow> and_then (load_inputs X fs paths) (\<lambda>ss. Continue (s # ss))))"

definition compact_files_options :: "bool \<Rightarrow> CompactionOptions" where
  "compact_files_options for_ingest =
     \<lparr>sst_builder = sst_builder_options_default
        \<lparr>opt_base_context_checksum := 0x42424242,
         opt_external_sst_global_seqno := (if for_ingest then Some 0 else None)\<rparr>\<rparr>"

abbreviation positional :: "ustring list \<Rightarrow> ustring list" where
  "positional args0 \<equiv> remove1 (utext ''--for-ingest'') args0"

definition compact_files_run ::
    "ext \<Rightarrow> (ustring \<Rightarrow> bytes \<Rightarrow> write_outcome) \<Rightarrow> files \<Rightarrow> ustring list \<Rightarrow> (status \<times> message list \<times> files) option" where
  "compact_files_run X write fs args0 =
     (let for_ingest = utext ''--for-ingest'' \<in> set args0;
          args = remove1 (utext ''--for-ingest'') args0
      in if length args < 3 then Some (Exited 1, [CompactUsage], fs)
         else
           let output_path = args ! 1
           in case and_then (input_paths_of fs args) (\<lambda>paths.
                     and_then (load_inputs X fs paths) (\<lambda>sources. Continue (paths, sources))) of
                Stop st ms \<Rightarrow> Some (st, ms, fs)
              | Continue (input_paths, sources) \<Rightarrow>
                  map_option
                    (\<lambda>r. case r of
                       Panic \<Rightarrow> (Panicked, [], fs)
                     | Err e \<Rightarrow> (Exited 1, [CompactionFailed e], fs)
                     | Ok output_bytes \<Rightarrow>
                         (let (written, fs') = fs_write (write output_path output_bytes) fs output_path output_bytes
                          in if written
                             then (Exited 0, [Wrote (length output_bytes) output_path (length input_paths)], fs')
                             else (Exited 1, [OutputWriteFailed output_path], fs')))
                    (compact X sources (compact_files_options for_ingest)))"

section \<open>Printing a file\<close>

datatype dump_line =
    DumpUsage
  | DumpOpenFailed ustring
  | DumpSstFailed error
  | DumpIterateFailed error
  | DumpHeader u64 u32 ChecksumType
  | DumpPair ustring ustring
  | DumpEntry ustring u64 ValueType nat
  | DumpBadKey error
  | DumpTotal nat
  | DumpMore nat

record dump_state =
  dump_count :: nat
  dump_printed :: nat
  dump_lines :: "dump_line list"

definition dump_step :: "bool \<Rightarrow> dump_state \<Rightarrow> bytes \<Rightarrow> bytes \<Rightarrow> dump_state" where
  "dump_step dump_all st key val =
     (let st1 = st\<lparr>dump_count := dump_count st + 1\<rparr>
      in case internal_key_split key of
           Ok ik \<Rightarrow>
             if dump_all then st1\<lparr>dump_lines := dump_lines st1 @ [DumpPair (lossy (user_key ik)) (lossy val)]\<rparr>
             else if dump_printed st1 < 20 then
               st1\<lparr>dump_lines := dump_lines st1 @ [DumpEntry (lossy (user_key ik)) (sequence ik) (value_type ik) (length val)],
                   dump_printed := dump_printed st1 + 1\<rparr>
             else st1
         | Err e \<Rightarrow> st1\<lparr>dump_lines := dump_lines st1 @ [DumpBadKey e]\<rparr>
         | Panic \<Rightarrow> st1)"

definition compactor_run :: "ext \<Rightarrow> files \<Rightarrow> ustring list \<Rightarrow> status \<times> dump_line list" where
  "compactor_run X fs args =
     (if length args \<le> 1 then (Exited 1, [DumpUsage])
      else case io_open fs (args ! 1) of
             None \<Rightarrow> (Exited 1, [DumpOpenFailed (args ! 1)])
           | Some reader \<Rightarrow>
               (case sst_reader_open X reader of
                  Panic \<Rightarrow> (Panicked, [])
                | Err e \<Rightarrow> (Exited 1, [DumpSstFailed e])
                | Ok sst \<Rightarrow>
                    (let dump_all = (2 < length args \<and> args ! 2 = utext ''--dump-all'');
                         header = (if dump_all then []
                                   else [DumpHeader (table_magic_number (sr_footer sst))
                                           (format_version (sr_footer sst)) (checksum_type (sr_footer sst))]);
                         (st, result) = sst_reader_for_each_entry X sst (dump_step dump_all)
                           \<lparr>dump_count = 0, dump_printed = 0, dump_lines = []\<rparr>;
                         lines = header @ dump_lines st
                     in case result of
                          Panic \<Rightarrow> (Panicked, lines)
                        | Err e \<Rightarrow> (Exited 1, lines @ [DumpIterateFailed e])
                        | Ok _ \<Rightarrow>
                            (Exited 0,
                             lines @
                             (if dump_all then []
                              else DumpTotal (dump_count st) #
                                   (if dump_count st > dump_printed st
                                    then [DumpMore (dump_count st - dump_printed st)] else []))))))"

section \<open>A run of compact\_files\<close>

lemma and_then_Continue_iff: "and_then m f = Continue y \<longleftrightarrow> (\<exists>x. m = Continue x \<and> f x = Continue y)"
  by (cases m) auto

lemma and_then_Stop_iff:
  "and_then m f = Stop st ms \<longleftrightarrow> m = Stop st ms \<or> (\<exists>x. m = Continue x \<and> f x = Stop st ms)"
  by (cases m) auto

lemma load_inputs_failed: "load_inputs X fs paths = Stop st ms \<Longrightarrow> st \<noteq> Exited 0"
  by (induction paths arbitrary: st ms)
     (auto simp: and_then_Stop_iff split: option.splits outcome.splits)

lemma inputs_failed:
  assumes "and_then (input_paths_of fs args) (\<lambda>paths.
      and_then (load_inputs X fs paths) (\<lambda>sources. Continue (paths, sources))) = Stop st ms"
  shows "st \<noteq> Exited 0"
  using assms load_inputs_failed[of X fs]
  by (auto simp: and_then_Stop_iff input_paths_of_def split: if_splits option.splits)

text \<open>A path at which a table file with given entries stands, written with given options, or with some.\<close>

definition written_file :: "ext \<Rightarrow> files \<Rightarrow> ustring \<Rightarrow> SstBuilderOptions \<Rightarrow> entry list \<Rightarrow> bool" where
  "written_file X fs path opts es \<longleftrightarrow>
     (\<exists>disk. opt_external_sst_global_seqno opts = None \<and> sst_size_bound opts es < 2 ^ 32 \<and>
        build_sst X opts es = Ok disk \<and> fs path = Some disk)"

definition table_file :: "ext \<Rightarrow> files \<Rightarrow> ustring \<Rightarrow> entry list \<Rightarrow> bool" where
  "table_file X fs path es \<longleftrightarrow> (\<exists>opts. written_file X fs path opts es)"

lemma load_table_files:
  "list_all2 (table_file X fs) paths ess \<Longrightarrow> load_inputs X fs paths = Continue (map (\<lambda>es. arena_of es) ess)"
proof (induction rule: list_all2_induct)
  case (Cons p paths es ess)
  obtain opts disk where tf: "opt_external_sst_global_seqno opts = None" "sst_size_bound opts es < 2 ^ 32"
      "build_sst X opts es = Ok disk" "fs p = Some disk"
    using Cons.hyps(1) by (auto simp: table_file_def written_file_def)
  have "rewritten_entries opts es = Ok es" using tf(1) by (simp add: rewritten_entries_def)
  from build_sst_load[OF this tf(2), of X] tf(3,4) Cons.IH show ?case by (auto simp: io_open_iff)
qed simp

lemma zero_out_seqnos_strip: "zero_out_seqnos es = Ok es' \<Longrightarrow> strip es' = strip es"
proof (induction es arbitrary: es')
  case (Cons e es)
  obtain k v where e: "e = (k, v)" by (cases e)
  with Cons.prems obtain k' es1 where k': "zero_out_seqno k = Ok k'" "zero_out_seqnos es = Ok es1" "es' = (k', v) # es1"
    by auto
  then have "valid_key k" by (auto simp: zero_out_seqno_def usize_sub_def split: if_splits)
  then have "ukey k' = ukey k" using zero_out_seqno_valid[of k] k'(1) by auto
  with Cons.IH[OF k'(2)] k'(3) e show ?case by simp
qed simp

lemma rewritten_strip: "rewritten_entries opts es = Ok es' \<Longrightarrow> strip es' = strip es"
  by (auto simp: rewritten_entries_def zero_out_seqnos_strip split: option.splits)

lemma compact_files_options_size:
  "sst_size_bound (sst_builder (compact_files_options b)) es = 66 * length es + 2 * entries_size es + 1233"
  using default_options_small(2)[of es]
  by (simp add: compact_files_options_def sst_size_bound_def)

lemma compact_strip:
  assumes "\<forall>es \<in> set ess. keys_valid es \<and> ik_sorted es" and "distinct_versions (concat ess)"
    and "sst_size_bound (sst_builder opts) (concat ess) < 2 ^ 32"
  shows "\<exists>disk s. compact X (map (\<lambda>es. arena_of es) ess) opts = Some (Ok disk) \<and>
           load_arena_source X (blocking_file_reader disk) = Ok s \<and>
           naive_compact ess = Ok (strip (arena_remaining s))"
proof -
  let ?ss = "map (\<lambda>es. arena_of es) ess"
  have fits: "entries_size es < 2 ^ 32" if "es \<in> set ess" for es
    using size_bound_fits[OF le_less_trans[OF size_bound_concat[OF that] assms(3)]] .
  have all: "all_entries ?ss = concat ess" using fits by (intro arenas_of_entries) blast
  have src: "\<forall>s \<in> set ?ss. sorted_source s"
    using assms(1) fits by (intro whole_sources_sorted) (auto intro!: arena_of_whole)
  obtain xs es' disk st' where job: "merged ?ss xs"
      "rewritten_entries (sst_builder opts) (keep_run bottommost_decide None () xs) = Ok es'"
      "compact_with_strategy X bottommost_decide ?ss opts () = Some (Ok (disk, st'))"
      "load_arena_source X (blocking_file_reader disk) = Ok (arena_of es')" "arena_remaining (arena_of es') = es'"
    using compact_with_strategy_correct[OF src, of opts bottommost_decide "()" X] assms(3) all by auto
  have "ik_sorted xs" "mset xs = mset (concat ess)" using job(1) unfolding merged_def all by blast+
  moreover have "keys_valid (concat ess)" using assms(1) by fastforce
  ultimately have "naive_compact ess = Ok (strip (filter live (newest_only None xs)))"
    using naive_compact_newest[OF _ assms(2)] by blast
  then have "naive_compact ess = Ok (strip (arena_remaining (arena_of es')))"
    using rewritten_strip[OF job(2)] unfolding job(5) bottommost_keep_run by simp
  moreover have "compact X ?ss opts = Some (Ok disk)" using job(3) by (simp add: compact_def)
  ultimately show ?thesis using job(4) by blast
qed

section \<open>A run of the printer\<close>

lemma feed_dump_all:
  "keys_valid es \<Longrightarrow> dump_lines (feed (dump_step True) st es) =
     dump_lines st @ map (\<lambda>e. DumpPair (lossy (ukey (fst e))) (lossy (snd e))) es"
  by (induction es arbitrary: st) (auto simp: dump_step_def Let_def)

lemma feed_dump_some:
  assumes "keys_valid es" and "dump_printed st \<le> 20"
  shows "dump_count (feed (dump_step False) st es) = dump_count st + length es \<and>
         dump_printed (feed (dump_step False) st es) = min 20 (dump_printed st + length es) \<and>
         dump_lines (feed (dump_step False) st es) = dump_lines st @
           map (\<lambda>e. DumpEntry (lossy (ukey (fst e))) (seqno (fst e)) (vtype (fst e)) (length (snd e)))
             (take (20 - dump_printed st) es)"
  using assms
proof (induction es arbitrary: st)
  case (Cons e es)
  obtain k v where e: "e = (k, v)" by (cases e)
  let ?st = "dump_step False st k v"
  have k: "valid_key k" using Cons.prems(1) e by simp
  show ?case
  proof (cases "dump_printed st < 20")
    case True
    then have "dump_printed ?st = dump_printed st + 1" "dump_count ?st = dump_count st + 1"
        "dump_lines ?st = dump_lines st @ [DumpEntry (lossy (ukey k)) (seqno k) (vtype k) (length v)]"
      using k by (simp_all add: dump_step_def Let_def)
    moreover obtain m where "20 - dump_printed st = Suc m" "20 - (dump_printed st + 1) = m"
      using True by (metis Suc_diff_Suc add.commute plus_1_eq_Suc)
    ultimately show ?thesis using Cons.IH[of ?st] Cons.prems True e by simp
  next
    case False
    then have "dump_printed ?st = dump_printed st" "dump_count ?st = dump_count st + 1" "dump_lines ?st = dump_lines st"
      using k by (simp_all add: dump_step_def Let_def)
    then show ?thesis using Cons.IH[of ?st] Cons.prems False e by simp
  qed
qed simp

lemma read_table_file:
  assumes "written_file X fs path opts es"
  shows "\<exists>disk sst. fs path = Some disk \<and> sst_reader_open X (blocking_file_reader disk) = Ok sst \<and>
           table_magic_number (sr_footer sst) = BLOCK_BASED_TABLE_MAGIC \<and>
           format_version (sr_footer sst) = FORMAT_VERSION \<and> checksum_type (sr_footer sst) = opt_checksum_type opts \<and>
           sst_reader_for_each_entry X sst f st = (feed f st es, Ok ())"
proof -
  obtain disk where tf: "opt_external_sst_global_seqno opts = None" "sst_size_bound opts es < 2 ^ 32"
      "build_sst X opts es = Ok disk" "fs path = Some disk"
    using assms by (auto simp: written_file_def)
  have "rewritten_entries opts es = Ok es" using tf(1) by (simp add: rewritten_entries_def)
  from build_sst_laid_out[OF this tf(2), of X] tf(3) obtain hs bss where
      "concat bss = es" "length disk < 2 ^ 32"
      "sst_layout X (opt_checksum_type opts) (opt_base_context_checksum opts) disk hs bss" by auto
  with bfr.for_each_laid_out[of X _ _ disk hs bss f st] tf(4) show ?thesis by blast
qed

section \<open>An example\<close>

definition built_file :: "entry list \<Rightarrow> bytes" where
  "built_file es = (case build_sst example_ext sst_builder_options_default es of Ok disk \<Rightarrow> disk | _ \<Rightarrow> [])"

definition example_files :: files where
  "example_files =
     [utext ''a.sst'' \<mapsto> built_file [([97, 1, 5, 0, 0, 0, 0, 0, 0], [1]), ([98, 0, 9, 0, 0, 0, 0, 0, 0], [])],
      utext ''b.sst'' \<mapsto> built_file [([97, 1, 3, 0, 0, 0, 0, 0, 0], [2])]]"

lemma built_file_table:
  assumes "66 * length es + 2 * entries_size es + 1233 < 2 ^ 32" and "fs path = Some (built_file es)"
  shows "written_file example_ext fs path sst_builder_options_default es"
proof -
  have bound: "sst_size_bound sst_builder_options_default es < 2 ^ 32"
    using assms(1) by (simp only: default_options_small)
  obtain disk where "build_sst example_ext sst_builder_options_default es = Ok disk"
    using build_sst_load[OF default_options_small(1) bound] by blast
  moreover have "opt_external_sst_global_seqno sst_builder_options_default = None"
    by (simp add: sst_builder_options_default_def)
  ultimately show ?thesis
    using bound assms(2) unfolding written_file_def by (auto simp: built_file_def)
qed

lemma example_table_files:
  "written_file example_ext example_files (utext ''a.sst'') sst_builder_options_default
     [([97, 1, 5, 0, 0, 0, 0, 0, 0], [1]), ([98, 0, 9, 0, 0, 0, 0, 0, 0], [])]"
  "written_file example_ext example_files (utext ''b.sst'') sst_builder_options_default [([97, 1, 3, 0, 0, 0, 0, 0, 0], [2])]"
  by (rule built_file_table; simp add: example_files_def utext_def)+

section \<open>Properties\<close>

text \<open>
  C7. The program \<open>compact_files\<close>, given paths of table files (as arguments or in a list file), each
  written with options of its own from a sorted run, ends with status 0 and leaves all files as they
  were, except that at the output path there is a table file, which holds what the reference
  implementation computes from the runs; this is so with and without \<open>--for-ingest\<close>, and also when the
  output path is one of the inputs.
\<close>

theorem compact_files_correct:
  assumes args: "args = remove1 (utext ''--for-ingest'') args0" "3 \<le> length args"
    and paths: "input_paths_of fs args = Continue paths" "list_all2 (table_file X fs) paths ess"
    and runs: "\<forall>es \<in> set ess. keys_valid es \<and> ik_sorted es" "distinct_versions (concat ess)"
      "66 * length (concat ess) + 2 * entries_size (concat ess) + 1233 < 2 ^ 32"
    and out: "\<And>data. write (args ! 1) data = Written"
  shows "\<exists>disk s. compact_files_run X write fs args0 =
             Some (Exited 0, [Wrote (length disk) (args ! 1) (length paths)], fs(args ! 1 \<mapsto> disk)) \<and>
           load_arena_source X (blocking_file_reader disk) = Ok s \<and>
           naive_compact ess = Ok (strip (arena_remaining s))"
proof -
  let ?o = "compact_files_options (utext ''--for-ingest'' \<in> set args0)"
  have "sst_size_bound (sst_builder ?o) (concat ess) < 2 ^ 32"
    using runs(3) by (simp only: compact_files_options_size)
  from compact_strip[OF runs(1,2) this, of X] obtain disk s where job:
      "compact X (map (\<lambda>es. arena_of es) ess) ?o = Some (Ok disk)"
      "load_arena_source X (blocking_file_reader disk) = Ok s" "naive_compact ess = Ok (strip (arena_remaining s))"
    by blast
  have "\<not> length args < 3" using args(2) by simp
  then have "compact_files_run X write fs args0 =
      Some (Exited 0, [Wrote (length disk) (args ! 1) (length paths)], fs(args ! 1 \<mapsto> disk))"
    using paths(1) load_table_files[OF paths(2)] job(1) out
    by (simp add: compact_files_run_def Let_def flip: args(1))
  with job(2,3) show ?thesis by blast
qed

theorem compact_files_correct_witness:
  "\<exists>disk s. compact_files_run example_ext (\<lambda>_ _. Written) example_files
       [utext ''compact_files'', utext ''--for-ingest'', utext ''out.sst'', utext ''a.sst'', utext ''b.sst''] =
       Some (Exited 0, [Wrote (length disk) (utext ''out.sst'') 2], example_files(utext ''out.sst'' \<mapsto> disk)) \<and>
     load_arena_source example_ext (blocking_file_reader disk) = Ok s \<and>
     naive_compact [[([97, 1, 5, 0, 0, 0, 0, 0, 0], [1]), ([98, 0, 9, 0, 0, 0, 0, 0, 0], [])],
       [([97, 1, 3, 0, 0, 0, 0, 0, 0], [2])]] = Ok (strip (arena_remaining s))"
proof -
  let ?ess = "[[([97, 1, 5, 0, 0, 0, 0, 0, 0], [1]), ([98, 0, 9, 0, 0, 0, 0, 0, 0], [])],
      [([97, 1, 3, 0, 0, 0, 0, 0, 0], [2])]] :: entry list list"
  let ?args = "[utext ''compact_files'', utext ''out.sst'', utext ''a.sst'', utext ''b.sst'']"
  have h1: "?args = remove1 (utext ''--for-ingest'')
      [utext ''compact_files'', utext ''--for-ingest'', utext ''out.sst'', utext ''a.sst'', utext ''b.sst'']"
    by (simp add: utext_def)
  have h2: "input_paths_of example_files ?args = Continue [utext ''a.sst'', utext ''b.sst'']"
    by (simp add: input_paths_of_def utext_def)
  have h3: "list_all2 (table_file example_ext example_files) [utext ''a.sst'', utext ''b.sst''] ?ess"
    using example_table_files by (auto simp: table_file_def)
  have h4: "\<forall>es \<in> set ?ess. keys_valid es \<and> ik_sorted es" by (simp add: ikrank_le ukey_def)
  have h5: "distinct_versions (concat ?ess)" by code_simp
  have "\<exists>disk s. compact_files_run example_ext (\<lambda>_ _. Written) example_files
       [utext ''compact_files'', utext ''--for-ingest'', utext ''out.sst'', utext ''a.sst'', utext ''b.sst''] =
       Some (Exited 0, [Wrote (length disk) (?args ! 1) (length [utext ''a.sst'', utext ''b.sst''])],
         example_files(?args ! 1 \<mapsto> disk)) \<and>
     load_arena_source example_ext (blocking_file_reader disk) = Ok s \<and>
     naive_compact ?ess = Ok (strip (arena_remaining s))"
    by (rule compact_files_correct[OF h1 _ h2 h3 h4 h5]) simp_all
  then show ?thesis by (simp add: numeral_2_eq_2)
qed

text \<open>
  C19. Whatever the arguments and the files are and however the write goes, \<open>compact_files\<close> ends, and it
  changes no file but the one at the output path. Status 0 means that the whole file of the job on the
  loaded inputs is there. With any other end all files are as they were, with one exception: when the
  write of that file was cut short, the program says so with status 1, and the output path holds the
  beginning of it in place of what was there.
\<close>

theorem compact_files_safe:
  "\<exists>st ms fs'. compact_files_run X write fs args0 = Some (st, ms, fs') \<and>
    (st \<noteq> Exited 0 \<and> fs' = fs \<or>
     (\<exists>paths ss disk. input_paths_of fs (positional args0) = Continue paths \<and> load_inputs X fs paths = Continue ss \<and>
        compact X ss (compact_files_options (utext ''--for-ingest'' \<in> set args0)) = Some (Ok disk) \<and>
        (write (positional args0 ! 1) disk = Written \<and> st = Exited 0 \<and>
           ms = [Wrote (length disk) (positional args0 ! 1) (length paths)] \<and> fs' = fs(positional args0 ! 1 \<mapsto> disk) \<or>
         (\<exists>n. write (positional args0 ! 1) disk = CutShort n \<and> st = Exited 1 \<and>
            ms = [OutputWriteFailed (positional args0 ! 1)] \<and> fs' = fs(positional args0 ! 1 \<mapsto> take n disk)))))"
proof -
  define args where "args = positional args0"
  define b where "b = (utext ''--for-ingest'' \<in> set args0)"
  define inputs where "inputs = and_then (input_paths_of fs args) (\<lambda>paths.
      and_then (load_inputs X fs paths) (\<lambda>sources. Continue (paths, sources)))"
  have run: "compact_files_run X write fs args0 =
      (if length args < 3 then Some (Exited 1, [CompactUsage], fs)
       else case inputs of
         Stop st ms \<Rightarrow> Some (st, ms, fs)
       | Continue (paths, ss) \<Rightarrow>
           map_option (\<lambda>r. case r of
               Panic \<Rightarrow> (Panicked, [], fs)
             | Err e \<Rightarrow> (Exited 1, [CompactionFailed e], fs)
             | Ok disk \<Rightarrow>
                 (let (written, fs') = fs_write (write (args ! 1) disk) fs (args ! 1) disk
                  in if written then (Exited 0, [Wrote (length disk) (args ! 1) (length paths)], fs')
                     else (Exited 1, [OutputWriteFailed (args ! 1)], fs')))
             (compact X ss (compact_files_options b)))"
    by (simp only: compact_files_run_def Let_def args_def b_def inputs_def)
  show ?thesis
  proof (cases "length args < 3")
    case True
    then show ?thesis by (simp add: run flip: args_def b_def)
  next
    case False
    show ?thesis
    proof (cases inputs)
      case (Stop st ms)
      with inputs_failed[of fs args X] False show ?thesis by (auto simp: run inputs_def simp flip: args_def b_def)
    next
      case (Continue ps)
      obtain paths ss where ps: "ps = (paths, ss)" by (cases ps)
      have parts: "input_paths_of fs args = Continue paths" "load_inputs X fs paths = Continue ss"
        using Continue ps by (auto simp: inputs_def and_then_Continue_iff)
      obtain r where r: "compact X ss (compact_files_options b) = Some r" using compact_ends by fastforce
      show ?thesis
      proof (cases r)
        case (Ok disk)
        with parts r False Continue ps show ?thesis
          by (cases "write (args ! 1) disk") (auto simp: run simp flip: args_def b_def)
      qed (use r False Continue ps in \<open>simp_all add: run flip: args_def b_def\<close>)
    qed
  qed
qed

text \<open>
  C20. The printer shows a table file whose keys are valid internal keys: with \<open>--dump-all\<close> one line with
  user key and value for every entry, in the order of the file, and nothing else; without it a header
  with the magic number, the format version and the checksum type of the options that the file was
  written with, the first twenty entries, the number of all entries and, when there are more than
  twenty, how many were not shown. Keys and values are shown as text, with replacement characters where
  they are not UTF-8 (\<open>lossy\<close>).
\<close>

theorem compactor_dumps:
  assumes "written_file X fs path opts es" and "keys_valid es"
  shows "compactor_run X fs [prog, path, utext ''--dump-all''] =
           (Exited 0, map (\<lambda>e. DumpPair (lossy (ukey (fst e))) (lossy (snd e))) es) \<and>
         compactor_run X fs [prog, path] =
           (Exited 0, DumpHeader BLOCK_BASED_TABLE_MAGIC FORMAT_VERSION (opt_checksum_type opts) #
              map (\<lambda>e. DumpEntry (lossy (ukey (fst e))) (seqno (fst e)) (vtype (fst e)) (length (snd e))) (take 20 es) @
              DumpTotal (length es) # (if length es > 20 then [DumpMore (length es - 20)] else []))"
proof -
  let ?init = "\<lparr>dump_count = 0, dump_printed = 0, dump_lines = []\<rparr>"
  obtain disk sst where tf: "fs path = Some disk" "sst_reader_open X (blocking_file_reader disk) = Ok sst"
      "table_magic_number (sr_footer sst) = BLOCK_BASED_TABLE_MAGIC" "format_version (sr_footer sst) = FORMAT_VERSION"
      "checksum_type (sr_footer sst) = opt_checksum_type opts"
      "sst_reader_for_each_entry X sst (dump_step True) ?init = (feed (dump_step True) ?init es, Ok ())"
    using read_table_file[OF assms(1), of "dump_step True" ?init] by blast
  moreover have "sst_reader_for_each_entry X sst (dump_step False) ?init = (feed (dump_step False) ?init es, Ok ())"
    using read_table_file[OF assms(1), of "dump_step False" ?init] tf(1,2) by auto
  ultimately show ?thesis
    using feed_dump_all[OF assms(2), of ?init] feed_dump_some[OF assms(2), of ?init]
    by (auto simp: compactor_run_def io_open_iff Let_def)
qed

theorem compactor_dumps_witness:
  "compactor_run example_ext example_files [utext ''compactor'', utext ''b.sst'', utext ''--dump-all''] =
     (Exited 0, [DumpPair [97] [2]]) \<and>
   compactor_run example_ext example_files [utext ''compactor'', utext ''b.sst''] =
     (Exited 0, [DumpHeader 0x88e241b785f4cff7 7 XxH3, DumpEntry [97] 3 Value 1, DumpTotal 1])"
proof -
  let ?k = "[97, 1, 3, 0, 0, 0, 0, 0, 0] :: bytes"
  have "lossy (ukey ?k) = [97]" "lossy [2] = [2]" "seqno ?k = 3" "vtype ?k = Value"
      "opt_checksum_type sst_builder_options_default = XxH3"
    by code_simp+
  then show ?thesis
    using compactor_dumps[OF example_table_files(2), of "utext ''compactor''"]
    by (simp add: BLOCK_BASED_TABLE_MAGIC_def FORMAT_VERSION_def)
qed

end
