(* ===== verification/Shard_Tasks.thy ===== *)
theory Shard_Tasks
  imports Compaction
begin

text \<open>
  The tasks of a sharded job (\<^verbatim>\<open>compact_sharded\<close> of \<^verbatim>\<open>compaction/mod.rs\<close>) as they run: every shard is a task
  on the pool of \<^verbatim>\<open>spawn_blocking\<close>, which waits for a thread, builds its merger, takes one entry per turn
  of the loop and writes its table; the steps of the tasks interleave in any order, also with those of
  the caller, which awaits the tasks in shard order and returns at the first error. A task that panics
  is finished, with a \<open>JoinError\<close> for the one who awaits it. The tasks the caller has not awaited when it
  returns run on, detached.

  \<open>compact_sharded\<close> of the theory \<open>Compaction\<close> computes one result from the results of the tasks. Here
  it is shown that no schedule gives another, that none is stuck before the job has its result, and
  that none goes on for ever.
\<close>

section \<open>Model\<close>

datatype task =
    Queued "ArenaSource list"
  | Merging "unit compact_state" "ArenaSource LoserTreeMerger"
  | Finished "bytes outcome"

fun task_step :: "ext \<Rightarrow> CompactionOptions \<Rightarrow> task \<Rightarrow> task option" where
  "task_step X opts (Queued inputs) =
     Some (case loser_tree_new InternalKeyComparator arena_source_ops inputs of
             Panic \<Rightarrow> Finished Panic
           | Err e \<Rightarrow> Finished (Err e)
           | Ok m \<Rightarrow> Merging (compact_init ()) m)"
| "task_step X opts (Merging cs m) =
     Some (case loser_tree_step InternalKeyComparator arena_source_ops (compact_step bottommost_decide) cs m of
             Panic \<Rightarrow> Finished Panic
           | Err e \<Rightarrow> Finished (Err e)
           | Ok None \<Rightarrow> Finished (build_sst X (sst_builder opts) (out_entries cs))
           | Ok (Some (cs', m')) \<Rightarrow> Merging cs' m')"
| "task_step X opts (Finished r) = None"

record job =
  tasks :: "task list"
  awaiting :: nat
  outputs :: "bytes list"
  job_result :: "bytes list outcome option"

definition spawn_tasks :: "ArenaSource list list \<Rightarrow> job" where
  "spawn_tasks shard_inputs =
     \<lparr>tasks = map Queued shard_inputs, awaiting = 0, outputs = [], job_result = None\<rparr>"

inductive job_step :: "ext \<Rightarrow> CompactionOptions \<Rightarrow> job \<Rightarrow> job \<Rightarrow> bool"
  for X :: ext and opts :: CompactionOptions where
  run_task: "i < length (tasks j) \<Longrightarrow> task_step X opts (tasks j ! i) = Some t \<Longrightarrow>
     job_step X opts j (j\<lparr>tasks := (tasks j)[i := t]\<rparr>)"
| await_output: "job_result j = None \<Longrightarrow> awaiting j < length (tasks j) \<Longrightarrow>
     tasks j ! awaiting j = Finished (Ok bytes_out) \<Longrightarrow>
     job_step X opts j (j\<lparr>awaiting := Suc (awaiting j), outputs := outputs j @ [bytes_out]\<rparr>)"
| await_error: "job_result j = None \<Longrightarrow> awaiting j < length (tasks j) \<Longrightarrow>
     tasks j ! awaiting j = Finished (Err e) \<Longrightarrow> job_step X opts j (j\<lparr>job_result := Some (Err e)\<rparr>)"
| await_panic: "job_result j = None \<Longrightarrow> awaiting j < length (tasks j) \<Longrightarrow>
     tasks j ! awaiting j = Finished Panic \<Longrightarrow>
     job_step X opts j (j\<lparr>job_result := Some (Err (Msg ''subcompaction shard task panicked''))\<rparr>)"
| all_awaited: "job_result j = None \<Longrightarrow> awaiting j = length (tasks j) \<Longrightarrow>
     job_step X opts j (j\<lparr>job_result := Some (Ok (outputs j))\<rparr>)"

inductive_cases job_stepE: "job_step X opts j j'"

section \<open>A task computes its shard\<close>

text \<open>What a task still has to give.\<close>

fun task_value :: "ext \<Rightarrow> CompactionOptions \<Rightarrow> task \<Rightarrow> bytes outcome option" where
  "task_value X opts (Queued inputs) = compact X inputs opts"
| "task_value X opts (Merging cs m) =
     map_option (\<lambda>r. obind r (\<lambda>(cs', m'). build_sst X (sst_builder opts) (out_entries cs')))
       (loser_tree_run InternalKeyComparator arena_source_ops (compact_step bottommost_decide) cs m)"
| "task_value X opts (Finished r) = Some r"

lemma task_step_value: "task_step X opts t = Some t' \<Longrightarrow> task_value X opts t' = task_value X opts t"
proof (cases t)
  case (Queued ss)
  assume step: "task_step X opts t = Some t'"
  show ?thesis
    using step Queued
    by (cases "loser_tree_new InternalKeyComparator arena_source_ops ss")
       (auto simp: compact_def compact_with_strategy_def loser_tree_merge_def option.map_comp comp_def
          case_prod_unfold outcome_simps intro!: option.map_cong)
next
  case (Merging cs m)
  assume "task_step X opts t = Some t'"
  with Merging show ?thesis
    by (auto simp: loser_tree_run_step[of _ _ _ cs m] split: outcome.splits option.splits)
qed simp

lemma task_value_ends: "task_value X opts t \<noteq> None"
  using compact_ends arena_finite.loser_tree_run_ends by (cases t) (simp_all del: not_None_eq)

section \<open>Every schedule ends\<close>

fun task_left :: "task \<Rightarrow> nat" where
  "task_left (Queued inputs) = 2 + sum_list (map arena_left inputs)"
| "task_left (Merging cs m) = 1 + sum_list (map arena_left (lt_sources m))"
| "task_left (Finished r) = 0"

definition job_left :: "job \<Rightarrow> nat" where
  "job_left j = sum_list (map task_left (tasks j)) + (length (tasks j) - awaiting j) +
     (if job_result j = None then 1 else 0)"

lemma loser_tree_new_sources: "loser_tree_new C S ss = Ok m \<Longrightarrow> lt_sources m = ss"
  by (auto simp: loser_tree_new_def lt_build_def Let_def)

lemma task_step_less: "task_step X opts t = Some t' \<Longrightarrow> task_left t' < task_left t"
  by (cases t) (auto dest: loser_tree_new_sources arena_finite.loser_tree_step_less split: outcome.splits option.splits)

lemma sum_task_update:
  assumes "i < length ts" and "task_left t < task_left (ts ! i)"
  shows "sum_list (map task_left (ts[i := t])) < sum_list (map task_left ts)"
  using assms
proof (induction ts arbitrary: i)
  case (Cons x ts)
  then show ?case by (cases i) auto
qed simp

lemma job_step_less: "job_step X opts j j' \<Longrightarrow> job_left j' < job_left j"
  by (induction rule: job_step.induct) (auto simp: job_left_def dest: sum_task_update[OF _ task_step_less])

lemma job_steps_bounded: "(job_step X opts ^^ n) j j' \<Longrightarrow> n + job_left j' \<le> job_left j"
proof (induction n arbitrary: j')
  case (Suc n)
  then obtain k where "(job_step X opts ^^ n) j k" "job_step X opts k j'" by auto
  with Suc.IH[of k] job_step_less[of X opts k j'] show ?case by simp
qed simp

section \<open>Every schedule gives the result of the job\<close>

definition await_after :: "bytes list \<Rightarrow> bytes outcome option list \<Rightarrow> bytes list outcome option" where
  "await_after outs vs = map_option (\<lambda>r. obind r (\<lambda>os. Ok (outs @ os))) (await_tasks vs)"

text \<open>The invariant of the caller: the tasks it has awaited gave the outputs it holds.\<close>

definition job_inv :: "ext \<Rightarrow> CompactionOptions \<Rightarrow> ArenaSource list list \<Rightarrow> job \<Rightarrow> bool" where
  "job_inv X opts inputs j \<longleftrightarrow>
     map (task_value X opts) (tasks j) = map (\<lambda>ss. compact X ss opts) inputs \<and>
     awaiting j \<le> length (tasks j) \<and>
     await_tasks (map (\<lambda>ss. compact X ss opts) inputs) =
       (case job_result j of
          None \<Rightarrow> await_after (outputs j) (map (task_value X opts) (drop (awaiting j) (tasks j)))
        | Some r \<Rightarrow> Some r)"

lemma job_inv_init: "job_inv X opts inputs (spawn_tasks inputs)"
proof -
  have "map_option (\<lambda>r. obind r Ok) v = v" for v :: "bytes list outcome option" by (cases v) auto
  then show ?thesis by (simp add: job_inv_def spawn_tasks_def await_after_def comp_def)
qed

lemma await_drop:
  assumes "awaiting j < length (tasks j)"
  shows "map (task_value X opts) (drop (awaiting j) (tasks j)) =
    task_value X opts (tasks j ! awaiting j) # map (task_value X opts) (drop (Suc (awaiting j)) (tasks j))"
  using assms by (simp add: Cons_nth_drop_Suc[symmetric])

lemma await_after_Cons:
  "await_after outs (Some (Ok b) # vs) = await_after (outs @ [b]) vs"
  "await_after outs (Some (Err e) # vs) = Some (Err e)"
  "await_after outs (Some Panic # vs) = Some (Err (Msg ''subcompaction shard task panicked''))"
  "await_after outs [] = Some (Ok outs)"
  by (simp_all add: await_after_def option.map_comp comp_def outcome_simps)

lemma job_inv_step:
  assumes "job_step X opts j j'" and "job_inv X opts inputs j"
  shows "job_inv X opts inputs j'"
  using assms
proof (induction rule: job_step.induct)
  case (run_task i j t)
  have "map (task_value X opts) ((tasks j)[i := t]) = map (task_value X opts) (tasks j)"
    using run_task.hyps(1) task_step_value[OF run_task.hyps(2)]
    by (simp add: map_update list_update_same_conv)
  moreover from this have "map (task_value X opts) (drop n ((tasks j)[i := t])) = map (task_value X opts) (drop n (tasks j))"
    for n by (simp add: drop_map[symmetric])
  ultimately show ?case using run_task.prems by (cases "job_result j") (simp_all add: job_inv_def)
qed (auto simp: job_inv_def await_drop await_after_Cons)

lemma job_inv_reachable: "(job_step X opts)\<^sup>*\<^sup>* (spawn_tasks inputs) j \<Longrightarrow> job_inv X opts inputs j"
  by (induction rule: rtranclp_induct) (auto intro: job_inv_init job_inv_step)

lemma job_progress:
  assumes "job_inv X opts inputs j" and "job_result j = None"
  shows "\<exists>j'. job_step X opts j j'"
proof (cases "awaiting j < length (tasks j)")
  case True
  show ?thesis
  proof (cases "tasks j ! awaiting j")
    case (Finished r)
    then show ?thesis using assms(2) True by (cases r) (auto intro: job_step.intros)
  qed (use True in \<open>auto intro!: exI job_step.run_task[OF True]\<close>)
next
  case False
  then have "awaiting j = length (tasks j)" using assms(1) by (simp add: job_inv_def)
  then show ?thesis using job_step.all_awaited[OF assms(2)] by blast
qed

lemma job_returns:
  assumes "job_inv X opts inputs j"
  shows "\<exists>j'. (job_step X opts)\<^sup>*\<^sup>* j j' \<and> job_result j' \<noteq> None"
  using assms
proof (induction "job_left j" arbitrary: j rule: less_induct)
  case less
  show ?case
  proof (cases "job_result j = None")
    case True
    then obtain k where k: "job_step X opts j k" using job_progress[OF less.prems] by blast
    from less.hyps[OF job_step_less[OF k] job_inv_step[OF k less.prems]] k show ?thesis
      by (metis converse_rtranclp_into_rtranclp)
  qed blast
qed

lemma compact_sharded_tasks:
  assumes "1 < num_shards" and "sources \<noteq> []"
    and "obind (pick_shard_boundaries sources num_shards) (\<lambda>boundaries.
           shard_sources boundaries sources (replicate (length boundaries + 1) [])) = Ok inputs"
  shows "compact_sharded X sources num_shards opts = await_tasks (map (\<lambda>ss. compact X ss opts) inputs)"
  using assms by (simp add: compact_sharded_def del: obind_eq_Ok_iff replicate_Suc)

section \<open>Properties\<close>

text \<open>
  C5. The schedule of the shards does not matter, and every schedule delivers. Once the shards are cut and
  their tasks spawned, in whatever order the threads take their steps: what the caller has returned is the
  result of \<open>compact_sharded\<close>; while it has not returned some step is possible; at most \<open>job_left\<close> further
  steps are; and some of them lead to the return.
\<close>

theorem every_schedule_delivers:
  assumes "1 < num_shards" and "sources \<noteq> []"
    and "obind (pick_shard_boundaries sources num_shards) (\<lambda>boundaries.
           shard_sources boundaries sources (replicate (length boundaries + 1) [])) = Ok inputs"
    and "(job_step X opts)\<^sup>*\<^sup>* (spawn_tasks inputs) j"
  shows "(\<forall>r. job_result j = Some r \<longrightarrow> compact_sharded X sources num_shards opts = Some r) \<and>
         (job_result j = None \<longrightarrow> (\<exists>j'. job_step X opts j j')) \<and>
         (\<forall>n j'. (job_step X opts ^^ n) j j' \<longrightarrow> n \<le> job_left j) \<and>
         (\<exists>j'. (job_step X opts)\<^sup>*\<^sup>* j j' \<and> job_result j' = compact_sharded X sources num_shards opts)"
proof -
  have inv: "job_inv X opts inputs j" using assms(4) by (rule job_inv_reachable)
  have res: "compact_sharded X sources num_shards opts = Some r" if "job_inv X opts inputs k" "job_result k = Some r" for k r
    using that compact_sharded_tasks[OF assms(1-3), of X opts] by (auto simp: job_inv_def)
  obtain k where k: "(job_step X opts)\<^sup>*\<^sup>* j k" "job_result k \<noteq> None" using job_returns[OF inv] by blast
  have "job_inv X opts inputs k" using assms(4) k(1) by (intro job_inv_reachable) simp
  then show ?thesis using res inv k job_progress[OF inv] job_steps_bounded[of _ X opts j] by fastforce
qed

theorem every_schedule_delivers_witness:
  "\<exists>inputs j. length inputs = 2 \<and>
     (job_step example_ext \<lparr>sst_builder = sst_builder_options_default\<rparr>)\<^sup>*\<^sup>* (spawn_tasks inputs) j \<and>
     job_result j = compact_sharded example_ext
       [arena_of [([97, 1, 5, 0, 0, 0, 0, 0, 0], [1]), ([98, 1, 5, 0, 0, 0, 0, 0, 0], [2])]] 2
       \<lparr>sst_builder = sst_builder_options_default\<rparr>"
proof -
  let ?es = "[([97, 1, 5, 0, 0, 0, 0, 0, 0], [1]), ([98, 1, 5, 0, 0, 0, 0, 0, 0], [2])] :: entry list"
  let ?s = "arena_of ?es"
  have "whole_source ?s" by (rule arena_of_whole) (simp_all add: ikrank_le ukey_def)
  moreover have "arena_entries ?s = ?es" using arena_of_correct[of ?es] by simp
  then have "total_len ?s = 2"
    by (simp only: total_len_def flip: length_arena_entries) simp
  ultimately obtain inputs where inputs: "obind (pick_shard_boundaries [?s] 2) (\<lambda>boundaries.
      shard_sources boundaries [?s] (replicate (length boundaries + 1) [])) = Ok inputs" "length inputs = 2"
    using shards_cut[of "[?s]" 2] by auto
  have "(1 :: nat) < 2" "[?s] \<noteq> []" by simp_all
  from every_schedule_delivers[OF this inputs(1) rtranclp.rtrancl_refl,
      of example_ext "\<lparr>sst_builder = sst_builder_options_default\<rparr>"] inputs(2)
  show ?thesis by blast
qed

end
