(* ===== verification/Shard_Balance.thy ===== *)
theory Shard_Balance
  imports Compaction
begin

text \<open>
  How even the shards of \<open>compact_sharded\<close> (\<^verbatim>\<open>compaction/mod.rs\<close>) are: the boundaries are keys of the largest
  source at equidistant positions, and every source is cut at the user keys of the boundaries. In the
  largest source itself, when it has one version of each user key, the cuts are at these positions.
\<close>

section \<open>Cutting a list at its own keys\<close>

lemma takeWhile_below_nth:
  assumes "sorted_wrt (<) (map (\<lambda>e. ukey (fst e)) es)" and "i < length es"
  shows "length (takeWhile (\<lambda>e. ukey (fst e) < ukey (fst (es ! i))) es) = i"
proof -
  have "takeWhile (\<lambda>e. ukey (fst e) < ukey (fst (es ! i))) es = take i es"
    using assms by (intro takeWhile_eq_take_P_nth) (auto simp: sorted_wrt_iff_nth_less)
  then show ?thesis using assms(2) by simp
qed

lemma pieces_at:
  assumes strict: "sorted_wrt (<) (map (\<lambda>e. ukey (fst e)) es)"
    and "sorted (a # idxs)" and "\<forall>i \<in> set idxs. i < length es" and "j \<le> length idxs"
  shows "pieces (map (\<lambda>i. fst (es ! i)) idxs) (drop a es) ! j =
         drop ((a # idxs) ! j) (take ((idxs @ [length es]) ! j) es)"
  using assms(2-4)
proof (induction idxs arbitrary: a j)
  case (Cons i idxs)
  have "sorted (map (\<lambda>e. ukey (fst e)) es)" using strict by (rule strict_sorted_imp_sorted)
  note cut = cut_from[OF this takeWhile_below_nth[OF strict, of i, symmetric], of a]
  show ?case using Cons.IH[of i] Cons.prems cut by (cases j) auto
qed simp

lemma slice_even:
  fixes n k j :: nat
  assumes "0 < k"
  shows "n div k \<le> n * (j + 1) div k - n * j div k \<and> n * (j + 1) div k - n * j div k \<le> n div k + 1"
proof -
  have "n * (j + 1) div k = n * j div k + n div k + (n * j mod k + n mod k) div k"
    using div_add1_eq[of "n * j" n k] by (simp add: algebra_simps)
  moreover have "n * j mod k + n mod k < 2 * k" using assms by (simp add: add_less_le_mono mult_2 le_less)
  then have "(n * j mod k + n mod k) div k < 2" by (rule less_mult_imp_div_less)
  ultimately show ?thesis by simp
qed

text \<open>The equidistant positions, as the starts and the ends of the slices.\<close>

lemma even_cuts:
  fixes n k j :: nat
  defines "at \<equiv> \<lambda>i. n * i div k"
  assumes "j < k"
  shows "(0 # map at [1..<k]) ! j = at j" and "(map at [1..<k] @ [n]) ! j = at (j + 1)"
    and "sorted (0 # map at [1..<k])"
proof -
  show "(0 # map at [1..<k]) ! j = at j" using assms(2) by (cases j) (auto simp: at_def)
  show "(map at [1..<k] @ [n]) ! j = at (j + 1)"
  proof (cases "j + 1 < k")
    case True
    then have "j < k - 1" by linarith
    then show ?thesis by (simp add: nth_append)
  next
    case False
    then have "k = j + 1" using assms(2) by simp
    then show ?thesis by (simp add: nth_append at_def del: mult_Suc_right)
  qed
  have "sorted (map at [1..<k])"
    by (auto simp: at_def sorted_map sorted_wrt_iff_nth_less intro!: div_le_mono mult_le_mono2)
  then show "sorted (0 # map at [1..<k])" by simp
qed

section \<open>Properties\<close>

text \<open>
  C25. The shards are even: when the largest source, at position \<open>q\<close>, has \<open>n\<close> entries with distinct user keys,
  each of the \<open>k\<close> shards gets from it the entries from \<open>n * j div k\<close> up to \<open>n * (j + 1) div k\<close>, which
  are \<open>n div k\<close> or one more; together they are the whole source.
\<close>

theorem shards_balanced:
  fixes num_shards :: nat
  assumes whole: "\<forall>s \<in> set ss. whole_source s" and room: "\<forall>s \<in> set ss. total_len s * num_shards < 2 ^ 64"
    and k: "1 < num_shards" and q: "q < length ss" "max_by_key total_len ss = Some (ss ! q)"
    and pos: "0 < total_len (ss ! q)" and dist: "distinct (map (\<lambda>e. ukey (fst e)) (arena_entries (ss ! q)))"
  defines "n \<equiv> total_len (ss ! q)" and "es \<equiv> arena_entries (ss ! q)"
  shows "\<exists>bs inputs. pick_shard_boundaries ss num_shards = Ok bs \<and>
    shard_sources bs ss (replicate (length bs + 1) []) = Ok inputs \<and> length inputs = num_shards \<and>
    (\<forall>j < num_shards.
       arena_remaining (inputs ! j ! q) = drop (n * j div num_shards) (take (n * (j + 1) div num_shards) es) \<and>
       n div num_shards \<le> length (arena_remaining (inputs ! j ! q)) \<and>
       length (arena_remaining (inputs ! j ! q)) \<le> n div num_shards + 1)"
proof -
  let ?at = "\<lambda>i. n * i div num_shards"
  have m: "ss ! q \<in> set ss" using q(1) by simp
  have below: "?at i < n" if "i < num_shards" for i
    using that pos by (intro less_mult_imp_div_less) (simp add: n_def)
  have len: "length es = n" by (simp add: es_def n_def total_len_def length_arena_entries)
  obtain bs inputs where bs: "pick_shard_boundaries ss num_shards = Ok bs"
      and inputs: "shard_sources bs ss (replicate (length bs + 1) []) = Ok inputs" "length inputs = length bs + 1"
        "\<forall>j \<le> length bs. (\<forall>t \<in> set (inputs ! j). wf_arena t) \<and>
           map arena_remaining (inputs ! j) = map (\<lambda>s. pieces bs (arena_entries s) ! j) ss"
    using shards_cut[OF whole room k] m by (metis empty_iff empty_set)
  have "min (?at i) (n - 1) = ?at i" if "i < num_shards" for i
    using below[OF that] by linarith
  then have "map (\<lambda>i. fst (es ! min (?at i) (n - 1))) [1..<num_shards] = map (\<lambda>i. fst (es ! ?at i)) [1..<num_shards]"
    by (intro map_cong refl) simp
  with bs have bs_at: "bs = map (\<lambda>i. fst (es ! i)) (map ?at [1..<num_shards])"
    using pick_boundaries_at[OF q(2) bspec[OF whole m] pos bspec[OF room m]]
    by (simp add: n_def es_def comp_def)
  have strict: "sorted_wrt (<) (map (\<lambda>e. ukey (fst e)) es)"
    using dist ik_sorted_ukey[OF whole_source_entries(4)[OF bspec[OF whole m]]]
    by (simp add: es_def strict_sorted_iff)
  have "arena_remaining (inputs ! j ! q) = drop (?at j) (take (?at (j + 1)) es)" if j: "j < num_shards" for j
  proof -
    have le: "j \<le> length bs" using j by (simp add: bs_at)
    then have eq: "map arena_remaining (inputs ! j) = map (\<lambda>s. pieces bs (arena_entries s) ! j) ss"
      using inputs(3) by blast
    then have "length (inputs ! j) = length ss" by (rule map_eq_imp_length_eq)
    with arg_cong[OF eq, of "\<lambda>xs. xs ! q"] have "arena_remaining (inputs ! j ! q) = pieces bs es ! j"
      using q(1) by (simp add: es_def)
    also have "\<dots> = drop ((0 # map ?at [1..<num_shards]) ! j) (take ((map ?at [1..<num_shards] @ [length es]) ! j) es)"
      using pieces_at[OF strict even_cuts(3)[OF j, of n], of j] below le unfolding bs_at by (simp add: len)
    finally show ?thesis unfolding len even_cuts(1,2)[OF j] .
  qed
  moreover have "length (drop (?at j) (take (?at (j + 1)) es)) = ?at (j + 1) - ?at j" if "j < num_shards" for j
  proof -
    have "?at (j + 1) \<le> n * num_shards div num_shards" using that by (intro div_le_mono mult_le_mono2) simp
    then show ?thesis using k by (simp add: len min_absorb2)
  qed
  moreover have "length inputs = num_shards" using inputs(2) k by (simp add: bs_at)
  ultimately show ?thesis using bs inputs(1) slice_even[of num_shards n] k by auto
qed

theorem shards_balanced_witness:
  "\<exists>bs inputs. pick_shard_boundaries [arena_of [([97, 1, 5, 0, 0, 0, 0, 0, 0], [1]), ([98, 1, 5, 0, 0, 0, 0, 0, 0], [2]),
       ([99, 1, 5, 0, 0, 0, 0, 0, 0], [3])]] 2 = Ok bs \<and>
     shard_sources bs [arena_of [([97, 1, 5, 0, 0, 0, 0, 0, 0], [1]), ([98, 1, 5, 0, 0, 0, 0, 0, 0], [2]),
       ([99, 1, 5, 0, 0, 0, 0, 0, 0], [3])]] (replicate (length bs + 1) []) = Ok inputs \<and>
     arena_remaining (inputs ! 0 ! 0) = [([97, 1, 5, 0, 0, 0, 0, 0, 0], [1])]"
proof -
  let ?es = "[([97, 1, 5, 0, 0, 0, 0, 0, 0], [1]), ([98, 1, 5, 0, 0, 0, 0, 0, 0], [2]),
    ([99, 1, 5, 0, 0, 0, 0, 0, 0], [3])] :: entry list"
  let ?s = "arena_of ?es"
  have whole: "whole_source ?s" by (rule arena_of_whole) (simp_all add: ikrank_le ukey_def)
  have es: "arena_entries ?s = ?es" using arena_of_correct[of ?es] by simp
  then have len: "total_len ?s = 3" by (simp only: total_len_def flip: length_arena_entries) simp
  have "\<forall>s \<in> set [?s]. whole_source s" "\<forall>s \<in> set [?s]. total_len s * 2 < 2 ^ 64"
      "max_by_key total_len [?s] = Some ([?s] ! 0)" "0 < total_len ([?s] ! 0)"
      "distinct (map (\<lambda>e. ukey (fst e)) (arena_entries ([?s] ! 0)))"
    using whole len by (simp_all add: es ukey_def)
  from shards_balanced[OF this(1,2) _ _ this(3-5)] obtain bs inputs where
      "pick_shard_boundaries [?s] 2 = Ok bs" "shard_sources bs [?s] (replicate (length bs + 1) []) = Ok inputs"
      "\<forall>j < 2. arena_remaining (inputs ! j ! 0) = drop (3 * j div 2) (take (3 * (j + 1) div 2) ?es)"
    unfolding nth_Cons_0 len es by auto
  moreover have "(0::nat) < 2" by simp
  ultimately show ?thesis by fastforce
qed

end
