(* ===== verification/Index_Walk.thy ===== *)
theory Index_Walk
  imports Block_Builder
begin

text \<open>
  When the walk over an index block (\<open>for_each_index_entry\<close> of \<^verbatim>\<open>format/block.rs\<close>) panics. Malformed bytes
  are errors; the exception is the handle of a delta-encoded entry, which is computed from the previous
  handle with additions that are not checked. \<open>index_step\<close> is one turn of the loop on the state it
  keeps: the key, the last handle and the position.
\<close>

section \<open>Turns of the loop\<close>

text \<open>
  The difference stored by the entry at \<open>pos\<close>, where the entry is well formed up to it and does not hold
  a full handle.
\<close>

definition index_delta :: "nat list \<Rightarrow> bytes \<Rightarrow> bytes \<Rightarrow> nat \<Rightarrow> i64 option" where
  "index_delta restart_offsets data key_scratch pos =
     (case get_varint32 data pos of
        (None, _) \<Rightarrow> None
      | (Some shared, pos1) \<Rightarrow>
     (case get_varint32 data pos1 of
        (None, _) \<Rightarrow> None
      | (Some unshared, pos2) \<Rightarrow>
          if 0 < unat shared \<and> unat shared \<le> length key_scratch \<and> pos \<notin> set restart_offsets \<and>
             pos2 + unat unshared \<le> length data
          then fst (get_varsigned64 data (pos2 + unat unshared)) else None))"

definition delta_overflows :: "BlockHandle \<Rightarrow> i64 \<Rightarrow> bool" where
  "delta_overflows prev delta \<longleftrightarrow>
     sint (handle_size prev) + sint delta < - (2 ^ 63) \<or> 2 ^ 63 \<le> sint (handle_size prev) + sint delta \<or>
     2 ^ 64 \<le> unat (handle_offset prev) + unat (handle_size prev) + BLOCK_TRAILER_SIZE"

inductive index_step ::
    "nat list \<Rightarrow> bytes \<Rightarrow> bytes \<times> BlockHandle option \<times> nat \<Rightarrow> bytes \<times> BlockHandle option \<times> nat \<Rightarrow> bool"
  for restart_offsets data where
  "pos < length data \<Longrightarrow>
     decode_index_entry restart_offsets data key_scratch last_handle pos = Ok (k, h, pos') \<Longrightarrow>
     index_step restart_offsets data (key_scratch, last_handle, pos) (k, Some h, pos')"

inductive_cases index_stepE: "index_step ro data (ks, lh, pos) st"

definition index_overflow :: "nat list \<Rightarrow> bytes \<Rightarrow> bytes \<times> BlockHandle option \<times> nat \<Rightarrow> bool" where
  "index_overflow restart_offsets data = (\<lambda>(key_scratch, last_handle, pos).
     \<exists>prev delta. last_handle = Some prev \<and> index_delta restart_offsets data key_scratch pos = Some delta \<and>
       delta_overflows prev delta)"

lemma get_varint32_end: "\<not> pos < length data \<Longrightarrow> fst (get_varint32 data pos) = None"
  using get_varint32_progress[of data pos] by (cases "get_varint32 data pos"; cases "fst (get_varint32 data pos)") auto

lemma delta_sum_Panic_iff:
  "obind (i64_add (handle_size prev) delta) (\<lambda>new_size.
   obind (u64_add (handle_offset prev) (handle_size prev)) (\<lambda>o1.
   obind (u64_add o1 (of_nat BLOCK_TRAILER_SIZE)) (\<lambda>o2.
   Ok (\<lparr>handle_offset = o2, handle_size = new_size\<rparr>, p)))) = Panic \<longleftrightarrow> delta_overflows prev delta"
proof (cases "unat (handle_offset prev) + unat (handle_size prev) < 2 ^ 64")
  case True
  then have "unat (handle_offset prev + handle_size prev) = unat (handle_offset prev) + unat (handle_size prev)"
    by (simp add: unat_word_ariths)
  with True show ?thesis
    by (auto simp: delta_overflows_def i64_add_def u64_add_def BLOCK_TRAILER_SIZE_def)
next
  case False
  then show ?thesis by (auto simp: delta_overflows_def i64_add_def u64_add_def)
qed

lemma decode_index_value_Panic_iff:
  "decode_index_value data full lh pos = Panic \<longleftrightarrow>
     \<not> full \<and> (\<exists>prev delta. lh = Some prev \<and> fst (get_varsigned64 data pos) = Some delta \<and> delta_overflows prev delta)"
proof -
  obtain a p1 where a: "get_varint64 data pos = (a, p1)" by (cases "get_varint64 data pos")
  obtain b p2 where b: "get_varint64 data p1 = (b, p2)" by (cases "get_varint64 data p1")
  obtain c p3 where c: "get_varsigned64 data pos = (c, p3)" by (cases "get_varsigned64 data pos")
  show ?thesis
    using a b c delta_sum_Panic_iff
    by (cases a; cases b; cases c; cases lh; cases full) (simp_all add: decode_index_value_def)
qed

lemma decode_index_entry_Panic_iff:
  "decode_index_entry ro data ks lh pos = Panic \<longleftrightarrow> index_overflow ro data (ks, lh, pos)"
proof -
  obtain a p1 where a: "get_varint32 data pos = (a, p1)" by (cases "get_varint32 data pos")
  obtain b p2 where b: "get_varint32 data p1 = (b, p2)" by (cases "get_varint32 data p1")
  show ?thesis
    using a b
    by (cases a; cases b)
       (auto simp: decode_index_entry_def index_overflow_def index_delta_def get_range_def Let_def
          obind_eq_Panic_iff decode_index_value_Panic_iff)
qed

text \<open>The loop panics exactly when it comes to an entry whose sums overflow.\<close>

lemma index_loop_Panic_iff:
  "snd (index_loop f ro data st ks lh pos) = Panic \<longleftrightarrow>
     (\<exists>s. (index_step ro data)\<^sup>*\<^sup>* (ks, lh, pos) s \<and> index_overflow ro data s)"
proof (induction f ro data st ks lh pos rule: index_loop.induct)
  case (1 f ro data st ks lh pos)
  note loop = index_loop.simps[of f ro data st ks lh pos]
  have stuck: "(\<exists>s. (index_step ro data)\<^sup>*\<^sup>* (ks, lh, pos) s \<and> index_overflow ro data s) \<longleftrightarrow>
      decode_index_entry ro data ks lh pos = Panic"
    if none: "\<not> (pos < length data \<and> (\<exists>r. decode_index_entry ro data ks lh pos = Ok r))"
  proof -
    have "\<not> index_step ro data (ks, lh, pos) s" for s using none by (auto elim: index_stepE)
    then have "(index_step ro data)\<^sup>*\<^sup>* (ks, lh, pos) s \<longleftrightarrow> s = (ks, lh, pos)" for s
      by (auto elim: converse_rtranclpE)
    then show ?thesis by (simp add: decode_index_entry_Panic_iff)
  qed
  show ?case
  proof (cases "pos < length data")
    case False
    have "decode_index_entry ro data ks lh pos \<noteq> Panic"
      using get_varint32_end[OF False] by (auto simp: decode_index_entry_def split: prod.splits option.splits)
    with False stuck show ?thesis by (simp add: loop)
  next
    case True
    show ?thesis
    proof (cases "decode_index_entry ro data ks lh pos")
      case (Ok r)
      obtain k h p where r: "r = (k, h, p)" by (cases r)
      have step: "index_step ro data (ks, lh, pos) s \<longleftrightarrow> s = (k, Some h, p)" for s
        using True Ok r by (auto intro: index_step.intros elim: index_stepE)
      have rtr: "(index_step ro data)\<^sup>*\<^sup>* (ks, lh, pos) s \<longleftrightarrow>
          s = (ks, lh, pos) \<or> (index_step ro data)\<^sup>*\<^sup>* (k, Some h, p) s" for s
        using step by (auto elim: converse_rtranclpE intro: converse_rtranclp_into_rtranclp)
      have "\<not> index_overflow ro data (ks, lh, pos)"
        unfolding decode_index_entry_Panic_iff[symmetric] using Ok by simp
      then have "(\<exists>s. (index_step ro data)\<^sup>*\<^sup>* (ks, lh, pos) s \<and> index_overflow ro data s) \<longleftrightarrow>
          (\<exists>s. (index_step ro data)\<^sup>*\<^sup>* (k, Some h, p) s \<and> index_overflow ro data s)"
        unfolding rtr by blast
      with "1.IH"[OF True Ok r[symmetric] refl] True Ok r show ?thesis by (simp add: loop)
    qed (use True stuck in \<open>simp_all add: loop\<close>)
  qed
qed

definition index_walk_overflows :: "ParsedBlock \<Rightarrow> bool" where
  "index_walk_overflows b \<longleftrightarrow> (\<exists>data s. block_data b = Ok data \<and>
     (index_step (sort (map unat (restarts b))) data)\<^sup>*\<^sup>* ([], None, 0) s \<and>
     index_overflow (sort (map unat (restarts b))) data s)"

lemma index_walk_Panic_iff:
  assumes "parse_block raw = Ok b"
  shows "snd (for_each_index_entry b f st) = Panic \<longleftrightarrow> index_walk_overflows b"
proof -
  obtain data where "block_data b = Ok data" using parse_block_data[OF assms] by blast
  then show ?thesis by (simp add: for_each_index_entry_def index_walk_overflows_def index_loop_Panic_iff)
qed

lemma delta_after_last_offset:
  assumes "pre \<noteq> []"
  shows "decode_index_entry [0] (pre @ [1, 1, 98] @ varint (zigzag 0)) [97]
           (Some \<lparr>handle_offset = - 1, handle_size = 1\<rparr>) (length pre) = Panic"
proof -
  define d where "d = pre @ [1, 1, 98] @ varint (zigzag 0)"
  have one: "varint32 1 = [1]"
    by (simp add: put_varint32_def varint_short)
  have g: "get_varint32 d (length pre) = (Some 1, Suc (length pre))"
    "get_varint32 d (Suc (length pre)) = (Some 1, Suc (Suc (length pre)))"
    "\<exists>p. get_varsigned64 d (Suc (Suc (Suc (length pre)))) = (Some 0, p)"
    using get_varint32_varint[of pre 1 "[1, 98] @ varint (zigzag 0)"]
      get_varint32_varint[of "pre @ [1]" 1 "[98] @ varint (zigzag 0)"]
      get_varsigned64_zigzag[of "pre @ [1, 1, 98]" 0 "[]"]
    unfolding one d_def by simp_all
  have r: "get_range d (Suc (Suc (length pre))) (Suc (Suc (Suc (length pre)))) = Some [98]"
    unfolding d_def using get_range_mid[of _ "pre @ [1, 1]" _ "[98]" "varint (zigzag 0)"] by simp
  have a: "i64_add 1 0 = Ok 1" "u64_add (- 1) 1 = Panic"
    by (simp_all add: i64_add_def u64_add_def unsigned_minus_1_eq_mask mask_eq_exp_minus_1)
  show ?thesis
    unfolding d_def[symmetric] using assms g(3)
    by (auto simp: decode_index_entry_def g(1,2) r a decode_index_value_def)
qed

section \<open>Properties\<close>

text \<open>
  C40. The walk over a data block gives an error on corrupt bytes, but the walk over an index block may
  panic. On a block that parses it does so, whatever the callback, exactly when it reaches a
  delta-encoded entry such that the previous size plus the difference leaves the range of \<open>i64\<close>, or the
  end of the previous block with its trailer leaves that of \<open>u64\<close>; every other defect is an error.
\<close>

theorem index_walk_panics:
  assumes "parse_block raw = Ok b" and "block_data b = Ok data"
  shows "snd (for_each_index_entry b f st) = Panic \<longleftrightarrow>
    (\<exists>key_scratch prev pos delta.
       (index_step (sort (map unat (restarts b))) data)\<^sup>*\<^sup>* ([], None, 0) (key_scratch, Some prev, pos) \<and>
       index_delta (sort (map unat (restarts b))) data key_scratch pos = Some delta \<and> delta_overflows prev delta)"
  using assms by (auto simp: index_walk_Panic_iff index_walk_overflows_def index_overflow_def) blast+

text \<open>
  A block whose first handle lies at the top of the 64-bit range and whose second is stored as a
  difference.
\<close>

theorem index_walk_panics_witness:
  "let data = index_bytes 0 [97] None \<lparr>handle_offset = - 1, handle_size = 1\<rparr> @ [1, 1, 98] @ varint (zigzag 0);
       b = \<lparr>contents = data @ restart_trailer [0], restarts = [0]\<rparr>
   in snd (for_each_index_entry b (\<lambda>st k h. st @ [h]) []) = Panic"
proof -
  let ?h = "\<lparr>handle_offset = - 1, handle_size = 1\<rparr>"
  let ?pre = "index_bytes 0 [97] None ?h" and ?post = "[1, 1, 98] @ varint (zigzag 0)"
  let ?data = "?pre @ ?post"
  let ?b = "\<lparr>contents = ?data @ restart_trailer [0], restarts = [0]\<rparr>"
  have "decode_index_entry [0] ?data [] None 0 = Ok ([97], ?h, length ?pre)"
    using decode_index_bytes[of 0 "[]" None "[97]" ?h "[]" "[0]" ?post] by (simp add: index_entry_ok_def)
  then have "index_step [0] ?data ([], None, 0) ([97], Some ?h, length ?pre)"
    by (intro index_step.intros) simp_all
  moreover have "index_overflow [0] ?data ([97], Some ?h, length ?pre)"
    using delta_after_last_offset[of ?pre] index_bytes_nonempty[of 0 "[97]" None ?h]
    by (simp only: decode_index_entry_Panic_iff) simp
  moreover have "parse_block (?data @ restart_trailer [0]) = Ok ?b" "block_data ?b = Ok ?data"
    using parse_block_restarts[of "[0]" ?data] block_data_restarts[of ?data "[0]"] by simp_all
  ultimately show ?thesis
    using index_walk_panics[of "?data @ restart_trailer [0]" ?b ?data "\<lambda>st k h. st @ [h]" "[]"]
    by (auto simp: Let_def index_overflow_def)
qed

end
