(* ===== verification/Load_Panics.thy ===== *)
theory Load_Panics
  imports Load Index_Walk
begin

text \<open>
  When loading a whole file (\<open>load_arena_source\<close> of \<^verbatim>\<open>compaction/mod.rs\<close>) panics. The loader decodes blocks by
  handles that it reads from the file; \<open>load_reaches\<close> are the handles it comes to, each after
  everything before it has been decoded.
\<close>

section \<open>Blocks in memory\<close>

definition far_handle :: "BlockHandle \<Rightarrow> bool" where
  "far_handle h \<longleftrightarrow> 2 ^ 64 \<le> unat (handle_offset h) + unat (handle_size h) + BLOCK_TRAILER_SIZE"

definition block_panics :: "ext \<Rightarrow> bytes \<Rightarrow> Footer \<Rightarrow> BlockHandle \<Rightarrow> bool" where
  "block_panics X disk ft h \<longleftrightarrow> far_handle h \<or> codec_panics_at X disk ft h"

lemma decode_block_in_memory_Panic_iff: "decode_block_in_memory X disk ft h = Panic \<longleftrightarrow> block_panics X disk ft h"
proof (cases "far_handle h")
  case True
  then show ?thesis
    by (auto simp: decode_block_in_memory_def block_panics_def far_handle_def block_read_len_def usize_add_def Let_def)
next
  case False
  let ?len = "unat (handle_size h) + BLOCK_TRAILER_SIZE"
  have "\<not> ?len \<ge> 2 ^ 64" using False by (simp add: far_handle_def)
  then have dec: "decode_block_contents X raw h ct bcc = Panic \<longleftrightarrow> block_codec_panics X raw h ct bcc" for raw ct bcc
    using decode_block_Panic_iff by blast
  have fits: "unat (handle_offset h) + ?len \<le> length disk" if "codec_panics_at X disk ft h"
    using that block_codec_panics_in_file by (simp add: codec_panics_at_def)
  show ?thesis
    using False fits
    by (auto simp: decode_block_in_memory_def block_panics_def far_handle_def block_read_len_def usize_add_def Let_def
        obind_eq_Panic_iff ok_or_not_Panic ok_or_eq_Ok_iff get_range_def dec codec_panics_at_def block_bytes_def add.assoc
        split: if_splits)
qed

lemma walked_Panic_iff: "walked w = Panic \<longleftrightarrow> snd w = Panic"
  by (cases w) (auto simp: walked_def obind_eq_Panic_iff)

lemma load_blocks_Panic_iff:
  "load_blocks X disk ft b hs = Panic \<longleftrightarrow>
     (\<exists>i < length hs. (\<exists>b'. load_blocks X disk ft b (take i hs) = Ok b') \<and> block_panics X disk ft (hs ! i))"
proof (induction hs arbitrary: b)
  case (Cons h hs)
  let ?one = "\<lambda>b'. \<exists>raw p. decode_block_in_memory X disk ft h = Ok raw \<and> parse_block raw = Ok p \<and>
      walked (for_each_entry p arena_builder_push b) = Ok b'"
  have panic: "load_blocks X disk ft b (h # hs) = Panic \<longleftrightarrow>
      block_panics X disk ft h \<or> (\<exists>b'. ?one b' \<and> load_blocks X disk ft b' hs = Panic)"
    by (auto simp: obind_eq_Panic_iff decode_block_in_memory_Panic_iff walked_Panic_iff parse_block_not_Panic
        dest: for_each_entry_not_Panic)
  have more_ok: "load_blocks X disk ft b (take (Suc i) (h # hs)) = Ok c \<longleftrightarrow>
      (\<exists>b'. ?one b' \<and> load_blocks X disk ft b' (take i hs) = Ok c)" for i c
    by (auto simp: obind_eq_Ok_iff)
  have "\<exists>b'. load_blocks X disk ft b (take 0 (h # hs)) = Ok b'" by simp
  then show ?case
    unfolding panic Cons.IH length_Cons Ex_less_Suc2 more_ok nth_Cons_0 nth_Cons_Suc by blast
qed simp

section \<open>The handles of a file\<close>

definition load_pick :: "Footer \<Rightarrow> ParsedBlock \<Rightarrow> BlockHandle outcome" where
  "load_pick ft metaindex =
     (case index_handle ft of
        Some h \<Rightarrow> Ok h
      | None \<Rightarrow> obind (find_meta_handle metaindex INDEX_BLOCK_NAME) (\<lambda>found.
          ok_or found (Msg ''index block handle missing from metaindex'')))"

definition load_index_handle :: "ext \<Rightarrow> bytes \<Rightarrow> Footer \<Rightarrow> BlockHandle outcome" where
  "load_index_handle X disk ft =
     obind (decode_block_in_memory X disk ft (metaindex_handle ft)) (\<lambda>raw.
     obind (parse_block raw) (load_pick ft))"

definition load_index :: "ext \<Rightarrow> bytes \<Rightarrow> Footer \<Rightarrow> ParsedBlock outcome" where
  "load_index X disk ft =
     obind (load_index_handle X disk ft) (\<lambda>h.
     obind (decode_block_in_memory X disk ft h) parse_block)"

abbreviation index_handles :: "ParsedBlock \<Rightarrow> BlockHandle list outcome" where
  "index_handles index \<equiv> walked (for_each_index_entry index (\<lambda>hs key h. hs @ [h]) [])"

inductive load_reaches :: "ext \<Rightarrow> bytes \<Rightarrow> Footer \<Rightarrow> BlockHandle \<Rightarrow> bool" for X disk ft where
  reach_metaindex: "load_reaches X disk ft (metaindex_handle ft)"
| reach_index: "load_index_handle X disk ft = Ok h \<Longrightarrow> load_reaches X disk ft h"
| reach_data: "load_index X disk ft = Ok index \<Longrightarrow> index_handles index = Ok hs \<Longrightarrow> i < length hs \<Longrightarrow>
     load_blocks X disk ft arena_builder_new (take i hs) = Ok b \<Longrightarrow> load_reaches X disk ft (hs ! i)"

inductive_simps load_reaches_iff: "load_reaches X disk ft h"

lemma load_pick_not_Panic: "parse_block raw = Ok metaindex \<Longrightarrow> load_pick ft metaindex \<noteq> Panic"
  using find_meta_handle_not_Panic
  by (auto simp: load_pick_def find_meta_handle_eq obind_eq_Panic_iff ok_or_not_Panic split: option.splits)

lemma load_index_Panic_iff:
  "load_index X disk ft = Panic \<longleftrightarrow>
     block_panics X disk ft (metaindex_handle ft) \<or>
     (\<exists>h. load_index_handle X disk ft = Ok h \<and> block_panics X disk ft h)"
proof -
  have "load_index_handle X disk ft = Panic \<longleftrightarrow> block_panics X disk ft (metaindex_handle ft)"
    using load_pick_not_Panic
    by (auto simp: load_index_handle_def obind_eq_Panic_iff decode_block_in_memory_Panic_iff parse_block_not_Panic)
  then show ?thesis
    by (auto simp: load_index_def obind_eq_Panic_iff decode_block_in_memory_Panic_iff parse_block_not_Panic)
qed

lemma load_index_parsed: "load_index X disk ft = Ok index \<Longrightarrow> \<exists>raw. parse_block raw = Ok index"
  by (auto simp: load_index_def obind_eq_Ok_iff)

text \<open>The loader, with its steps up to the index block named.\<close>

lemma load_arena_source_index:
  assumes len: "length disk < 2 ^ 63" and tail: "FOOTER_TAIL_LEN \<le> length disk"
  shows "load_arena_source X (blocking_file_reader disk) =
    obind (decode_footer X (drop (length disk - FOOTER_TAIL_LEN) disk) (of_nat (length disk))) (\<lambda>ft.
    obind (load_index X disk ft) (\<lambda>index.
    obind (index_handles index) (\<lambda>hs.
    obind (load_blocks X disk ft arena_builder_new hs) (\<lambda>b. Ok (arena_builder_build b)))))"
proof -
  have size: "unat (of_nat (length disk) :: u64) = length disk" using len by (simp add: unat_of_nat_u64)
  have read: "read_at (blocking_file_reader disk) 0 (length disk) = Ok (Some disk)"
    using bfr.read_law[of 0 "length disk" disk] len by simp
  show ?thesis
    using size read tail
    by (simp add: load_arena_source_def bfr.size_law load_index_def load_index_handle_def load_pick_def
        obind_assoc usize_sub_def slice_range)
qed

section \<open>Properties\<close>

text \<open>
  C22. The files that loading panics on, whatever their bytes, the hash functions and the decompressors:
  those too short for a footer, where the start of the tail underflows; those whose footer announces a
  metaindex block that does not fit in front of it; those in which the loader comes to a handle whose
  end is beyond the 64-bit range, or to a block that passes its checks and whose decompressor
  panics, for instance on the size that the block announces for its contents; and those with an index
  block whose delta-encoded handles overflow. Every other file loads or is refused with an error.
\<close>

theorem load_arena_source_panics:
  fixes disk :: bytes
  assumes "length disk < 2 ^ 63"
  defines "tail \<equiv> drop (length disk - FOOTER_TAIL_LEN) disk" and "fsize \<equiv> of_nat (length disk) :: u64"
  shows "load_arena_source X (blocking_file_reader disk) = Panic \<longleftrightarrow>
    length disk < FOOTER_TAIL_LEN \<or> footer_overflows X tail fsize \<or>
    (\<exists>ft. decode_footer X tail fsize = Ok ft \<and>
       ((\<exists>h. load_reaches X disk ft h \<and> (far_handle h \<or> codec_panics_at X disk ft h)) \<or>
        (\<exists>index. load_index X disk ft = Ok index \<and> index_walk_overflows index)))"
proof (cases "FOOTER_TAIL_LEN \<le> length disk")
  case True
  have short: "length tail \<le> FOOTER_TAIL_LEN" using True by (simp add: tail_def)
  have walk: "index_handles index = Panic \<longleftrightarrow> index_walk_overflows index"
    if "load_index X disk ft = Ok index" for ft index
    using load_index_parsed[OF that] by (auto simp: walked_Panic_iff index_walk_Panic_iff)
  have "obind (load_index X disk ft) (\<lambda>index. obind (index_handles index) (\<lambda>hs.
      obind (load_blocks X disk ft arena_builder_new hs) (\<lambda>b. Ok (arena_builder_build b)))) = Panic \<longleftrightarrow>
      (\<exists>h. load_reaches X disk ft h \<and> block_panics X disk ft h) \<or>
      (\<exists>index. load_index X disk ft = Ok index \<and> index_walk_overflows index)" for ft
    unfolding obind_eq_Panic_iff load_index_Panic_iff load_blocks_Panic_iff load_reaches_iff
    using walk by (simp only: outcome.distinct simp_thms) blast
  then show ?thesis
    using True unfolding load_arena_source_index[OF assms(1) True] tail_def[symmetric] fsize_def[symmetric]
    by (simp only: obind_eq_Panic_iff[of "decode_footer _ _ _"] decode_footer_Panic_iff[OF short] block_panics_def) auto
next
  case False
  then show ?thesis using load_short[of disk X] by simp
qed

theorem load_arena_source_panics_witness:
  "load_arena_source allocating_ext (blocking_file_reader [1, 2, 3]) = Panic \<and>
   load_arena_source allocating_ext (blocking_file_reader codec_panic_file) = Panic"
proof
  show "load_arena_source allocating_ext (blocking_file_reader [1, 2, 3]) = Panic"
    using load_arena_source_panics[of "[1, 2, 3]" allocating_ext]
    by (simp add: FOOTER_TAIL_LEN_def NEW_VERSIONS_ENCODED_LEN_def)
  define ft where "ft = \<lparr>table_magic_number = BLOCK_BASED_TABLE_MAGIC, format_version = 7, checksum_type = NoChecksum,
      metaindex_handle = \<lparr>handle_offset = 0, handle_size = 10\<rparr>, index_handle = None,
      block_trailer_size = 5, base_context_checksum = 0\<rparr>"
  have "load_reaches allocating_ext codec_panic_file ft (metaindex_handle ft)" by (rule reach_metaindex)
  moreover have "codec_panics_at allocating_ext codec_panic_file ft (metaindex_handle ft)"
    by (simp add: ft_def codec_panic_file_panics)
  ultimately show "load_arena_source allocating_ext (blocking_file_reader codec_panic_file) = Panic"
    using load_arena_source_panics[of codec_panic_file allocating_ext]
      codec_panic_file_footer[of allocating_ext, folded ft_def]
    unfolding codec_panic_file_tail(2) by (auto simp: codec_panic_file_tail(1))
qed

end
