(* ===== verification/Replay_Cost.thy ===== *)
theory Replay_Cost
  imports Heap_Merger
begin

text \<open>
  The cost that \<^verbatim>\<open>merge/merger.rs\<close> states for the loser tree: to advance, the merger replays the
  matches on one path from a leaf to the root, one comparison for each node, and writes to no other
  node. The comparisons are counted by running the definitions of the code with \<open>logged_less\<close>, a
  \<open>less\<close> that appends the two leaves of each call to a log. \<open>replay_match\<close> is the match at one
  node; the loop of \<open>replay_from_leaf\<close>, logged or not, is shown to be these matches in sequence along
  \<open>replay_path\<close>, the nodes from the parent of the leaf up to the root. \<open>lt_reachable\<close> holds of the
  states the merger passes through.
\<close>

section \<open>The path of a replay\<close>

definition logged_less :: "comparator \<Rightarrow> 's source_ops \<Rightarrow> ('s, (nat \<times> nat) list) less_op" where
  "logged_less C S sources log a b = obind (lt_less C S sources a b) (\<lambda>lt. Ok (lt, log @ [(a, b)]))"

definition replay_match_by ::
    "('s, 'c) less_op \<Rightarrow> 's list \<Rightarrow> nat \<Rightarrow> nat list \<times> nat \<times> 'c \<Rightarrow> (nat list \<times> nat \<times> 'c) outcome" where
  "replay_match_by lt_op sources node = (\<lambda>(t, contender, c).
     obind (vec_get t node) (\<lambda>loser_here.
     obind (lt_op sources c contender loser_here) (\<lambda>(lt, c').
     if \<not> lt then obind (vec_set t node contender) (\<lambda>t'. Ok (t', loser_here, c'))
     else Ok (t, contender, c'))))"

definition replay_match ::
    "comparator \<Rightarrow> 's source_ops \<Rightarrow> 's list \<Rightarrow> nat \<Rightarrow> nat list \<times> nat \<Rightarrow> (nat list \<times> nat) outcome" where
  "replay_match C S sources node = (\<lambda>(t, contender).
     obind (vec_get t node) (\<lambda>loser_here.
     obind (lt_less C S sources contender loser_here) (\<lambda>lt.
     if \<not> lt then obind (vec_set t node contender) (\<lambda>t'. Ok (t', loser_here))
     else Ok (t, contender))))"

fun replay_path :: "nat \<Rightarrow> nat list" where
  "replay_path node = (if node = 0 then [] else node # replay_path (node div 2))"

declare replay_path.simps [simp del]

primrec in_sequence :: "('a \<Rightarrow> 'b \<Rightarrow> 'b outcome) \<Rightarrow> 'a list \<Rightarrow> 'b \<Rightarrow> 'b outcome" where
  "in_sequence step [] st = Ok st"
| "in_sequence step (x # xs) st = obind (step x st) (in_sequence step xs)"

inductive lt_reachable :: "comparator \<Rightarrow> 's source_ops \<Rightarrow> 's list \<Rightarrow> 's LoserTreeMerger \<Rightarrow> bool"
  for C S sources where
  lt_started: "loser_tree_new C S sources = Ok m \<Longrightarrow> lt_reachable C S sources m"
| lt_advanced: "lt_reachable C S sources m \<Longrightarrow>
     loser_tree_step C S (\<lambda>_ _ _. ()) () m = Ok (Some ((), m')) \<Longrightarrow> lt_reachable C S sources m'"

lemma replay_path_0 [simp]: "replay_path 0 = []"
  by (simp add: replay_path.simps)

lemma replay_path_pos: "0 < node \<Longrightarrow> replay_path node = node # replay_path (node div 2)"
  by (simp add: replay_path.simps[of node])

lemma replay_loop_by_path:
  assumes "0 < node \<or> w = contender"
  shows "replay_loop_by lt_op sources c w t node contender =
           in_sequence (replay_match_by lt_op sources) (replay_path node) (t, contender, c)"
  using assms
proof (induction node arbitrary: t contender c rule: less_induct)
  case (less node)
  show ?case
  proof (cases "node \<le> 1")
    case True
    then have "node = 0 \<or> node = 1" by auto
    then show ?thesis
      using less.prems
      by (auto simp: replay_loop_by.simps[of _ _ _ _ _ 0] replay_loop_by.simps[of _ _ _ _ _ "Suc 0"]
          replay_path_pos replay_match_by_def obind_assoc intro!: obind_cong split: prod.splits)
  next
    case False
    then have half: "node div 2 < node" "0 < node div 2" by auto
    show ?thesis
      using False less.IH[OF half(1)] half(2)
      by (auto simp: replay_loop_by.simps[of lt_op sources c w t node] replay_path_pos replay_match_by_def
          obind_assoc intro!: obind_cong split: prod.splits)
  qed
qed

lemma replay_match_logged:
  assumes "replay_match_by (plain_less C S) sources node (t, contender, ()) = Ok (t1, c1, ())"
  shows "replay_match C S sources node (t, contender) = Ok (t1, c1) \<and>
    replay_match_by (logged_less C S) sources node (t, contender, log) = Ok (t1, c1, log @ [(contender, t ! node)])"
proof -
  from assms obtain lt where get: "vec_get t node = Ok (t ! node)"
      and lt: "lt_less C S sources contender (t ! node) = Ok lt"
    by (auto simp: replay_match_by_def plain_less_def vec_get_def split: if_splits)
  show ?thesis
    using assms get lt
    by (cases lt) (auto simp: replay_match_def replay_match_by_def plain_less_def logged_less_def)
qed

text \<open>A sequence of matches, run with the log, makes the same moves and logs one call for each node.\<close>

lemma in_sequence_logged:
  assumes "in_sequence (replay_match_by (plain_less C S) sources) path (t, contender, ()) = Ok (t', w', ())"
  shows "in_sequence (replay_match C S sources) path (t, contender) = Ok (t', w') \<and>
    (\<exists>calls. length calls = length path \<and>
       in_sequence (replay_match_by (logged_less C S) sources) path (t, contender, log) = Ok (t', w', log @ calls))"
  using assms
proof (induction path arbitrary: t contender log)
  case (Cons node path)
  then obtain t1 c1 where
      first: "replay_match_by (plain_less C S) sources node (t, contender, ()) = Ok (t1, c1, ())"
      and rest: "in_sequence (replay_match_by (plain_less C S) sources) path (t1, c1, ()) = Ok (t', w', ())"
    by (auto simp del: split_paired_All split_paired_Ex)
  let ?log = "log @ [(contender, t ! node)]"
  note step = replay_match_logged[OF first, of log]
  from Cons.IH[OF rest, of ?log] obtain calls where
      "in_sequence (replay_match C S sources) path (t1, c1) = Ok (t', w')" "length calls = length path"
      "in_sequence (replay_match_by (logged_less C S) sources) path (t1, c1, ?log) = Ok (t', w', ?log @ calls)"
    by (elim conjE exE)
  then show ?case using step by (intro conjI exI[of _ "(contender, t ! node) # calls"]) simp_all
qed simp

lemma replay_path_range: "n \<in> set (replay_path node) \<Longrightarrow> 0 < n \<and> n \<le> node"
proof (induction node rule: less_induct)
  case (less node)
  show ?case
  proof (cases "node = 0")
    case True
    then show ?thesis using less.prems by simp
  next
    case False
    then have "n = node \<or> n \<in> set (replay_path (node div 2))" using less.prems by (simp add: replay_path_pos)
    then show ?thesis using False less.IH[of "node div 2"] by auto
  qed
qed

lemma replay_path_distinct: "distinct (replay_path node)"
proof (induction node rule: less_induct)
  case (less node)
  show ?case
  proof (cases "node = 0")
    case False
    then have "node \<notin> set (replay_path (node div 2))" using replay_path_range[of node "node div 2"] by auto
    then show ?thesis using False less[of "node div 2"] by (simp add: replay_path_pos)
  qed simp
qed

lemma length_replay_path:
  assumes "2 ^ d \<le> 2 * node + 1" and "node < 2 ^ d"
  shows "length (replay_path node) = d"
  using assms
proof (induction d arbitrary: node)
  case 0
  then show ?case by simp
next
  case (Suc d)
  have "1 \<le> (2::nat) ^ d" by (rule one_le_power) simp
  then have "0 < node" using Suc.prems(1) unfolding power_Suc by linarith
  moreover have "length (replay_path (node div 2)) = d"
    using Suc.prems by (intro Suc.IH) auto
  ultimately show ?case by (simp add: replay_path_pos)
qed

lemma next_power_of_two_bounds:
  assumes "1 \<le> n"
  shows "\<exists>d. next_power_of_two n = 2 ^ d \<and> n \<le> 2 ^ d \<and> 2 ^ d < 2 * n"
  using assms
proof (induction n rule: less_induct)
  case (less n)
  show ?case
  proof (cases "n \<le> 1")
    case True
    then show ?thesis using less.prems by (auto simp: next_power_of_two.simps intro!: exI[of _ 0])
  next
    case False
    then have "(n + 1) div 2 < n" "1 \<le> (n + 1) div 2" by presburger+
    with less.IH obtain d where "next_power_of_two ((n + 1) div 2) = 2 ^ d" "(n + 1) div 2 \<le> 2 ^ d"
        "2 ^ d < 2 * ((n + 1) div 2)"
      by blast
    moreover have "2 ^ d < n"
    proof (cases d)
      case (Suc e)
      then have "2 ^ d = 2 * (2::nat) ^ e" by simp
      with \<open>2 ^ d < 2 * ((n + 1) div 2)\<close> show ?thesis by presburger
    qed (use False in simp)
    ultimately show ?thesis using False
      by (intro exI[of _ "Suc d"]) (auto simp: next_power_of_two.simps[of n])
  qed
qed

lemma replay_match_frame:
  assumes "replay_match C S sources node (t, c) = Ok (t', c')"
  shows "length t' = length t \<and> (\<forall>i. i \<noteq> node \<longrightarrow> t' ! i = t ! i)"
  using assms by (auto simp: replay_match_def vec_set_def split: if_splits)

lemma in_sequence_frame:
  assumes "in_sequence (replay_match C S sources) path (t, c) = Ok (t', c')"
  shows "length t' = length t \<and> (\<forall>i. i \<notin> set path \<longrightarrow> t' ! i = t ! i)"
  using assms
proof (induction path arbitrary: t c)
  case (Cons node path)
  then obtain t1 c1 where "replay_match C S sources node (t, c) = Ok (t1, c1)"
      "in_sequence (replay_match C S sources) path (t1, c1) = Ok (t', c')"
    by auto
  then show ?case using Cons.IH[of t1 c1] replay_match_frame[of C S sources node t c t1 c1] by simp
qed simp

section \<open>The states of the merger\<close>

lemma loser_tree_stepD:
  assumes "loser_tree_step C S f st m = Ok (Some (st', m'))"
  shows "winner m < length (lt_sources m) \<and>
    lt_sources m' = (lt_sources m)[winner m := advance S (lt_sources m ! winner m)] \<and>
    k_padded m' = k_padded m \<and>
    in_sequence (replay_match C S (lt_sources m')) (replay_path ((winner m + k_padded m) div 2))
      (tree m, winner m) = Ok (tree m', winner m') \<and>
    (\<exists>calls. length calls = length (replay_path ((winner m + k_padded m) div 2)) \<and>
       loser_tree_step_by (logged_less C S) S f [] st m = Ok (Some (st', m'), calls))"
proof -
  let ?path = "replay_path ((winner m + k_padded m) div 2)"
  let ?ss = "(lt_sources m)[winner m := advance S (lt_sources m ! winner m)]"
  from assms obtain k v t' w' where w: "winner m < length (lt_sources m)"
      and p: "peek S (lt_sources m ! winner m) = Ok (Some (k, v))"
      and loop: "in_sequence (replay_match_by (plain_less C S) ?ss) ?path (tree m, winner m, ()) = Ok (t', w', ())"
      and m': "m' = m\<lparr>lt_sources := ?ss, tree := t', winner := w'\<rparr>" and st: "st' = f st k v"
    by (auto simp: loser_tree_step_def loser_tree_step_by_def Let_def replay_from_leaf_by_def replay_loop_by_path
        split: if_splits option.splits)
  from in_sequence_logged[OF loop, of "[]"] obtain calls where
      plain: "in_sequence (replay_match C S ?ss) ?path (tree m, winner m) = Ok (t', w')"
      and calls: "length calls = length ?path"
        "in_sequence (replay_match_by (logged_less C S) ?ss) ?path (tree m, winner m, []) = Ok (t', w', calls)"
    by auto
  have "loser_tree_step_by (logged_less C S) S f [] st m = Ok (Some (st', m'), calls)"
    using w p calls(2) m' st
    by (simp add: loser_tree_step_by_def Let_def replay_from_leaf_by_def replay_loop_by_path)
  with w plain calls(1) m' show ?thesis by simp
qed

lemma build_subtree_length:
  "build_subtree C S sources kp t node = Ok (w, t') \<Longrightarrow> length t' = length t"
proof (induction C S sources kp t node arbitrary: w t' rule: build_subtree.induct)
  case (1 C S sources kp t node)
  show ?case
  proof (cases "node \<ge> kp")
    case True
    then show ?thesis using "1.prems" by (simp add: build_subtree.simps[of C S sources kp t node])
  next
    case False
    with "1.prems" obtain l t1 r t2 x where n: "node \<noteq> 0"
        and sub: "build_subtree C S sources kp t (2 * node) = Ok (l, t1)"
          "build_subtree C S sources kp t1 (2 * node + 1) = Ok (r, t2)"
        and t': "vec_set t2 node x = Ok t'"
      by (auto simp: build_subtree.simps[of C S sources kp t node] Let_def split: if_splits)
    have "length t1 = length t" by (rule "1.IH"(1)[OF False n sub(1)])
    moreover have "length t2 = length t1" by (rule "1.IH"(2)[OF False n sub(1) refl sub(2)])
    ultimately show ?thesis using t' by (auto simp: vec_set_def split: if_splits)
  qed
qed

lemma loser_tree_newD:
  assumes "loser_tree_new C S sources = Ok m"
  shows "lt_sources m = sources \<and> k_padded m = next_power_of_two (max (length sources) 1) \<and>
         length (tree m) = k_padded m"
  using assms by (auto simp: loser_tree_new_def lt_build_def Let_def dest: build_subtree_length)

lemma lt_reachable_shape:
  assumes "lt_reachable C S sources m"
  shows "length (lt_sources m) = length sources \<and>
         k_padded m = next_power_of_two (max (length sources) 1) \<and> length (tree m) = k_padded m"
  using assms
proof (induction rule: lt_reachable.induct)
  case (lt_started m)
  then show ?case using loser_tree_newD by blast
next
  case (lt_advanced m m')
  then show ?case using loser_tree_stepD[OF lt_advanced.hyps(2)] in_sequence_frame by force
qed

section \<open>Properties\<close>

text \<open>
  C11. The cost of the loser tree, for any comparator and any sources, sorted or not: in every state
  the merger reaches from \<open>k\<close> sources, a turn of \<open>run\<close> that emits an entry calls \<open>less\<close> exactly \<open>d\<close>
  times, where \<open>k \<le> 2 ^ d < 2 * k\<close>, so \<open>d\<close> is \<open>k\<close>'s logarithm rounded up: run with the \<open>less\<close>
  that logs its calls, the turn ends in the same state with \<open>d\<close> calls in the log. They are the matches
  on the path from the winner's leaf to the root, bottom up, one for each node and all against the
  advanced sources; no node of the path is visited twice, and no other node of the tree changes.
\<close>

theorem replay_logarithmic:
  assumes "lt_reachable C S sources m" and "loser_tree_step C S f st m = Ok (Some (st', m'))"
  shows "\<exists>path calls. path = replay_path ((winner m + k_padded m) div 2) \<and>
    loser_tree_step_by (logged_less C S) S f [] st m = Ok (Some (st', m'), calls) \<and>
    length sources \<le> 2 ^ length calls \<and> 2 ^ length calls < 2 * length sources \<and>
    length calls = length path \<and>
    in_sequence (replay_match C S (lt_sources m')) path (tree m, winner m) = Ok (tree m', winner m') \<and>
    distinct path \<and> set path \<subseteq> {1 ..< length (tree m)} \<and>
    length (tree m') = length (tree m) \<and> (\<forall>i. i \<notin> set path \<longrightarrow> tree m' ! i = tree m ! i)"
proof -
  note step = loser_tree_stepD[OF assms(2)] and shape = lt_reachable_shape[OF assms(1)]
  let ?node = "(winner m + k_padded m) div 2"
  have k: "1 \<le> length sources" using step shape by linarith
  then obtain d where d: "k_padded m = 2 ^ d" "length sources \<le> 2 ^ d" "2 ^ d < 2 * length sources"
    using next_power_of_two_bounds[OF k] shape by (auto simp: max_absorb1)
  have w: "winner m < 2 ^ d" using step shape d(2) by linarith
  then have node: "2 ^ d \<le> 2 * ?node + 1" "?node < 2 ^ d" using d(1) by auto
  then have "length (replay_path ?node) = d" by (rule length_replay_path)
  moreover have "set (replay_path ?node) \<subseteq> {1 ..< length (tree m)}"
    using replay_path_range[of _ ?node] node(2) shape d(1) by fastforce
  ultimately show ?thesis
    using d step replay_path_distinct in_sequence_frame[of C S "lt_sources m'"] by fastforce
qed

theorem replay_logarithmic_witness:
  "\<exists>m m' calls. lt_reachable InternalKeyComparator vec_source_ops
       [vec_source_new [([97, 1, 5, 0, 0, 0, 0, 0, 0], [1])], vec_source_new [([98, 1, 0, 0, 0, 0, 0, 0, 0], [])]] m \<and>
     loser_tree_step InternalKeyComparator vec_source_ops (\<lambda>n _ _. Suc n) 0 m = Ok (Some (1, m')) \<and>
     loser_tree_step_by (logged_less InternalKeyComparator vec_source_ops) vec_source_ops (\<lambda>n _ _. Suc n) [] 0 m =
       Ok (Some (1, m'), calls) \<and> length calls = 1"
proof -
  define ss where "ss = [vec_source_new [([97, 1, 5, 0, 0, 0, 0, 0, 0], [1])],
    vec_source_new [([98, 1, 0, 0, 0, 0, 0, 0, 0], [])]]"
  define ss' where "ss' = ss[0 := vec_source_advance (ss ! 0)]"
  define m where "m = \<lparr>lt_sources = ss, tree = [NONE_YET, 1], winner = 0, k_padded = 2\<rparr>"
  define m' where "m' = \<lparr>lt_sources = ss', tree = [NONE_YET, 0], winner = 1, k_padded = 2\<rparr>"
  have less: "lt_less InternalKeyComparator vec_source_ops ss 0 1 = Ok True"
      "lt_less InternalKeyComparator vec_source_ops ss' 0 1 = Ok False"
    unfolding ss'_def ss_def by code_simp+
  have len: "length ss = 2" by (simp add: ss_def)
  have pk: "peek vec_source_ops (ss ! 0) = Ok (Some ([97, 1, 5, 0, 0, 0, 0, 0, 0], [1]))"
    unfolding ss_def by code_simp
  have np: "next_power_of_two 2 = 2" by (simp add: next_power_of_two.simps[of 2] next_power_of_two.simps[of "Suc 0"])
  have "build_subtree InternalKeyComparator vec_source_ops ss 2 [NONE_YET, NONE_YET] 1 = Ok (0, [NONE_YET, 1])"
    using less(1) by (simp add: build_subtree.simps[of _ _ _ _ _ "Suc 0"] build_subtree.simps[of _ _ _ _ _ 2]
        build_subtree.simps[of _ _ _ _ _ 3] vec_set_def)
  then have "loser_tree_new InternalKeyComparator vec_source_ops ss = Ok m"
    using len np by (simp add: loser_tree_new_def lt_build_def m_def numeral_2_eq_2)
  then have r: "lt_reachable InternalKeyComparator vec_source_ops ss m" by (rule lt_started)
  have s: "loser_tree_step InternalKeyComparator vec_source_ops (\<lambda>n _ _. Suc n) 0 m = Ok (Some (1, m'))"
    using less len pk by (simp add: loser_tree_step_eq replay_from_leaf_eq replay_loop_simps[of _ _ _ _ _ "Suc 0"] m_def m'_def
        ss'_def vec_source_ops_def vec_set_def vec_get_def)
  have one: "n = 1" if "length ss \<le> 2 ^ n" "2 ^ n < 2 * length ss" for n :: nat
    using that len by (cases n; cases "n - 1") auto
  with r s replay_logarithmic[OF r s] show ?thesis unfolding ss_def[symmetric] by blast
qed

end
