(* ===== verification/Fuzzer.thy ===== *)
theory Fuzzer
  imports Compaction "HOL-Library.Product_Lexorder"
begin

text \<open>
  The differential tester (\<^verbatim>\<open>fuzzer/src/lib.rs\<close>): random sorted runs, the compactor run on them with its
  output decoded by the pure decoders, to be compared with the reference implementation. The random
  generator is a parameter: a record of the operations of \<open>rand::Rng\<close> the code calls, on a state of its
  own; \<open>rng_ok\<close> is what the crate documents of them. An \<open>expect\<close> on a \<open>Result\<close> turns an error into a
  panic.
\<close>

section \<open>Model\<close>

record 'r rng =
  gen_range :: "'r \<Rightarrow> nat \<Rightarrow> nat \<Rightarrow> nat \<times> 'r"
  gen_range_inclusive :: "'r \<Rightarrow> nat \<Rightarrow> nat \<Rightarrow> nat \<times> 'r"
  gen_bool_tenth :: "'r \<Rightarrow> bool \<times> 'r"

definition rng_ok :: "'r rng \<Rightarrow> bool" where
  "rng_ok R \<longleftrightarrow>
     (\<forall>r lo hi. lo < hi \<longrightarrow> lo \<le> fst (gen_range R r lo hi) \<and> fst (gen_range R r lo hi) < hi) \<and>
     (\<forall>r lo hi. lo \<le> hi \<longrightarrow> lo \<le> fst (gen_range_inclusive R r lo hi) \<and> fst (gen_range_inclusive R r lo hi) \<le> hi)"

text \<open>Sampling from an empty range panics.\<close>

definition sample_range :: "'r rng \<Rightarrow> 'r \<Rightarrow> nat \<Rightarrow> nat \<Rightarrow> (nat \<times> 'r) outcome" where
  "sample_range R r lo hi = (if lo < hi then Ok (gen_range R r lo hi) else Panic)"

definition expect_ok :: "'a outcome \<Rightarrow> 'a outcome" where
  "expect_ok m = (case m of Ok x \<Rightarrow> Ok x | Err _ \<Rightarrow> Panic | Panic \<Rightarrow> Panic)"

definition TYPE_VALUE :: u8 where
  "TYPE_VALUE = 1"

definition TYPE_DELETION :: u8 where
  "TYPE_DELETION = 0"

text \<open>The formats \<open>{}\<close> and \<open>{:06}\<close> of a number.\<close>

fun decimal :: "nat \<Rightarrow> bytes" where
  "decimal n = (if n < 10 then [of_nat (48 + n)] else decimal (n div 10) @ [of_nat (48 + n mod 10)])"

declare decimal.simps [simp del]

definition format_user_key :: "nat \<Rightarrow> bytes" where
  "format_user_key i = as_bytes ''key'' @ replicate (6 - length (decimal i)) 48 @ decimal i"

definition format_value :: "nat \<Rightarrow> nat \<Rightarrow> bytes" where
  "format_value i seq = as_bytes ''value_'' @ decimal i @ as_bytes ''_'' @ decimal seq"

definition push_source :: "entry list list \<Rightarrow> nat \<Rightarrow> entry \<Rightarrow> entry list list outcome" where
  "push_source per_source src e = obind (vec_get per_source src) (\<lambda>l. vec_set per_source src (l @ [e]))"

fun generate_versions ::
    "'r rng \<Rightarrow> nat \<Rightarrow> nat \<Rightarrow> nat \<Rightarrow> nat list \<Rightarrow> 'r \<Rightarrow> entry list list \<Rightarrow> (entry list list \<times> 'r) outcome" where
  "generate_versions R num_sources i nvers [] r per_source = Ok (per_source, r)"
| "generate_versions R num_sources i nvers (v # vs) r per_source =
     (let seq = nvers - v;
          (ty, r1) = (if v = 0 then
                        (let (tombstone, r') = gen_bool_tenth R r
                         in (if tombstone then TYPE_DELETION else TYPE_VALUE, r'))
                      else (TYPE_VALUE, r))
      in obind (sample_range R r1 0 num_sources) (\<lambda>(src, r2).
         obind (push_source per_source src
                  (make_internal_key (format_user_key i) (of_nat seq) ty, format_value i seq)) (\<lambda>per_source'.
         generate_versions R num_sources i nvers vs r2 per_source')))"

fun generate_keys ::
    "'r rng \<Rightarrow> nat \<Rightarrow> nat list \<Rightarrow> 'r \<Rightarrow> entry list list \<Rightarrow> (entry list list \<times> 'r) outcome" where
  "generate_keys R num_sources [] r per_source = Ok (per_source, r)"
| "generate_keys R num_sources (i # is) r per_source =
     (let (nvers, r1) = gen_range_inclusive R r 1 3
      in obind (generate_versions R num_sources i nvers [0..<nvers] r1 per_source) (\<lambda>(per_source', r2).
         generate_keys R num_sources is r2 per_source'))"

text \<open>\<open>slice::sort_by\<close>: the stable sort by a comparator.\<close>

fun insert_by :: "('a \<Rightarrow> 'a \<Rightarrow> ordering outcome) \<Rightarrow> 'a \<Rightarrow> 'a list \<Rightarrow> 'a list outcome" where
  "insert_by cmp x [] = Ok [x]"
| "insert_by cmp x (y # ys) =
     obind (cmp x y) (\<lambda>c.
     if c = Greater then obind (insert_by cmp x ys) (\<lambda>zs. Ok (y # zs)) else Ok (x # y # ys))"

fun sort_by :: "('a \<Rightarrow> 'a \<Rightarrow> ordering outcome) \<Rightarrow> 'a list \<Rightarrow> 'a list outcome" where
  "sort_by cmp [] = Ok []"
| "sort_by cmp (x # xs) = obind (sort_by cmp xs) (insert_by cmp x)"

definition generate_sources :: "'r rng \<Rightarrow> 'r \<Rightarrow> nat \<Rightarrow> nat \<Rightarrow> (entry list list \<times> 'r) outcome" where
  "generate_sources R r num_sources num_keys =
     obind (generate_keys R num_sources [0..<num_keys] r (replicate num_sources [])) (\<lambda>(per_source, r').
     obind (omap (sort_by (\<lambda>a b. compare_internal_keys (fst a) (fst b))) per_source) (\<lambda>sorted_sources.
     Ok (sorted_sources, r')))"

text \<open>A block of the file, through slices and \<open>expect\<close>.\<close>

definition decode_block_at :: "ext \<Rightarrow> bytes \<Rightarrow> Footer \<Rightarrow> BlockHandle \<Rightarrow> bytes outcome" where
  "decode_block_at X file_bytes ft handle =
     (let start = unat (handle_offset handle) in
      obind (block_read_len handle) (\<lambda>len.
      obind (usize_add start len) (\<lambda>stop.
      obind (slice file_bytes start stop) (\<lambda>raw.
      expect_ok (decode_block_contents X raw handle (checksum_type ft) (base_context_checksum ft))))))"

definition find_index_handle :: "BlockHandle option outcome \<Rightarrow> bytes \<Rightarrow> bytes \<Rightarrow> BlockHandle option outcome" where
  "find_index_handle found k v =
     obind found (\<lambda>h.
     if k = as_bytes ''rocksdb.index'' then
       (let (offset, pos1) = get_varint64 v 0 in
        obind (expect offset) (\<lambda>o'.
        let (sz, pos2) = get_varint64 v pos1 in
        obind (expect sz) (\<lambda>s'. Ok (Some \<lparr>handle_offset = o', handle_size = s'\<rparr>))))
     else Ok h)"

definition decode_push :: "entry list outcome \<Rightarrow> bytes \<Rightarrow> bytes \<Rightarrow> entry list outcome" where
  "decode_push out k v =
     obind out (\<lambda>es. obind (expect_ok (internal_key_split k)) (\<lambda>ik. Ok (es @ [(user_key ik, v)])))"

fun decode_data_blocks :: "ext \<Rightarrow> bytes \<Rightarrow> Footer \<Rightarrow> BlockHandle list \<Rightarrow> entry list \<Rightarrow> entry list outcome" where
  "decode_data_blocks X file_bytes ft [] out = Ok out"
| "decode_data_blocks X file_bytes ft (handle # handles) out =
     obind (decode_block_at X file_bytes ft handle) (\<lambda>raw.
     obind (expect_ok (parse_block raw)) (\<lambda>parsed.
     obind (expect_ok (walked (for_each_entry parsed decode_push (Ok out)))) (\<lambda>result.
     obind result (\<lambda>out'. decode_data_blocks X file_bytes ft handles out'))))"

definition decode_sst_entries :: "ext \<Rightarrow> bytes \<Rightarrow> entry list outcome" where
  "decode_sst_entries X file_bytes =
     obind (usize_sub (length file_bytes) FOOTER_TAIL_LEN) (\<lambda>tail_start.
     obind (slice file_bytes tail_start (length file_bytes)) (\<lambda>tail.
     obind (expect_ok (decode_footer X tail (of_nat (length file_bytes)))) (\<lambda>ft.
     obind (decode_block_at X file_bytes ft (metaindex_handle ft)) (\<lambda>metaindex_raw.
     obind (expect_ok (parse_block metaindex_raw)) (\<lambda>metaindex.
     obind (expect_ok (walked (for_each_entry metaindex find_index_handle (Ok None)))) (\<lambda>found.
     obind found (\<lambda>h.
     obind (expect h) (\<lambda>ih.
     obind (decode_block_at X file_bytes ft ih) (\<lambda>index_raw.
     obind (expect_ok (parse_block index_raw)) (\<lambda>index.
     obind (expect_ok (walked (for_each_index_entry index (\<lambda>hs key handle. hs @ [handle]) []))) (\<lambda>data_handles.
     obind (decode_data_blocks X file_bytes ft data_handles []) (\<lambda>out.
     Ok (sort out)))))))))))))"

definition fuzz_options :: CompactionOptions where
  "fuzz_options = \<lparr>sst_builder = sst_builder_options_default\<lparr>opt_base_context_checksum := 0x13579BDF\<rparr>\<rparr>"

definition build_source :: "entry list \<Rightarrow> ArenaSource" where
  "build_source entries = arena_builder_build (feed arena_builder_push arena_builder_new entries)"

definition run_compactor :: "ext \<Rightarrow> entry list list \<Rightarrow> entry list outcome option" where
  "run_compactor X per_source =
     map_option (\<lambda>r. obind (expect_ok r) (decode_sst_entries X))
       (compact X (map build_source per_source) fuzz_options)"

section \<open>Numbers as text\<close>

text \<open>The number a digit string denotes; padding with zeros does not change it.\<close>

definition digits_val :: "bytes \<Rightarrow> nat" where
  "digits_val = foldl (\<lambda>n b. 10 * n + (unat b - 48)) 0"

lemma digits_val_snoc [simp]: "digits_val (bs @ [b]) = 10 * digits_val bs + (unat b - 48)"
  by (simp add: digits_val_def)

lemma unat_digit: "d < 10 \<Longrightarrow> unat (of_nat (48 + d) :: u8) = 48 + d"
  by (simp add: unat_of_nat del: of_nat_add)

lemma digits_val_decimal: "digits_val (decimal n) = n"
proof (induction n rule: decimal.induct)
  case (1 n)
  show ?case
  proof (cases "n < 10")
    case True
    then show ?thesis using digits_val_snoc[of "[]"] unat_digit[OF True]
      by (simp add: decimal.simps[of n] digits_val_def)
  next
    case False
    then show ?thesis using 1 unat_digit[of "n mod 10"] by (simp add: decimal.simps[of n] del: of_nat_add)
  qed
qed

lemma digits_val_padded: "digits_val (replicate k 48 @ bs) = digits_val bs"
proof (induction bs rule: rev_induct)
  case Nil
  show ?case by (induction k) (simp_all add: digits_val_def)
next
  case (snoc b bs)
  then show ?case by (simp flip: append_assoc)
qed

lemma format_user_key_inject: "format_user_key i = format_user_key j \<Longrightarrow> i = j"
  unfolding format_user_key_def by (metis append_same_eq same_append_eq digits_val_decimal digits_val_padded)

lemma length_decimal: "n < 10 ^ k \<Longrightarrow> 0 < k \<Longrightarrow> length (decimal n) \<le> k"
proof (induction n arbitrary: k rule: decimal.induct)
  case (1 n)
  show ?case
  proof (cases "n < 10")
    case True
    then show ?thesis using "1.prems" by (simp add: decimal.simps[of n])
  next
    case False
    then obtain j where j: "k = Suc j" "0 < j" using "1.prems" by (cases k; cases "k - 1") auto
    then have "n div 10 < 10 ^ j" using "1.prems"(1) by (simp add: less_mult_imp_div_less)
    with "1.IH"[OF False this j(2)] False j show ?thesis by (simp add: decimal.simps[of n])
  qed
qed

lemma format_lengths:
  assumes "i < 10 ^ 6" and "seq < 10"
  shows "length (format_user_key i) = 9" and "length (format_value i seq) \<le> 14"
  using length_decimal[of i 6] length_decimal[of seq 1] assms
  by (simp_all add: format_user_key_def format_value_def as_bytes_def)

section \<open>What the generator produces\<close>

text \<open>\<open>gen_ok L ps\<close>: the sources hold one entry for every pair of key number and sequence number in \<open>L\<close>.\<close>

definition gen_entry :: "nat \<times> nat \<Rightarrow> entry \<Rightarrow> bool" where
  "gen_entry p e \<longleftrightarrow>
     (\<exists>ty. e = (make_internal_key (format_user_key (fst p)) (of_nat (snd p)) ty, format_value (fst p) (snd p)))"

definition gen_ok :: "(nat \<times> nat) list \<Rightarrow> entry list list \<Rightarrow> bool" where
  "gen_ok L ps \<longleftrightarrow> (\<exists>es. mset (concat ps) = mset es \<and> list_all2 gen_entry L es)"

lemma push_source_mset:
  assumes "src < length ps"
  shows "\<exists>ps'. push_source ps src e = Ok ps' \<and> length ps' = length ps \<and>
           mset (concat ps') = add_mset e (mset (concat ps))"
proof -
  let ?ps = "ps[src := ps ! src @ [e]]"
  have "ps = take src ps @ ps ! src # drop (Suc src) ps" using assms by (rule id_take_nth_drop)
  then have "mset (concat ps) = mset (concat (take src ps)) + (mset (ps ! src) + mset (concat (drop (Suc src) ps)))"
    by (metis concat.simps(2) concat_append mset_append)
  then have "mset (concat ?ps) = add_mset e (mset (concat ps))"
    using assms by (simp add: upd_conv_take_nth_drop)
  with assms show ?thesis by (simp add: push_source_def)
qed

lemma push_source_ok:
  assumes "src < length ps" and "gen_ok L ps" and "gen_entry p e"
  shows "\<exists>ps'. push_source ps src e = Ok ps' \<and> length ps' = length ps \<and> gen_ok (L @ [p]) ps'"
proof -
  obtain ps' where ps': "push_source ps src e = Ok ps'" "length ps' = length ps"
      "mset (concat ps') = add_mset e (mset (concat ps))"
    using push_source_mset[OF assms(1)] by blast
  obtain es where "mset (concat ps) = mset es" "list_all2 gen_entry L es"
    using assms(2) by (auto simp: gen_ok_def)
  then have "gen_ok (L @ [p]) ps'"
    unfolding gen_ok_def using ps'(3) assms(3) by (intro exI[of _ "es @ [e]"]) (simp add: list_all2_appendI)
  with ps' show ?thesis by blast
qed

lemma generate_versions_ok:
  assumes "rng_ok R" and "gen_ok L ps" and "length ps = ns" and "0 < ns"
  shows "\<exists>ps' r'. generate_versions R ns i n vs r ps = Ok (ps', r') \<and> length ps' = ns \<and>
           gen_ok (L @ map (\<lambda>v. (i, n - v)) vs) ps'"
  using assms(2,3)
proof (induction vs arbitrary: L ps r)
  case (Cons v vs)
  obtain ty r1 where ty: "(if v = 0 then
      (let (tombstone, r') = gen_bool_tenth R r in (if tombstone then TYPE_DELETION else TYPE_VALUE, r'))
      else (TYPE_VALUE, r)) = (ty, r1)" by (metis surj_pair)
  obtain src r2 where src: "gen_range R r1 0 ns = (src, r2)" by (metis surj_pair)
  then have "src < ns" using assms(1,4) unfolding rng_ok_def by (metis fst_conv)
  moreover have "gen_entry (i, n - v) (make_internal_key (format_user_key i) (of_nat (n - v)) ty, format_value i (n - v))"
    unfolding gen_entry_def fst_conv snd_conv by blast
  ultimately obtain ps1 where ps1: "push_source ps src
        (make_internal_key (format_user_key i) (of_nat (n - v)) ty, format_value i (n - v)) = Ok ps1"
      "length ps1 = ns" "gen_ok (L @ [(i, n - v)]) ps1"
    using push_source_ok[of src ps L "(i, n - v)"] Cons.prems by blast
  from Cons.IH[OF ps1(3,2), of r2] show ?case
    using ty src ps1(1) assms(4) by (simp add: sample_range_def Let_def)
qed auto

lemma generate_keys_ok:
  assumes "rng_ok R" and "gen_ok L ps" and "length ps = ns" and "0 < ns"
  shows "\<exists>ps' r' M. generate_keys R ns is r ps = Ok (ps', r') \<and> length ps' = ns \<and> gen_ok (L @ M) ps' \<and>
           (distinct is \<longrightarrow> distinct M) \<and> set M \<subseteq> set is \<times> {1..3} \<and> length M \<le> 3 * length is"
  using assms(2,3)
proof (induction "is" arbitrary: L ps r)
  case (Cons i "is")
  obtain n r1 where n: "gen_range_inclusive R r 1 3 = (n, r1)" by (metis surj_pair)
  then have n3: "1 \<le> n" "n \<le> 3" using assms(1) unfolding rng_ok_def
    by (metis fst_conv one_le_numeral)+
  let ?V = "map (\<lambda>v. (i, n - v)) [0..<n]"
  obtain ps1 r2 where ps1: "generate_versions R ns i n [0..<n] r1 ps = Ok (ps1, r2)" "length ps1 = ns"
      "gen_ok (L @ ?V) ps1"
    using generate_versions_ok[OF assms(1) Cons.prems assms(4), of i n "[0..<n]" r1] by blast
  obtain ps2 r3 M where M: "generate_keys R ns is r2 ps1 = Ok (ps2, r3)" "length ps2 = ns"
      "gen_ok ((L @ ?V) @ M) ps2" "distinct is \<longrightarrow> distinct M" "set M \<subseteq> set is \<times> {1..3}" "length M \<le> 3 * length is"
    using Cons.IH[OF ps1(3,2), of r2] by blast
  have "distinct ?V" by (auto simp: distinct_map inj_on_def)
  then have "distinct (i # is) \<longrightarrow> distinct (?V @ M)" using M(4,5) by auto
  moreover have "set (?V @ M) \<subseteq> set (i # is) \<times> {1..3}" using M(5) n3 by auto
  moreover have "generate_keys R ns (i # is) r ps = Ok (ps2, r3)" using n ps1(1) M(1) by simp
  ultimately show ?case
    using M(2,3,6) n3(2) by (intro exI[of _ ps2] exI[of _ r3] exI[of _ "?V @ M"]) simp
qed (auto intro!: exI[of _ "[]"])

lemma gen_entry_parts:
  assumes "gen_entry p e" and "snd p \<le> 3"
  shows "valid_key (fst e)" and "ukey (fst e) = format_user_key (fst p)" and "seqno (fst e) = of_nat (snd p)"
proof -
  obtain ty where e: "e = (make_internal_key (format_user_key (fst p)) (of_nat (snd p)) ty, format_value (fst p) (snd p))"
    using assms(1) by (auto simp: gen_entry_def)
  have "(of_nat (snd p) :: u64) < 2 ^ 56" using assms(2) by (simp add: word_less_nat_alt unat_of_nat)
  from unpack_seq_type(1)[OF this, of ty] e show "seqno (fst e) = of_nat (snd p)" by (simp only: seqno_def fst_conv make_internal_key_parts)
  from e show "valid_key (fst e)" "ukey (fst e) = format_user_key (fst p)" by simp_all
qed

lemma gen_entries_size:
  "list_all2 gen_entry L es \<Longrightarrow> \<forall>p \<in> set L. fst p < 10 ^ 6 \<and> snd p \<le> 3 \<Longrightarrow> entries_size es \<le> 31 * length es"
proof (induction rule: list_all2_induct)
  case (Cons p L e es)
  obtain ty where e: "e = (make_internal_key (format_user_key (fst p)) (of_nat (snd p)) ty, format_value (fst p) (snd p))"
    using Cons.hyps(1) by (auto simp: gen_entry_def)
  have "length (fst e) = 17" "length (snd e) \<le> 14"
    using format_lengths[of "fst p" "snd p"] Cons.prems by (simp_all add: e make_internal_key_def)
  then have "entries_size (e # es) \<le> 31 + entries_size es" by (cases e) simp
  with Cons show ?case by simp
qed simp

lemma gen_ok_sources:
  assumes gen: "gen_ok L ps" and L: "distinct L" "\<forall>p \<in> set L. fst p < 10 ^ 6 \<and> 1 \<le> snd p \<and> snd p \<le> 3"
  shows "keys_valid (concat ps)" and "distinct_versions (concat ps)" and "length (concat ps) = length L"
    and "entries_size (concat ps) \<le> 31 * length L"
proof -
  obtain es where perm: "mset (concat ps) = mset es" and es: "list_all2 gen_entry L es"
    using gen by (auto simp: gen_ok_def)
  have nth: "gen_entry (L ! i) (es ! i)" "L ! i \<in> set L" if "i < length es" for i
    using es that by (simp_all add: list_all2_conv_all_nth)
  have parts: "valid_key (fst (es ! i))" "ukey (fst (es ! i)) = format_user_key (fst (L ! i))"
      "seqno (fst (es ! i)) = of_nat (snd (L ! i))" if "i < length es" for i
    using gen_entry_parts[OF nth(1)[OF that]] L(2) nth(2)[OF that] by blast+
  have len: "length L = length es" using es by (rule list_all2_lengthD)
  have "keys_valid es" using parts(1) by (metis in_set_conv_nth)
  then show "keys_valid (concat ps)" using mset_eq_setD[OF perm] by blast
  have "(\<lambda>p. (format_user_key (fst p), of_nat (snd p) :: u64)) p = (\<lambda>p. (format_user_key (fst p), of_nat (snd p))) q \<Longrightarrow> p = q"
    if "p \<in> set L" "q \<in> set L" for p q
  proof -
    assume eq: "(\<lambda>p. (format_user_key (fst p), of_nat (snd p) :: u64)) p = (\<lambda>p. (format_user_key (fst p), of_nat (snd p))) q"
    have "unat (of_nat (snd p) :: u64) = snd p" "unat (of_nat (snd q) :: u64) = snd q"
      using L(2) that by (auto intro!: unat_of_nat_u64)
    with eq show "p = q" by (metis Pair_inject format_user_key_inject prod_eqI)
  qed
  then have "distinct (map (\<lambda>p. (format_user_key (fst p), of_nat (snd p) :: u64)) L)"
    using L(1) by (simp add: distinct_map inj_on_def)
  moreover have "map (\<lambda>e. (ukey (fst e), seqno (fst e))) es = map (\<lambda>p. (format_user_key (fst p), of_nat (snd p))) L"
    using parts(2,3) len by (intro nth_equalityI) simp_all
  ultimately have "distinct_versions es" by (simp add: distinct_versions_def)
  then show "distinct_versions (concat ps)" using distinct_versions_mset[OF perm] by simp
  show "length (concat ps) = length L" using perm len by (metis size_mset)
  have "entries_size (concat ps) \<le> entries_size es" using perm by (intro entries_size_mono) simp
  with gen_entries_size[OF es] L(2) len show "entries_size (concat ps) \<le> 31 * length L" by force
qed

section \<open>Sorting\<close>

lemma insert_by_correct:
  assumes "\<forall>y \<in> set ys. cmp x y = Ok (cmp_of (rank x) (rank y))" and "sorted (map rank ys)"
  shows "\<exists>zs. insert_by cmp x ys = Ok zs \<and> mset zs = add_mset x (mset ys) \<and> sorted (map rank zs)"
  using assms
proof (induction ys)
  case (Cons y ys)
  then obtain zs where zs: "insert_by cmp x ys = Ok zs" "mset zs = add_mset x (mset ys)" "sorted (map rank zs)"
    by auto
  show ?case
  proof (cases "rank y < rank x")
    case True
    have "set zs = insert x (set ys)" using zs(2) by (metis set_mset_add_mset_insert set_mset_mset)
    with True Cons.prems zs show ?thesis by (auto simp: add_mset_commute)
  next
    case False
    with Cons.prems show ?thesis by auto
  qed
qed simp

lemma sort_by_correct:
  assumes "\<forall>x \<in> set xs. \<forall>y \<in> set xs. cmp x y = Ok (cmp_of (rank x) (rank y))"
  shows "\<exists>ys. sort_by cmp xs = Ok ys \<and> mset ys = mset xs \<and> sorted (map rank ys)"
  using assms
proof (induction xs)
  case (Cons x xs)
  then obtain ys where ys: "sort_by cmp xs = Ok ys" "mset ys = mset xs" "sorted (map rank ys)" by auto
  have "\<forall>y \<in> set ys. cmp x y = Ok (cmp_of (rank x) (rank y))" using Cons.prems mset_eq_setD[OF ys(2)] by simp
  from insert_by_correct[where rank = rank and cmp = cmp and x = x and ys = ys, OF this ys(3)] ys(1,2) show ?case by auto
qed simp

lemma sort_sources:
  assumes "keys_valid (concat ps)"
  shows "\<exists>ps'. omap (sort_by (\<lambda>a b. compare_internal_keys (fst a) (fst b))) ps = Ok ps' \<and>
           (\<forall>es \<in> set ps'. ik_sorted es) \<and> mset (concat ps') = mset (concat ps)"
  using assms
proof (induction ps)
  case (Cons es ps)
  have "\<forall>a \<in> set es. \<forall>b \<in> set es.
      compare_internal_keys (fst a) (fst b) = Ok (cmp_of (ikrank (fst a)) (ikrank (fst b)))"
    using Cons.prems by (simp add: compare_internal_keys_def InternalKeyComparator_def internal_key_compare_valid)
  from sort_by_correct[OF this] obtain es' where "sort_by (\<lambda>a b. compare_internal_keys (fst a) (fst b)) es = Ok es'"
      "mset es' = mset es" "ik_sorted es'" by blast
  with Cons show ?case by auto
qed simp

section \<open>Decoding a written file\<close>

lemma expect_ok_Ok [simp]: "expect_ok (Ok x) = Ok x"
  by (simp add: expect_ok_def)

lemma decode_block_at_Ok:
  assumes "block_at X (checksum_type ft) (base_context_checksum ft) disk h raw" and "length disk < 2 ^ 32"
  shows "decode_block_at X disk ft h = Ok raw"
proof -
  have len: "length disk < 2 ^ 64" using assms(2) by simp
  note at = block_at_bytes[OF assms(1) len]
  have "slice disk (unat (handle_offset h)) (unat (handle_offset h) + (length raw + 5)) =
      Ok (encode_block_with_trailer X raw (handle_offset h) (checksum_type ft) (base_context_checksum ft))"
    using at(2,3) by (simp add: slice_def get_range_def)
  moreover have "usize_add (unat (handle_offset h)) (length raw + 5) = Ok (unat (handle_offset h) + (length raw + 5))"
    using at(2) len by (simp add: usize_add_def)
  ultimately show ?thesis
    using block_at_decode[OF assms(1) len] by (simp add: decode_block_at_def)
qed

lemma feed_decode_push: "keys_valid es \<Longrightarrow> feed decode_push (Ok out) es = Ok (out @ strip es)"
  by (induction es arbitrary: out) (auto simp: decode_push_def)

lemma decode_data_blocks_Ok:
  assumes "list_all2 (data_block_at X (checksum_type ft) (base_context_checksum ft) disk) hs bss"
    and "length disk < 2 ^ 32" and "keys_valid (concat bss)"
  shows "decode_data_blocks X disk ft (map snd hs) out = Ok (out @ strip (concat bss))"
  using assms
proof (induction hs bss arbitrary: out rule: list_all2_induct)
  case (Cons e hs es bss)
  obtain raw p where "block_at X (checksum_type ft) (base_context_checksum ft) disk (snd e) raw" "parse_block raw = Ok p"
      "for_each_entry p decode_push (Ok out) = (feed decode_push (Ok out) es, Ok ())"
    using data_block_at_walk[OF Cons.hyps(1) Cons.prems(1), of decode_push "Ok out"] by blast
  with Cons show ?case by (simp add: decode_block_at_Ok walked_def feed_decode_push)
qed simp

lemma find_index_metaindex:
  "feed find_index_handle (Ok None) (metaindex_entries ph ih) = Ok (Some ih)"
proof -
  have "as_bytes ''rocksdb.index'' = INDEX_BLOCK_NAME" by (simp add: INDEX_BLOCK_NAME_def)
  moreover have "decode_meta_value_handle (handle_value ih) = Some ih" by (rule decode_meta_value_handle_value)
  ultimately show ?thesis
    using block_names_less
    by (auto simp: find_index_handle_def decode_meta_value_handle_def split: prod.splits option.splits)
qed

lemma decode_sst_entries_Ok:
  assumes layout: "sst_layout X ct bcc disk hs bss" and len: "length disk < 2 ^ 32" and valid: "keys_valid (concat bss)"
  shows "decode_sst_entries X disk = Ok (sort (strip (concat bss)))"
proof -
  obtain ft ph ih mb ib where
      ft: "decode_footer X (drop (length disk - FOOTER_TAIL_LEN) disk) (of_nat (length disk)) = Ok ft"
        "checksum_type ft = ct" "base_context_checksum ft = bcc"
      and m: "block_at X ct bcc disk (metaindex_handle ft) (block_builder_finish mb)"
        "bb_inv mb (metaindex_entries ph ih)"
      and i: "block_at X ct bcc disk ih (index_builder_finish ib)" "ib_inv ib hs"
      and foot: "FOOTER_TAIL_LEN \<le> length disk" and blocks: "list_all2 (data_block_at X ct bcc disk) hs bss"
    using layout unfolding sst_layout_def sst_tail_def by blast
  obtain mp where mp: "parse_block (block_builder_finish mb) = Ok mp"
      "for_each_entry mp find_index_handle (Ok None) =
         (feed find_index_handle (Ok None) (metaindex_entries ph ih), Ok ())"
    using metaindex_walk[OF m(2), of find_index_handle "Ok None"] by blast
  obtain ip where ip: "parse_block (index_builder_finish ib) = Ok ip"
      "for_each_index_entry ip (\<lambda>hs key handle. hs @ [handle]) [] = (feed (\<lambda>hs key handle. hs @ [handle]) [] hs, Ok ())"
    using index_block_at_walk[OF i len, of "\<lambda>hs key handle. hs @ [handle]" "[]"] by blast
  have handles: "feed (\<lambda>hs key handle. hs @ [handle]) st hs = st @ map snd hs" for st
    by (induction hs arbitrary: st) auto
  have "slice disk (length disk - FOOTER_TAIL_LEN) (length disk) = Ok (drop (length disk - FOOTER_TAIL_LEN) disk)"
    using foot by (simp add: slice_def get_range_def)
  moreover have "decode_block_at X disk ft (metaindex_handle ft) = Ok (block_builder_finish mb)"
      "decode_block_at X disk ft ih = Ok (index_builder_finish ib)"
    using decode_block_at_Ok[OF _ len] m(1) i(1) ft(2,3) by blast+
  moreover have "decode_data_blocks X disk ft (map snd hs) [] = Ok (strip (concat bss))"
    using decode_data_blocks_Ok[of X ft disk hs bss "[]"] blocks len valid ft(2,3) by simp
  moreover have "walked (for_each_entry mp find_index_handle (Ok None)) = Ok (Ok (Some ih))"
    unfolding mp(2) walked_def find_index_metaindex by simp
  moreover have "walked (for_each_index_entry ip (\<lambda>hs key handle. hs @ [handle]) []) = Ok (map snd hs)"
    unfolding ip(2) walked_def handles by simp
  ultimately show ?thesis
    using foot ft(1) mp(1) ip(1) by (simp add: decode_sst_entries_def)
qed

section \<open>The compactor under test\<close>

lemma sort_strip:
  assumes "sorted_wrt (<) (map (\<lambda>e. ukey (fst e)) es)"
  shows "sort (strip es) = strip es"
proof -
  have "sorted_wrt (\<le>) (strip es)"
    using assms unfolding sorted_wrt_map by (rule sorted_wrt_mono_rel[rotated]) (simp add: less_eq_prod_def)
  then show ?thesis by (simp add: sort_key_id_if_sorted)
qed

lemma fuzz_options_plain:
  "opt_external_sst_global_seqno (sst_builder fuzz_options) = None"
  "sst_size_bound (sst_builder fuzz_options) es = 66 * length es + 2 * entries_size es + 1233"
  using default_options_small(2)[of es]
  by (simp_all add: fuzz_options_def sst_builder_options_default_def sst_size_bound_def)

lemma run_compactor_correct:
  assumes runs: "\<forall>es \<in> set ess. keys_valid es \<and> ik_sorted es" and dist: "distinct_versions (concat ess)"
    and size: "66 * length (concat ess) + 2 * entries_size (concat ess) + 1233 < 2 ^ 32"
  shows "\<exists>out. run_compactor X ess = Some (Ok out) \<and> naive_compact ess = Ok out"
proof -
  let ?o = "sst_builder fuzz_options"
  let ?ss = "map build_source ess"
  have arena: "build_source es = arena_of es" for es by (simp add: build_source_def feed_push)
  have bound: "sst_size_bound ?o (concat ess) < 2 ^ 32" using size by (simp only: fuzz_options_plain(2))
  have fits: "entries_size es < 2 ^ 32" if "es \<in> set ess" for es
    using size_bound_fits[OF le_less_trans[OF size_bound_concat[OF that] bound]] .
  have all: "all_entries ?ss = concat ess"
    unfolding arena using fits by (intro arenas_of_entries) blast
  have src: "\<forall>s \<in> set ?ss. sorted_source s"
    unfolding arena using runs fits by (intro whole_sources_sorted) (auto intro!: arena_of_whole)
  obtain xs es' disk st' where job: "merged ?ss xs"
      "rewritten_entries ?o (keep_run bottommost_decide None () xs) = Ok es'" "sst_size_bound ?o es' < 2 ^ 32"
      "build_sst X ?o (keep_run bottommost_decide None () xs) = Ok disk"
      "compact_with_strategy X bottommost_decide ?ss fuzz_options () = Some (Ok (disk, st'))"
    using compact_with_strategy_correct[OF src, of fuzz_options bottommost_decide "()" X] bound all by auto
  let ?kept = "filter live (newest_only None xs)"
  have kept: "keep_run bottommost_decide None () xs = ?kept" "es' = ?kept"
    using job(2) fuzz_options_plain(1) by (simp_all add: rewritten_entries_def bottommost_keep_run)
  have xs: "ik_sorted xs" "mset xs = mset (concat ess)" using job(1) unfolding merged_def all by blast+
  have strict: "sorted_wrt (<) (map (\<lambda>e. ukey (fst e)) ?kept)"
    using newest_only_strict[OF ik_sorted_ukey[OF xs(1)], of None] by (simp add: sorted_wrt_map sorted_wrt_filter)
  have valid: "keys_valid ?kept"
    using merged_valid[OF src job(1)] newest_only_subset[of None xs] filter_is_subset[of live "newest_only None xs"] by blast
  obtain hs bss where lay: "concat bss = ?kept" "length disk < 2 ^ 32"
      "sst_layout X (opt_checksum_type ?o) (opt_base_context_checksum ?o) disk hs bss"
    using build_sst_laid_out[OF job(2,3), of X] job(4) kept(2) by auto
  have "decode_sst_entries X disk = Ok (strip ?kept)"
    using decode_sst_entries_Ok[OF lay(3,2)] valid sort_strip[OF strict] unfolding lay(1) by simp
  then have "run_compactor X ess = Some (Ok (strip ?kept))"
    using job(5) by (simp add: run_compactor_def compact_def)
  moreover have "keys_valid (concat ess)" using runs by fastforce
  then have "naive_compact ess = Ok (strip ?kept)"
    using naive_compact_newest[OF _ dist xs] by blast
  ultimately show ?thesis by blast
qed

section \<open>Properties\<close>

text \<open>
  C6. The differential test cannot fail: whatever the random generator draws, for any positive number of
  sources and up to a million keys, the generated runs are sorted, the compactor returns on them without
  a panic, its decoded output is that of the reference implementation, and the assertion that compares
  the two holds.
\<close>

theorem differential_test_passes:
  assumes "rng_ok R" and "0 < num_sources" and "num_keys \<le> 10 ^ 6"
  shows "\<exists>per_source r' out. generate_sources R r num_sources num_keys = Ok (per_source, r') \<and>
           (\<forall>es \<in> set per_source. ik_sorted es) \<and>
           run_compactor X per_source = Some (Ok out) \<and> naive_compact per_source = Ok out"
proof -
  have "gen_ok [] (replicate num_sources [])" by (simp add: gen_ok_def)
  from generate_keys_ok[OF assms(1) this _ assms(2), of "[0..<num_keys]" r] obtain ps r' M where
      gen: "generate_keys R num_sources [0..<num_keys] r (replicate num_sources []) = Ok (ps, r')" "gen_ok M ps"
      "distinct M" "set M \<subseteq> {0..<num_keys} \<times> {1..3}" "length M \<le> 3 * num_keys"
    by auto
  have "\<forall>p \<in> set M. fst p < 10 ^ 6 \<and> 1 \<le> snd p \<and> snd p \<le> 3" using gen(4) assms(3) by fastforce
  note ps = gen_ok_sources[OF gen(2,3) this]
  obtain qs where qs: "omap (sort_by (\<lambda>a b. compare_internal_keys (fst a) (fst b))) ps = Ok qs"
      "\<forall>es \<in> set qs. ik_sorted es" "mset (concat qs) = mset (concat ps)"
    using sort_sources[OF ps(1)] by blast
  have "keys_valid (concat qs)" using ps(1) mset_eq_setD[OF qs(3)] by simp
  moreover have "entries_size (concat qs) \<le> entries_size (concat ps)"
    using qs(3) by (intro entries_size_mono) simp
  moreover have "length (concat qs) = length (concat ps)" using qs(3) by (metis size_mset)
  ultimately have "\<exists>out. run_compactor X qs = Some (Ok out) \<and> naive_compact qs = Ok out"
    using qs(2) ps distinct_versions_mset[OF qs(3)] gen(5) assms(3)
    by (intro run_compactor_correct) auto
  with gen(1) qs(1,2) show ?thesis by (auto simp: generate_sources_def)
qed

text \<open>A generator that obeys the laws: a counter, reduced into the range.\<close>

definition counter_rng :: "nat rng" where
  "counter_rng = \<lparr>gen_range = (\<lambda>r lo hi. (lo + r mod (hi - lo), r + 1)),
     gen_range_inclusive = (\<lambda>r lo hi. (lo + r mod (hi - lo + 1), r + 1)), gen_bool_tenth = (\<lambda>r. (r mod 10 = 0, r + 1))\<rparr>"

lemma counter_rng_ok: "rng_ok counter_rng"
proof -
  have "lo + r mod (hi - lo) < hi" if "lo < hi" for r lo hi :: nat
    using mod_less_divisor[of "hi - lo" r] that by linarith
  moreover have "lo + r mod Suc (hi - lo) \<le> hi" if "lo \<le> hi" for r lo hi :: nat
    using mod_less_divisor[of "Suc (hi - lo)" r] that by linarith
  ultimately show ?thesis by (simp add: rng_ok_def counter_rng_def)
qed

theorem differential_test_passes_witness:
  "\<exists>per_source r' out. generate_sources counter_rng 0 3 200 = Ok (per_source, r') \<and>
     (\<forall>es \<in> set per_source. ik_sorted es) \<and>
     run_compactor example_ext per_source = Some (Ok out) \<and> naive_compact per_source = Ok out"
  by (rule differential_test_passes[OF counter_rng_ok]) simp_all

end
