(* ===== verification/Merge_Bench.thy ===== *)
theory Merge_Bench
  imports Fuzzer
begin

unbundle bit_operations_syntax

text \<open>
  The benchmark of the mergers (\<^verbatim>\<open>compactor/benches/merge_bench.rs\<close>): the inputs it builds, and the
  routines it times, which merge them and count the entries. The harness \<^verbatim>\<open>criterion\<close>, which repeats and
  times the routines, is not part of the model; a benchmark function is here the list of the values its
  routines return. The random generator is the parameter of the theory \<open>Fuzzer\<close>, with the function that
  seeds it.

  The benchmark compares like with like: the two algorithms and the two representations emit the same
  entries in the same order, and so do the two comparators on the keys built for them.
\<close>

section \<open>Inputs\<close>

definition bench_user_key :: "nat \<Rightarrow> bytes" where
  "bench_user_key uk =
     as_bytes ''key'' @ replicate (12 - length (decimal uk)) 48 @ decimal uk"

definition bench_internal_key :: "nat \<Rightarrow> nat \<Rightarrow> bytes" where
  "bench_internal_key uk seq =
     bench_user_key uk @ u64_to_le_bytes (push_bit 8 (of_nat seq) OR 1)"

text \<open>The shuffle of \<open>bench_build_entries\<close>: every position is swapped with a random one.\<close>

fun shuffle :: "'r rng \<Rightarrow> nat list \<Rightarrow> 'r \<Rightarrow> nat list \<Rightarrow> (nat list \<times> 'r) outcome" where
  "shuffle R [] r chosen = Ok (chosen, r)"
| "shuffle R (i # is) r chosen =
     obind (sample_range R r 0 (length chosen)) (\<lambda>(j, r1).
     obind (vec_get chosen i) (\<lambda>ci.
     obind (vec_get chosen j) (\<lambda>cj.
     shuffle R is r1 (chosen[i := cj, j := ci]))))"

text \<open>The loop over the sources a key lands in, from the sequence index \<open>seq\<close> on.\<close>

fun place_versions :: "nat \<Rightarrow> nat \<Rightarrow> nat \<Rightarrow> nat list \<Rightarrow> entry list list \<Rightarrow> entry list list outcome" where
  "place_versions uk hits seq [] per_source = Ok per_source"
| "place_versions uk hits seq (src # srcs) per_source =
     obind (usize_sub hits seq) (\<lambda>s.
     let key = bench_internal_key uk s;
         value = as_bytes ''value_for_'' @ decimal uk @ as_bytes ''_seq_'' @ decimal s
     in obind (push_source per_source src (key, value)) (\<lambda>per_source'.
        place_versions uk hits (seq + 1) srcs per_source'))"

fun build_keys :: "'r rng \<Rightarrow> nat \<Rightarrow> nat list \<Rightarrow> 'r \<Rightarrow> entry list list \<Rightarrow> entry list list outcome" where
  "build_keys R num_sources [] r per_source = Ok per_source"
| "build_keys R num_sources (uk # uks) r per_source =
     (let (hits, r1) = gen_range_inclusive R r 1 3
      in obind (shuffle R [0..<num_sources] r1 [0..<num_sources]) (\<lambda>(chosen, r2).
         obind (place_versions uk hits 0 (take hits chosen) per_source) (\<lambda>per_source'.
         build_keys R num_sources uks r2 per_source')))"

definition bench_build_entries :: "'r rng \<Rightarrow> (nat \<Rightarrow> 'r) \<Rightarrow> nat \<Rightarrow> nat \<Rightarrow> nat \<Rightarrow> entry list list outcome" where
  "bench_build_entries R seed_from_u64 num_sources total_keys seed =
     obind (build_keys R num_sources [0..<total_keys] (seed_from_u64 seed) (replicate num_sources [])) (\<lambda>per_source.
     omap (sort_by (\<lambda>a b. compare_internal_keys (fst a) (fst b))) per_source)"

definition u64_to_be_bytes :: "u64 \<Rightarrow> bytes" where
  "u64_to_be_bytes w = rev (u64_to_le_bytes w)"

definition CONSTANT_SUFFIX :: bytes where
  "CONSTANT_SUFFIX = u64_to_le_bytes 1"

text \<open>The division by the number of sources panics when there are none.\<close>

definition build_bytewise_entries_padded :: "nat \<Rightarrow> nat \<Rightarrow> nat \<Rightarrow> entry list list outcome" where
  "build_bytewise_entries_padded num_sources total_keys extra_pad_bytes =
     (if num_sources = 0 then Panic
      else let per_src = max (total_keys div num_sources) 1
           in omap (\<lambda>src. omap (\<lambda>i.
                obind (usize_mul i num_sources) (\<lambda>m.
                obind (usize_add src m) (\<lambda>uk.
                Ok (u64_to_be_bytes (of_nat uk) @ replicate extra_pad_bytes 0xAB @ CONSTANT_SUFFIX,
                    as_bytes ''value_for_'' @ decimal uk)))) [0..<per_src]) [0..<num_sources])"

definition build_bytewise_entries :: "nat \<Rightarrow> nat \<Rightarrow> entry list list outcome" where
  "build_bytewise_entries num_sources total_keys = build_bytewise_entries_padded num_sources total_keys 0"

definition to_vec_sources :: "entry list list \<Rightarrow> VecSource list" where
  "to_vec_sources per_source = map vec_source_new per_source"

definition to_arena_sources :: "entry list list \<Rightarrow> ArenaSource list" where
  "to_arena_sources per_source =
     map (\<lambda>entries. arena_builder_build (feed arena_builder_push
            (arena_builder_with_capacity (length entries)
               (sum_list (map (\<lambda>(k, v). length k + length v) entries))) entries)) per_source"

section \<open>Routines\<close>

definition count_entry :: "nat \<Rightarrow> bytes \<Rightarrow> bytes \<Rightarrow> nat" where
  "count_entry n k v = n + 1"

definition bench_heap_vec :: "entry list list \<Rightarrow> nat outcome option" where
  "bench_heap_vec per_source =
     heap_merge InternalKeyComparator vec_source_ops count_entry 0 (to_vec_sources per_source)"

definition bench_loser_tree_vec :: "entry list list \<Rightarrow> nat outcome option" where
  "bench_loser_tree_vec per_source =
     loser_tree_merge InternalKeyComparator vec_source_ops count_entry 0 (to_vec_sources per_source)"

definition bench_loser_tree_arena :: "comparator \<Rightarrow> entry list list \<Rightarrow> nat outcome option" where
  "bench_loser_tree_arena C per_source =
     loser_tree_merge C arena_source_ops count_entry 0 (to_arena_sources per_source)"

definition bench_mergers :: "'r rng \<Rightarrow> (nat \<Rightarrow> 'r) \<Rightarrow> nat outcome option list list outcome" where
  "bench_mergers R seed_from_u64 =
     omap (\<lambda>num_sources.
       obind (bench_build_entries R seed_from_u64 num_sources 50000 42) (\<lambda>per_source.
       Ok [bench_heap_vec per_source, bench_loser_tree_vec per_source,
           bench_loser_tree_arena InternalKeyComparator per_source])) [4, 8, 16, 32]"

definition bench_comparator_prefix_fastpath :: "nat outcome option list list outcome" where
  "bench_comparator_prefix_fastpath =
     omap (\<lambda>num_sources.
       obind (build_bytewise_entries num_sources 50000) (\<lambda>per_source.
       Ok [bench_loser_tree_arena InternalKeyComparator per_source,
           bench_loser_tree_arena BytewiseComparator per_source])) [4, 8, 16, 32]"

definition bench_comparator_prefix_fastpath_long_keys :: "nat outcome option list list outcome" where
  "bench_comparator_prefix_fastpath_long_keys =
     omap (\<lambda>num_sources.
       obind (build_bytewise_entries_padded num_sources 50000 1016) (\<lambda>per_source.
       Ok [bench_loser_tree_arena InternalKeyComparator per_source,
           bench_loser_tree_arena BytewiseComparator per_source])) [4, 16]"

section \<open>What the inputs hold\<close>

definition bench_entry :: "nat \<times> nat \<Rightarrow> entry" where
  "bench_entry p = (bench_internal_key (fst p) (snd p),
     as_bytes ''value_for_'' @ decimal (fst p) @ as_bytes ''_seq_'' @ decimal (snd p))"

lemma bench_internal_key_make: "bench_internal_key u s = make_internal_key (bench_user_key u) (of_nat s) 1"
  by (simp add: bench_internal_key_def make_internal_key_def)

lemma bench_user_key_inject: "bench_user_key i = bench_user_key j \<Longrightarrow> i = j"
  unfolding bench_user_key_def by (metis same_append_eq digits_val_decimal digits_val_padded)

lemma bench_internal_key_inject:
  assumes "bench_internal_key u s = bench_internal_key u' s'" and "s \<le> 3" and "s' \<le> 3"
  shows "u = u' \<and> s = s'"
proof -
  let ?k = "\<lambda>u s. make_internal_key (bench_user_key u) (of_nat s) 1"
  have eq: "?k u s = ?k u' s'" using assms(1) by (simp only: bench_internal_key_make)
  have "bench_user_key u = bench_user_key u'" using arg_cong[OF eq, of ukey] by simp
  moreover have small: "(of_nat n :: u64) < 2 ^ 56" if "n \<le> 3" for n
    using that by (simp add: word_less_nat_alt unat_of_nat)
  have "seqno (?k u n) = of_nat n" if "n \<le> 3" for u n
    using unpack_seq_type(1)[OF small[OF that], of 1] by (simp only: seqno_def make_internal_key_parts)
  then have "(of_nat s :: u64) = of_nat s'" using eq assms(2,3) by metis
  then have "unat (of_nat s :: u64) = unat (of_nat s' :: u64)" by (rule arg_cong)
  then have "s = s'" using assms(2,3) by (simp add: unat_of_nat_u64)
  ultimately show ?thesis using bench_user_key_inject by blast
qed

lemma shuffle_ok:
  assumes "rng_ok R" and "\<forall>i \<in> set is. i < length chosen"
  shows "\<exists>c r'. shuffle R is r chosen = Ok (c, r') \<and> mset c = mset chosen"
  using assms(2)
proof (induction "is" arbitrary: chosen r)
  case (Cons i "is")
  obtain j r1 where j: "gen_range R r 0 (length chosen) = (j, r1)" by (metis surj_pair)
  have i: "i < length chosen" using Cons.prems by simp
  then have "0 < length chosen" by linarith
  then have jl: "j < length chosen" using assms(1) j unfolding rng_ok_def by (metis fst_conv)
  have "mset (chosen[i := chosen ! j, j := chosen ! i]) = mset chosen" by (rule mset_swap[OF jl i])
  moreover have "\<forall>i \<in> set is. i < length (chosen[i := chosen ! j, j := chosen ! i])" using Cons.prems by simp
  ultimately show ?case
    using Cons.IH[of "chosen[i := chosen ! j, j := chosen ! i]" r1] i jl j
    by (auto simp: sample_range_def)
qed simp

lemma place_versions_ok:
  assumes "seq + length srcs \<le> hits" and "\<forall>src \<in> set srcs. src < length ps"
  shows "\<exists>ps'. place_versions u hits seq srcs ps = Ok ps' \<and> length ps' = length ps \<and>
    mset (concat ps') = mset (concat ps) + mset (map (\<lambda>n. bench_entry (u, hits - n)) [seq..<seq + length srcs])"
  using assms
proof (induction srcs arbitrary: seq ps)
  case (Cons src srcs)
  obtain ps1 where ps1: "push_source ps src (bench_entry (u, hits - seq)) = Ok ps1" "length ps1 = length ps"
      "mset (concat ps1) = add_mset (bench_entry (u, hits - seq)) (mset (concat ps))"
    using push_source_mset[of src ps "bench_entry (u, hits - seq)"] Cons.prems(2) by auto
  have "[seq..<seq + length (src # srcs)] = seq # [Suc seq..<Suc seq + length srcs]"
    using upt_rec[of seq "seq + length (src # srcs)"] by (simp del: upt_Suc)
  with ps1 Cons.IH[of "seq + 1" ps1] Cons.prems show ?case
    by (simp add: usize_sub_def bench_entry_def Let_def)
qed simp

lemma build_keys_ok:
  assumes "rng_ok R" and "length ps = ns" and "0 < ns"
  shows "\<exists>ps' M. build_keys R ns us r ps = Ok ps' \<and> length ps' = ns \<and>
    mset (concat ps') = mset (concat ps) + mset (map bench_entry M) \<and> (distinct us \<longrightarrow> distinct M) \<and>
    set M \<subseteq> set us \<times> {1..3} \<and> length us \<le> length M \<and> length M \<le> 3 * length us"
  using assms(2)
proof (induction us arbitrary: ps r)
  case (Cons u us)
  obtain hits r1 where hits: "gen_range_inclusive R r 1 3 = (hits, r1)" by (metis surj_pair)
  then have h3: "1 \<le> hits" "hits \<le> 3" using assms(1) unfolding rng_ok_def by (metis fst_conv one_le_numeral)+
  obtain c r2 where c: "shuffle R [0..<ns] r1 [0..<ns] = Ok (c, r2)" "mset c = mset [0..<ns]"
    using shuffle_ok[OF assms(1), of "[0..<ns]" "[0..<ns]" r1] by auto
  have cs: "set c = {0..<ns}" "length c = ns" using mset_eq_setD[OF c(2)] mset_eq_length[OF c(2)] by simp_all
  let ?srcs = "take hits c"
  let ?V = "map (\<lambda>n. (u, hits - n)) [0..<length ?srcs]"
  have "\<forall>src \<in> set ?srcs. src < length ps" using cs(1) Cons.prems by (auto dest: in_set_takeD)
  then obtain ps1 where ps1: "place_versions u hits 0 ?srcs ps = Ok ps1" "length ps1 = ns"
      "mset (concat ps1) = mset (concat ps) + mset (map bench_entry ?V)"
    using place_versions_ok[of 0 ?srcs hits ps u] Cons.prems by (auto simp: comp_def)
  obtain ps2 M where M: "build_keys R ns us r2 ps1 = Ok ps2" "length ps2 = ns"
      "mset (concat ps2) = mset (concat ps1) + mset (map bench_entry M)" "distinct us \<longrightarrow> distinct M"
      "set M \<subseteq> set us \<times> {1..3}" "length us \<le> length M" "length M \<le> 3 * length us"
    using Cons.IH[OF ps1(2), of r2] by blast
  have len: "1 \<le> length ?srcs" "length ?srcs \<le> hits" using h3(1) cs(2) assms(3) by auto
  have "distinct ?V" using len(2) by (auto simp: distinct_map inj_on_def)
  then have "distinct (u # us) \<longrightarrow> distinct (?V @ M)" using M(4,5) by auto
  moreover have "set (?V @ M) \<subseteq> set (u # us) \<times> {1..3}" using M(5) h3 len(2) by auto
  moreover have "build_keys R ns (u # us) r ps = Ok ps2" using hits c(1) ps1(1) M(1) by simp
  moreover have "length (u # us) \<le> length (?V @ M)" "length (?V @ M) \<le> 3 * length (u # us)"
    using len h3(2) M(6,7) by (simp_all del: length_take)
  moreover have "mset (concat ps2) = mset (concat ps) + mset (map bench_entry (?V @ M))"
    using M(3) ps1(3) by simp
  ultimately show ?case using M(2) by blast
qed (auto intro!: exI[of _ "[]"])

lemma bench_entry_size:
  assumes "fst p < 10 ^ 12" and "snd p < 10"
  shows "length (fst (bench_entry p)) + length (snd (bench_entry p)) \<le> 51"
  using length_decimal[of "fst p" 12] length_decimal[of "snd p" 1] assms
  by (simp add: bench_entry_def bench_internal_key_def bench_user_key_def as_bytes_def)

lemma entries_size_bound:
  "\<forall>e \<in> set es. length (fst e) + length (snd e) \<le> n \<Longrightarrow> entries_size es \<le> n * length es"
  by (induction es) auto

text \<open>The runs that \<open>bench_build_entries\<close> makes: sorted, without a key twice, small enough for an arena.\<close>

lemma bench_build_entries_ok:
  assumes rng: "rng_ok R" and ns: "0 < ns" and keys: "total_keys \<le> 10 ^ 7"
  shows "\<exists>ps. bench_build_entries R sf ns total_keys seed = Ok ps \<and>
    (\<forall>es \<in> set ps. keys_valid es \<and> ik_sorted es \<and> entries_size es < 2 ^ 32) \<and>
    distinct (map fst (concat ps)) \<and>
    total_keys \<le> length (concat ps) \<and> length (concat ps) \<le> 3 * total_keys"
proof -
  obtain ps M where M: "build_keys R ns [0..<total_keys] (sf seed) (replicate ns []) = Ok ps"
      "mset (concat ps) = mset (map bench_entry M)" "distinct M" "set M \<subseteq> {0..<total_keys} \<times> {1..3}"
      "total_keys \<le> length M" "length M \<le> 3 * total_keys"
    using build_keys_ok[OF rng _ ns, of "replicate ns []" "[0..<total_keys]" "sf seed"] by auto
  have es: "set (concat ps) = bench_entry ` set M" using mset_eq_setD[OF M(2)] by simp
  have valid: "keys_valid (concat ps)" unfolding es by (auto simp: bench_entry_def bench_internal_key_make)
  obtain qs where qs: "omap (sort_by (\<lambda>a b. compare_internal_keys (fst a) (fst b))) ps = Ok qs"
      "\<forall>es \<in> set qs. ik_sorted es" "mset (concat qs) = mset (concat ps)"
    using sort_sources[OF valid] by blast
  have len: "length (concat qs) = length M" using qs(3) M(2) by (metis length_map size_mset)
  have "inj_on (\<lambda>p. fst (bench_entry p)) (set M)"
    using M(4) by (auto simp: inj_on_def bench_entry_def dest!: bench_internal_key_inject)
  then have "distinct (map fst (map bench_entry M))" using M(3) by (simp add: distinct_map comp_def inj_on_def)
  moreover have "mset (map fst (concat qs)) = mset (map fst (map bench_entry M))"
    using qs(3) M(2) by (simp only: mset_map)
  ultimately have dist: "distinct (map fst (concat qs))" using mset_eq_imp_distinct_iff by blast
  have sets: "set (concat qs) = bench_entry ` set M" using mset_eq_setD[OF qs(3)] es by simp
  have "length (fst e) + length (snd e) \<le> 51" if "e \<in> set (concat qs)" for e
    using that M(4) keys unfolding sets by (auto intro!: bench_entry_size)
  then have size: "entries_size (concat qs) \<le> 51 * length (concat qs)" by (intro entries_size_bound) blast
  have "entries_size es < 2 ^ 32" if "es \<in> set qs" for es
  proof -
    have "mset es \<subseteq># mset (concat qs)" using that by (rule mset_concat_member)
    then have "entries_size es \<le> entries_size (concat qs)" by (rule entries_size_mono)
    then show ?thesis using size len M(6) keys by simp
  qed
  moreover have "keys_valid es" if "es \<in> set qs" for es
    using that valid mset_eq_setD[OF qs(3)] by (auto simp: set_concat)
  ultimately show ?thesis
    using M(1,5,6) qs(1,2) dist len by (simp add: bench_build_entries_def)
qed

section \<open>The mergers agree\<close>

interpretation arena_bw: kway arena_source_ops wf_arena arena_remaining
    BytewiseComparator "\<lambda>_. True" "\<lambda>k. k"
  by unfold_locales

lemma to_arena_sources_of: "to_arena_sources ps = map (\<lambda>es. arena_of es) ps"
  by (simp add: to_arena_sources_def feed_push arena_builder_with_capacity_def arena_builder_new_def)

lemma to_arena_sources_correct:
  assumes "\<forall>es \<in> set ps. entries_size es < 2 ^ 32"
  shows "map arena_remaining (to_arena_sources ps) = ps" and "\<forall>s \<in> set (to_arena_sources ps). wf_arena s"
  using assms arena_of_correct by (simp_all add: to_arena_sources_of map_idI)

lemma to_vec_sources_remaining: "map vec_remaining (to_vec_sources ps) = ps"
  by (simp add: to_vec_sources_def vec_source_new_def vec_remaining_def comp_def)

lemma feed_count: "feed count_entry n es = n + length es"
  by (induction es arbitrary: n) (auto simp: count_entry_def)

text \<open>A merge, as a function of the callback and its state, returns having made these calls.\<close>

definition emits :: "(('st \<Rightarrow> bytes \<Rightarrow> bytes \<Rightarrow> 'st) \<Rightarrow> 'st \<Rightarrow> 'st outcome option) \<Rightarrow> entry list \<Rightarrow> bool" where
  "emits run xs \<longleftrightarrow> (\<forall>f st. run f st = Some (Ok (feed f st xs)))"

lemma good_of_remaining:
  assumes "map remaining ss = ps" and "\<forall>s \<in> set ss. w s" and "\<forall>es \<in> set ps. \<forall>e \<in> set es. valid (fst e)"
  shows "good_sources w remaining valid ss"
  using assms by (auto simp: good_sources_def)

lemma all_mergers_agree:
  assumes runs: "\<forall>es \<in> set ps. keys_valid es \<and> ik_sorted es \<and> entries_size es < 2 ^ 32"
    and dist: "distinct (map fst (concat ps))"
  shows "\<exists>xs. mset xs = mset (concat ps) \<and> ik_sorted xs \<and>
    emits (\<lambda>f (st :: 'st). heap_merge InternalKeyComparator vec_source_ops f st (to_vec_sources ps)) xs \<and>
    emits (\<lambda>f (st :: 'st). loser_tree_merge InternalKeyComparator vec_source_ops f st (to_vec_sources ps)) xs \<and>
    emits (\<lambda>f (st :: 'st). loser_tree_merge InternalKeyComparator arena_source_ops f st (to_arena_sources ps)) xs"
proof -
  have gv: "good_sources (\<lambda>_. True) vec_remaining valid_key (to_vec_sources ps)"
    using runs by (intro good_of_remaining[OF to_vec_sources_remaining]) auto
  have fits: "\<forall>es \<in> set ps. entries_size es < 2 ^ 32" using runs by blast
  have ga: "good_sources wf_arena arena_remaining valid_key (to_arena_sources ps)"
    using runs by (intro good_of_remaining[OF to_arena_sources_correct[OF fits]]) auto
  have "keys_valid (concat ps)" using runs by auto
  then have d: "distinct (map (\<lambda>e. ikrank (fst e)) (concat ps))" using dist by (intro distinct_ikrank) auto
  have sorted: "\<forall>es \<in> set ps. ik_sorted es" using runs by blast
  obtain xs where xs: "kmerge ikrank ps xs"
    using vec_ik.heap_merge_kmerge[OF gv, of "\<lambda>_ _ _. ()" "()"] unfolding to_vec_sources_remaining by blast
  have same: "ys = xs" if "kmerge ikrank ps ys" for ys
    using kmerge_unique[OF that xs sorted d] .
  have "heap_merge InternalKeyComparator vec_source_ops f st (to_vec_sources ps) = Some (Ok (feed f st xs))"
    for f and st :: 'st
    using vec_ik.heap_merge_kmerge[OF gv, of f st] same unfolding to_vec_sources_remaining by blast
  moreover have "loser_tree_merge InternalKeyComparator vec_source_ops f st (to_vec_sources ps) = Some (Ok (feed f st xs))"
    for f and st :: 'st
    using vec_ik.loser_tree_merge_kmerge[OF gv, of f st] same unfolding to_vec_sources_remaining by blast
  moreover have "loser_tree_merge InternalKeyComparator arena_source_ops f st (to_arena_sources ps) = Some (Ok (feed f st xs))"
    for f and st :: 'st
    using arena_ik.loser_tree_merge_kmerge[OF ga, of f st] same
    unfolding to_arena_sources_correct(1)[OF fits] by blast
  ultimately show ?thesis using kmerge_mset[OF xs] kmerge_sorted[OF xs sorted] unfolding emits_def by blast
qed

section \<open>The comparators agree\<close>

definition bytewise_key :: "nat \<Rightarrow> nat \<Rightarrow> bytes" where
  "bytewise_key p u = u64_to_be_bytes (of_nat u) @ replicate p 0xAB @ CONSTANT_SUFFIX"

definition bytewise_entry :: "nat \<Rightarrow> nat \<Rightarrow> entry" where
  "bytewise_entry p u = (bytewise_key p u, as_bytes ''value_for_'' @ decimal u)"

lemma be_val_be_bytes: "u < 2 ^ 64 \<Longrightarrow> be_val (u64_to_be_bytes (of_nat u)) = u"
proof -
  assume u: "u < 2 ^ 64"
  have "be_val (u64_to_be_bytes (of_nat u)) = le_val (u64_to_le_bytes (of_nat u))"
    by (simp add: u64_to_be_bytes_def be_val_rev)
  also have "\<dots> = unat (from_le_bytes (u64_to_le_bytes (of_nat u)) :: u64)"
    by (rule unat_from_le_bytes[symmetric]) (simp add: u64_to_le_bytes_def)
  finally show ?thesis using unat_of_nat_u64[OF u] by simp
qed

lemma append_less_append: "length xs = length ys \<Longrightarrow> (xs @ zs < ys @ zs) = (xs < (ys :: bytes))"
  by (induction xs ys rule: list_induct2) auto

lemma length_be_bytes [simp]: "length (u64_to_be_bytes w) = 8"
  by (simp add: u64_to_be_bytes_def u64_to_le_bytes_def)

lemma bytewise_key_less:
  assumes "u < 2 ^ 64" and "v < 2 ^ 64"
  shows "bytewise_key p u < bytewise_key p v \<longleftrightarrow> u < v" and "ikrank (bytewise_key p u) < ikrank (bytewise_key p v) \<longleftrightarrow> u < v"
proof -
  have be: "u64_to_be_bytes (of_nat u) < u64_to_be_bytes (of_nat v) \<longleftrightarrow> u < v"
    using be_val_less_iff[of "u64_to_be_bytes (of_nat u)" "u64_to_be_bytes (of_nat v)"] be_val_be_bytes assms by simp
  then show "bytewise_key p u < bytewise_key p v \<longleftrightarrow> u < v"
    unfolding bytewise_key_def using append_less_append by simp
  have parts: "ukey (bytewise_key p w) = u64_to_be_bytes (of_nat w) @ replicate p 0xAB"
      "packed (bytewise_key p w) = 1" for w
    by (simp_all add: bytewise_key_def ukey_def packed_def CONSTANT_SUFFIX_def)
  show "ikrank (bytewise_key p u) < ikrank (bytewise_key p v) \<longleftrightarrow> u < v"
    using be append_less_append[of "u64_to_be_bytes (of_nat u)" "u64_to_be_bytes (of_nat v)"]
    by (simp add: ikrank_less parts)
qed

lemma bytewise_key_le:
  assumes "u < 2 ^ 64" and "v < 2 ^ 64"
  shows "bytewise_key p u \<le> bytewise_key p v \<longleftrightarrow> u \<le> v" and "ikrank (bytewise_key p u) \<le> ikrank (bytewise_key p v) \<longleftrightarrow> u \<le> v"
  using bytewise_key_less[OF assms(2,1), of p] by (simp_all add: not_less[symmetric])

text \<open>What \<open>build_bytewise_entries_padded\<close> makes: source \<open>src\<close> has every \<open>ns\<close>-th number from \<open>src\<close> on.\<close>

definition bytewise_runs :: "nat \<Rightarrow> nat \<Rightarrow> nat \<Rightarrow> entry list list" where
  "bytewise_runs ns per_src p = map (\<lambda>src. map (\<lambda>i. bytewise_entry p (src + i * ns)) [0..<per_src]) [0..<ns]"

lemma bytewise_number_less:
  assumes "src < ns" and "i < per_src"
  shows "src + i * ns < per_src * (ns :: nat)"
proof -
  have "src + i * ns < Suc i * ns" using assms(1) by simp
  also have "\<dots> \<le> per_src * ns" using assms(2) by (intro mult_right_mono) auto
  finally show ?thesis .
qed

lemma build_bytewise_entries_Ok:
  assumes "0 < ns" and "max total_keys ns < 2 ^ 64"
  shows "build_bytewise_entries_padded ns total_keys p = Ok (bytewise_runs ns (max (total_keys div ns) 1) p)"
    and "max (total_keys div ns) 1 * ns \<le> max total_keys ns"
proof -
  let ?n = "max (total_keys div ns) 1"
  show le: "?n * ns \<le> max total_keys ns" 
    by (simp only: nat_mult_max_left nat_mult_1 max.mono[OF div_times_less_eq_dividend order_refl])
  have num: "i * ns < 2 ^ 64" "src + i * ns < 2 ^ 64" if "src < ns" "i < ?n" for src i
    using bytewise_number_less[OF that] le assms(2) by linarith+
  have inner: "omap (\<lambda>i. obind (usize_mul i ns) (\<lambda>m. obind (usize_add src m) (\<lambda>uk.
      Ok (u64_to_be_bytes (of_nat uk) @ replicate p 0xAB @ CONSTANT_SUFFIX, as_bytes ''value_for_'' @ decimal uk)))) [0..<?n] =
    Ok (map (\<lambda>i. bytewise_entry p (src + i * ns)) [0..<?n])" if "src < ns" for src
    by (rule omap_Ok) (use num[OF that] in \<open>simp add: usize_mul_def usize_add_def bytewise_entry_def bytewise_key_def\<close>)
  have "omap (\<lambda>src. omap (\<lambda>i. obind (usize_mul i ns) (\<lambda>m. obind (usize_add src m) (\<lambda>uk.
      Ok (u64_to_be_bytes (of_nat uk) @ replicate p 0xAB @ CONSTANT_SUFFIX, as_bytes ''value_for_'' @ decimal uk)))) [0..<?n]) [0..<ns] =
    Ok (bytewise_runs ns ?n p)"
    unfolding bytewise_runs_def by (rule omap_Ok, rule inner) simp
  then show "build_bytewise_entries_padded ns total_keys p = Ok (bytewise_runs ns ?n p)"
    using assms(1) by (simp only: build_bytewise_entries_padded_def Let_def) simp
qed

lemma bytewise_runs_entries:
  assumes "per_src * ns < 2 ^ 64" and "es \<in> set (bytewise_runs ns per_src p)" and "e \<in> set es"
  shows "\<exists>u < per_src * ns. e = bytewise_entry p u"
proof -
  obtain src i where "src < ns" "i < per_src" "e = bytewise_entry p (src + i * ns)"
    using assms by (auto simp: bytewise_runs_def)
  with bytewise_number_less[of src ns i per_src] show ?thesis by blast
qed

lemma bytewise_runs_sorted:
  assumes "per_src * ns < 2 ^ 64" and "es \<in> set (bytewise_runs ns per_src p)"
  shows "sorted_by ikrank es" and "sorted_by (\<lambda>k. k) es"
proof -
  obtain src where src: "src < ns" "es = map (\<lambda>i. bytewise_entry p (src + i * ns)) [0..<per_src]"
    using assms(2) by (auto simp: bytewise_runs_def)
  have "src + i * ns < 2 ^ 64" if "i < per_src" for i
    using bytewise_number_less[OF src(1) that] assms(1) by linarith
  then show "sorted_by ikrank es" "sorted_by (\<lambda>k. k) es"
    unfolding src(2)
    by (auto simp: sorted_wrt_map sorted_wrt_iff_nth_less comp_def bytewise_entry_def bytewise_key_le)
qed

lemma bytewise_entry_inject: "u < 2 ^ 64 \<Longrightarrow> v < 2 ^ 64 \<Longrightarrow> bytewise_key p u = bytewise_key p v \<Longrightarrow> u = v"
  using bytewise_key_less(1)[of u v p] bytewise_key_less(1)[of v u p] by (metis linorder_neqE_nat order_less_irrefl)

lemma bytewise_runs_distinct:
  assumes "per_src * ns < 2 ^ 64"
  shows "distinct (map fst (concat (bytewise_runs ns per_src p)))"
proof -
  let ?num = "\<lambda>(src, i). src + i * ns"
  let ?pairs = "concat (map (\<lambda>src. map (\<lambda>i. (src, i)) [0..<per_src]) [0..<ns])"
  have runs: "map fst (concat (bytewise_runs ns per_src p)) = map (\<lambda>q. bytewise_key p (?num q)) ?pairs"
    by (simp add: bytewise_runs_def map_concat comp_def bytewise_entry_def)
  have pairs: "set ?pairs = {0..<ns} \<times> {0..<per_src}" by auto
  have "?pairs = List.product [0..<ns] [0..<per_src]" by (simp add: product_concat_map)
  then have "distinct ?pairs" by (simp add: distinct_product)
  moreover have "inj_on (\<lambda>q. bytewise_key p (?num q)) (set ?pairs)"
    unfolding pairs
  proof (rule inj_onI, clarify)
    fix a i b j assume ab: "a \<in> {0..<ns}" "b \<in> {0..<ns}" and ij: "i \<in> {0..<per_src}" "j \<in> {0..<per_src}"
      and eq: "bytewise_key p (a + i * ns) = bytewise_key p (b + j * ns)"
    have "a + i * ns < 2 ^ 64" "b + j * ns < 2 ^ 64"
      using bytewise_number_less[of a ns i per_src] bytewise_number_less[of b ns j per_src] ab ij assms by auto
    from bytewise_entry_inject[OF this eq] have num: "a + i * ns = b + j * ns" .
    then have "(a + i * ns) mod ns = (b + j * ns) mod ns" by (rule arg_cong)
    then have "a = b" using ab by simp
    with num ab show "a = b \<and> i = j" by simp
  qed
  ultimately show ?thesis unfolding runs by (simp only: distinct_map)
qed

lemma length_bytewise_runs: "length (concat (bytewise_runs ns per_src p)) = per_src * ns"
  by (simp add: bytewise_runs_def length_concat comp_def map_replicate_const sum_list_replicate)

lemma bytewise_entry_size:
  assumes "u < 2 ^ 64"
  shows "length (fst (bytewise_entry p u)) + length (snd (bytewise_entry p u)) \<le> 46 + p"
proof -
  have "length (decimal u) \<le> 20" using assms by (intro length_decimal) simp_all
  then show ?thesis
    by (simp add: bytewise_entry_def bytewise_key_def CONSTANT_SUFFIX_def u64_to_le_bytes_def as_bytes_def)
qed

lemma bytewise_runs_entry:
  assumes "per_src * ns < 2 ^ 64" and "e \<in> set (concat (bytewise_runs ns per_src p))"
  shows "\<exists>u < 2 ^ 64. e = bytewise_entry p u"
proof -
  obtain es where "es \<in> set (bytewise_runs ns per_src p)" "e \<in> set es"
    using assms(2) unfolding set_concat by blast
  then show ?thesis using bytewise_runs_entries[OF assms(1)] assms(1) less_trans by blast
qed

lemma bytewise_runs_size:
  assumes "(46 + p) * (per_src * ns) < 2 ^ 32" and n: "per_src * ns < 2 ^ 64"
  shows "\<forall>es \<in> set (bytewise_runs ns per_src p). entries_size es < 2 ^ 32"
proof -
  let ?ps = "bytewise_runs ns per_src p"
  have "length (fst e) + length (snd e) \<le> 46 + p" if "e \<in> set (concat ?ps)" for e
    using bytewise_runs_entry[OF n that] bytewise_entry_size[of _ p] by blast
  then have "entries_size (concat ?ps) \<le> (46 + p) * length (concat ?ps)" by (intro entries_size_bound) blast
  then have "entries_size (concat ?ps) < 2 ^ 32" using assms(1) by (simp add: length_bytewise_runs)
  then show ?thesis using entries_size_mono[OF mset_concat_member] le_less_trans by blast
qed

text \<open>The two orders merge the runs to the same sequence: on their keys they agree, and no key repeats.\<close>

lemma bytewise_kmerge_same:
  assumes n: "per_src * ns < 2 ^ 64"
    and xs: "kmerge ikrank (bytewise_runs ns per_src p) xs" and ys: "kmerge (\<lambda>k. k) (bytewise_runs ns per_src p) ys"
  shows "xs = ys"
proof (rule sorted_by_unique)
  let ?ps = "bytewise_runs ns per_src p"
  have sorted: "\<forall>es \<in> set ?ps. sorted_by ikrank es" "\<forall>es \<in> set ?ps. sorted_by (\<lambda>k. k) es"
    using bytewise_runs_sorted[OF n] by blast+
  show "sorted_by (\<lambda>k. k) ys" by (rule kmerge_sorted[OF ys sorted(2)])
  show "mset xs = mset ys" using kmerge_mset[OF xs] kmerge_mset[OF ys] by simp
  have "mset (map (\<lambda>e. fst e) xs) = mset (map (\<lambda>e. fst e) (concat ?ps))"
    using kmerge_mset[OF xs] by (simp only: mset_map)
  then show "distinct (map (\<lambda>e. fst e) xs)"
    using bytewise_runs_distinct[OF n, of p] by (metis mset_eq_imp_distinct_iff)
  have "\<exists>u < 2 ^ 64. e = bytewise_entry p u" if "e \<in> set xs" for e
    using bytewise_runs_entry[OF n] that mset_eq_setD[OF kmerge_mset[OF xs]] by blast
  then have "ikrank (fst a) \<le> ikrank (fst b) \<longleftrightarrow> fst a \<le> fst b" if "a \<in> set xs" "b \<in> set xs" for a b
    using that bytewise_key_le[of _ _ p] by (metis bytewise_entry_def fst_conv)
  then show "sorted_by (\<lambda>k. k) xs"
    using kmerge_sorted[OF xs sorted(1)] by (auto simp: sorted_wrt_map intro: sorted_wrt_mono_rel[rotated])
qed

lemma bytewise_merges:
  assumes fits: "(46 + p) * (per_src * ns) < 2 ^ 32"
  defines "ps \<equiv> bytewise_runs ns per_src p"
  shows "\<exists>xs. mset xs = mset (concat ps) \<and> sorted_by (\<lambda>k. k) xs \<and>
    emits (\<lambda>f (st :: 'st). loser_tree_merge InternalKeyComparator arena_source_ops f st (to_arena_sources ps)) xs \<and>
    emits (\<lambda>f (st :: 'st). loser_tree_merge BytewiseComparator arena_source_ops f st (to_arena_sources ps)) xs"
proof -
  have "per_src * ns \<le> (46 + p) * (per_src * ns)" by simp
  from le_less_trans[OF this fits] have n: "per_src * ns < 2 ^ 64" by simp
  note arenas = to_arena_sources_correct[OF bytewise_runs_size[OF fits n]]
  have "valid_key (bytewise_key p u)" for u by (simp add: bytewise_key_def)
  then have valid: "\<forall>es \<in> set ps. \<forall>e \<in> set es. valid_key (fst e)"
    using bytewise_runs_entry[OF n] unfolding ps_def by (fastforce simp: bytewise_entry_def)
  then have ik: "good_sources wf_arena arena_remaining valid_key (to_arena_sources ps)"
    unfolding ps_def by (intro good_of_remaining[OF arenas])
  have bw: "good_sources wf_arena arena_remaining (\<lambda>_. True) (to_arena_sources ps)"
    unfolding ps_def by (intro good_of_remaining[OF arenas]) simp
  have one: "xs = ys" if "kmerge ikrank ps xs" "kmerge (\<lambda>k. k) ps ys" for xs ys
    using that unfolding ps_def by (rule bytewise_kmerge_same[OF n])
  have rem: "map arena_remaining (to_arena_sources ps) = ps" unfolding ps_def by (rule arenas(1))
  obtain xs where xs: "kmerge ikrank ps xs"
    using arena_ik.loser_tree_merge_kmerge[OF ik, of "\<lambda>_ _ _. ()" "()"] unfolding rem by blast
  obtain ys where ys: "kmerge (\<lambda>k. k) ps ys"
    using arena_bw.loser_tree_merge_kmerge[OF bw, of "\<lambda>_ _ _. ()" "()"] unfolding rem by blast
  have "loser_tree_merge InternalKeyComparator arena_source_ops f st (to_arena_sources ps) = Some (Ok (feed f st ys))"
    for f and st :: 'st
    using arena_ik.loser_tree_merge_kmerge[OF ik, of f st] one[OF _ ys] unfolding rem by blast
  moreover have "loser_tree_merge BytewiseComparator arena_source_ops f st (to_arena_sources ps) = Some (Ok (feed f st ys))"
    for f and st :: 'st
    using arena_bw.loser_tree_merge_kmerge[OF bw, of f st] one[OF xs] one[OF xs ys] unfolding rem by blast
  moreover have "sorted_by (\<lambda>k. k) ys"
    using kmerge_sorted[OF ys] bytewise_runs_sorted[OF n] unfolding ps_def by blast
  ultimately show ?thesis using kmerge_mset[OF ys] unfolding emits_def by blast
qed

lemma bench_mergers_run:
  assumes "rng_ok R" and "0 < num_sources" and "total_keys \<le> 10 ^ 7"
  shows "\<exists>ps xs. bench_build_entries R seed_from_u64 num_sources total_keys seed = Ok ps \<and>
    mset xs = mset (concat ps) \<and> ik_sorted xs \<and> total_keys \<le> length xs \<and> length xs \<le> 3 * total_keys \<and>
    emits (\<lambda>f (st :: 'st). heap_merge InternalKeyComparator vec_source_ops f st (to_vec_sources ps)) xs \<and>
    emits (\<lambda>f (st :: 'st). loser_tree_merge InternalKeyComparator vec_source_ops f st (to_vec_sources ps)) xs \<and>
    emits (\<lambda>f (st :: 'st). loser_tree_merge InternalKeyComparator arena_source_ops f st (to_arena_sources ps)) xs"
proof -
  obtain ps where ps: "bench_build_entries R seed_from_u64 num_sources total_keys seed = Ok ps"
      "\<forall>es \<in> set ps. keys_valid es \<and> ik_sorted es \<and> entries_size es < 2 ^ 32" "distinct (map fst (concat ps))"
      "total_keys \<le> length (concat ps)" "length (concat ps) \<le> 3 * total_keys"
    using bench_build_entries_ok[OF assms] by blast
  obtain xs where xs: "mset xs = mset (concat ps)" "ik_sorted xs"
      "emits (\<lambda>f (st :: 'st). heap_merge InternalKeyComparator vec_source_ops f st (to_vec_sources ps)) xs"
      "emits (\<lambda>f (st :: 'st). loser_tree_merge InternalKeyComparator vec_source_ops f st (to_vec_sources ps)) xs"
      "emits (\<lambda>f (st :: 'st). loser_tree_merge InternalKeyComparator arena_source_ops f st (to_arena_sources ps)) xs"
    using all_mergers_agree[OF ps(2,3)] by blast
  have "length xs = length (concat ps)" using mset_eq_length[OF xs(1)] .
  with ps(1,4,5) xs show ?thesis by auto
qed

lemma bench_comparators_run:
  assumes "0 < num_sources" and "(46 + extra_pad_bytes) * max total_keys num_sources < 2 ^ 32"
  shows "\<exists>ps xs. build_bytewise_entries_padded num_sources total_keys extra_pad_bytes = Ok ps \<and>
    mset xs = mset (concat ps) \<and> sorted_by (\<lambda>k. k) xs \<and>
    length xs = max (total_keys div num_sources) 1 * num_sources \<and>
    emits (\<lambda>f (st :: 'st). loser_tree_merge InternalKeyComparator arena_source_ops f st (to_arena_sources ps)) xs \<and>
    emits (\<lambda>f (st :: 'st). loser_tree_merge BytewiseComparator arena_source_ops f st (to_arena_sources ps)) xs"
proof -
  let ?n = "max (total_keys div num_sources) 1"
  let ?ps = "bytewise_runs num_sources ?n extra_pad_bytes"
  have "1 * max total_keys num_sources \<le> (46 + extra_pad_bytes) * max total_keys num_sources"
    by (rule mult_le_mono1) simp
  from le_less_trans[OF this assms(2)] have "max total_keys num_sources < 2 ^ 64" by simp
  note build = build_bytewise_entries_Ok[OF assms(1) this]
  have "(46 + extra_pad_bytes) * (?n * num_sources) \<le> (46 + extra_pad_bytes) * max total_keys num_sources"
    using build(2) by (rule mult_le_mono2)
  from bytewise_merges[OF le_less_trans[OF this assms(2)]] obtain xs where
      xs: "mset xs = mset (concat ?ps)" "sorted_by (\<lambda>k. k) xs"
      "emits (\<lambda>f (st :: 'st). loser_tree_merge InternalKeyComparator arena_source_ops f st (to_arena_sources ?ps)) xs"
      "emits (\<lambda>f (st :: 'st). loser_tree_merge BytewiseComparator arena_source_ops f st (to_arena_sources ?ps)) xs" by blast
  have "length xs = ?n * num_sources" using mset_eq_length[OF xs(1)] unfolding length_bytewise_runs .
  with build(1)[of extra_pad_bytes] xs show ?thesis by blast
qed

section \<open>Properties\<close>

text \<open>
  C26. The benchmark of the mergers compares like with like: for any number of sources and up to ten
  million keys, whatever the generator draws, the heap over \<open>VecSource\<close>, the loser tree over \<open>VecSource\<close>
  and the loser tree over \<open>ArenaSource\<close> return, and call their callback on the same entries in the same
  order, which is that of the internal keys.
\<close>

theorem bench_mergers_agree:
  assumes "rng_ok R" and "0 < num_sources" and "total_keys \<le> 10 ^ 7"
  shows "\<exists>ps xs. bench_build_entries R seed_from_u64 num_sources total_keys seed = Ok ps \<and>
    mset xs = mset (concat ps) \<and> ik_sorted xs \<and> total_keys \<le> length xs \<and> length xs \<le> 3 * total_keys \<and>
    emits (\<lambda>f (st :: 'st). heap_merge InternalKeyComparator vec_source_ops f st (to_vec_sources ps)) xs \<and>
    emits (\<lambda>f (st :: 'st). loser_tree_merge InternalKeyComparator vec_source_ops f st (to_vec_sources ps)) xs \<and>
    emits (\<lambda>f (st :: 'st). loser_tree_merge InternalKeyComparator arena_source_ops f st (to_arena_sources ps)) xs"
  by (rule bench_mergers_run[OF assms])

theorem bench_mergers_agree_witness:
  "\<exists>ps xs. bench_build_entries counter_rng (\<lambda>s. s) 4 50000 42 = Ok ps \<and> 50000 \<le> length xs \<and>
     emits (\<lambda>f (st :: nat). heap_merge InternalKeyComparator vec_source_ops f st (to_vec_sources ps)) xs"
  using bench_mergers_agree[OF counter_rng_ok, of 4 50000 "\<lambda>s. s" 42] by auto

text \<open>
  The benchmark of the comparators measures comparisons only: on the keys built for it, padded or not,
  the internal-key comparator and the bytewise comparator give the same entries in the same order, and
  nothing panics or is lost.
\<close>

theorem bench_comparators_agree:
  assumes "0 < num_sources" and "(46 + extra_pad_bytes) * max total_keys num_sources < 2 ^ 32"
  shows "\<exists>ps xs. build_bytewise_entries_padded num_sources total_keys extra_pad_bytes = Ok ps \<and>
    mset xs = mset (concat ps) \<and> sorted_by (\<lambda>k. k) xs \<and>
    length xs = max (total_keys div num_sources) 1 * num_sources \<and>
    emits (\<lambda>f (st :: 'st). loser_tree_merge InternalKeyComparator arena_source_ops f st (to_arena_sources ps)) xs \<and>
    emits (\<lambda>f (st :: 'st). loser_tree_merge BytewiseComparator arena_source_ops f st (to_arena_sources ps)) xs"
  by (rule bench_comparators_run[OF assms])

theorem bench_comparators_agree_witness:
  "\<exists>ps xs. build_bytewise_entries_padded 4 50000 1016 = Ok ps \<and> length xs = max (50000 div 4) 1 * 4 \<and>
     emits (\<lambda>f (st :: nat). loser_tree_merge InternalKeyComparator arena_source_ops f st (to_arena_sources ps)) xs \<and>
     emits (\<lambda>f (st :: nat). loser_tree_merge BytewiseComparator arena_source_ops f st (to_arena_sources ps)) xs"
  using bench_comparators_agree[of 4 1016 50000] by auto

text \<open>The counts the benchmark functions return; with 32 sources the bytewise inputs are 16 keys short of 50000.\<close>

lemma bench_mergers_counts:
  assumes "rng_ok R"
  shows "\<exists>ns. bench_mergers R seed_from_u64 = Ok (map (\<lambda>n. replicate 3 (Some (Ok n))) ns) \<and>
           length ns = 4 \<and> (\<forall>n \<in> set ns. 50000 \<le> n \<and> n \<le> 150000)"
proof -
  define G where "G k = obind (bench_build_entries R seed_from_u64 k 50000 42) (\<lambda>ps. Ok [bench_heap_vec ps,
    bench_loser_tree_vec ps, bench_loser_tree_arena InternalKeyComparator ps])" for k
  have "\<exists>n. G k = Ok (replicate 3 (Some (Ok n))) \<and> 50000 \<le> n \<and> n \<le> 150000" if k: "0 < k" for k
  proof -
    obtain ps xs where "bench_build_entries R seed_from_u64 k 50000 42 = Ok ps" "50000 \<le> length xs" "length xs \<le> 3 * 50000"
        "emits (\<lambda>f (st :: nat). heap_merge InternalKeyComparator vec_source_ops f st (to_vec_sources ps)) xs"
        "emits (\<lambda>f (st :: nat). loser_tree_merge InternalKeyComparator vec_source_ops f st (to_vec_sources ps)) xs"
        "emits (\<lambda>f (st :: nat). loser_tree_merge InternalKeyComparator arena_source_ops f st (to_arena_sources ps)) xs"
      using bench_mergers_run[OF assms k, of 50000 seed_from_u64 42] by auto
    then show ?thesis
      by (intro exI[of _ "length xs"]) (simp add: G_def bench_heap_vec_def bench_loser_tree_vec_def
          bench_loser_tree_arena_def emits_def feed_count numeral_3_eq_3)
  qed
  then have "\<forall>k. \<exists>n. 0 < k \<longrightarrow> G k = Ok (replicate 3 (Some (Ok n))) \<and> 50000 \<le> n \<and> n \<le> 150000" by blast
  from choice[OF this] obtain n where
      n: "\<And>k. 0 < k \<Longrightarrow> G k = Ok (replicate 3 (Some (Ok (n k)))) \<and> 50000 \<le> n k \<and> n k \<le> 150000" by blast
  have "bench_mergers R seed_from_u64 = omap G [4, 8, 16, 32]" by (simp add: bench_mergers_def G_def[abs_def])
  also have "\<dots> = Ok (map (\<lambda>k. replicate 3 (Some (Ok (n k)))) [4, 8, 16, 32])"
    by (rule omap_Ok) (use n in auto)
  finally show ?thesis using n by (intro exI[of _ "map n [4, 8, 16, 32]"]) auto
qed

lemma bench_comparator_run:
  assumes "0 < k" and "(46 + p) * max 50000 k < 2 ^ 32"
  shows "obind (build_bytewise_entries_padded k 50000 p) (\<lambda>ps. Ok [bench_loser_tree_arena InternalKeyComparator ps,
           bench_loser_tree_arena BytewiseComparator ps]) = Ok (replicate 2 (Some (Ok (max (50000 div k) 1 * k))))"
proof -
  obtain ps xs where "build_bytewise_entries_padded k 50000 p = Ok ps" "length xs = max (50000 div k) 1 * k"
      "emits (\<lambda>f (st :: nat). loser_tree_merge InternalKeyComparator arena_source_ops f st (to_arena_sources ps)) xs"
      "emits (\<lambda>f (st :: nat). loser_tree_merge BytewiseComparator arena_source_ops f st (to_arena_sources ps)) xs"
    using bench_comparators_run[OF assms] by blast
  then show ?thesis by (simp add: bench_loser_tree_arena_def emits_def feed_count numeral_2_eq_2)
qed

lemma bench_comparator_counts:
  "bench_comparator_prefix_fastpath = Ok (map (\<lambda>n. replicate 2 (Some (Ok n))) [50000, 50000, 50000, 49984])"
  "bench_comparator_prefix_fastpath_long_keys = Ok (map (\<lambda>n. replicate 2 (Some (Ok n))) [50000, 50000])"
  by (simp_all add: bench_comparator_prefix_fastpath_def bench_comparator_prefix_fastpath_long_keys_def
      build_bytewise_entries_def bench_comparator_run del: obind_eq_Ok_iff)

end
