(* ===== verification/Unit_Tests.thy ===== *)
theory Unit_Tests
  imports Fuzzer
begin

text \<open>
  The unit tests that the sources carry (\<^verbatim>\<open>compaction/strategy.rs\<close>, \<^verbatim>\<open>merge/cmp.rs\<close> and \<^verbatim>\<open>oracle/src/lib.rs\<close>), as
  programs over the model: a test returns, or panics where one of its assertions fails. They all
  return, so the model does on them what the authors say the code does.
\<close>

section \<open>Assertions\<close>

definition assert_eq :: "'a \<Rightarrow> 'a \<Rightarrow> unit outcome" where
  "assert_eq x y = ensure (x = y)"

text \<open>The key constructor that each of the test modules defines, over the bytes of the user key.\<close>

definition test_key :: "string \<Rightarrow> u64 \<Rightarrow> u8 \<Rightarrow> bytes" where
  "test_key user seq ty = as_bytes user @ u64_to_le_bytes (or (push_bit 8 seq) (ucast ty))"

text \<open>A call of \<open>decide\<close> on a key, with its decision asserted; the strategy is threaded.\<close>

definition assert_decide :: "'st decide \<Rightarrow> 'st \<Rightarrow> bytes \<Rightarrow> bool \<Rightarrow> KeepDecision \<Rightarrow> 'st outcome" where
  "assert_decide decide strat k is_first expected =
     obind (expect_ok (internal_key_split k)) (\<lambda>ik.
     let (d, strat') = decide strat ik is_first
     in obind (assert_eq d expected) (\<lambda>_. Ok strat'))"

section \<open>Strategies\<close>

definition test_bottommost_keeps_only_newest_and_drops_tombstone_winner :: "unit outcome" where
  "test_bottommost_keeps_only_newest_and_drops_tombstone_winner =
     obind (assert_decide bottommost_decide () (test_key ''a'' 5 TYPE_VALUE) True Keep) (\<lambda>strat.
     obind (assert_decide bottommost_decide strat (test_key ''a'' 3 TYPE_VALUE) False Drop) (\<lambda>_.
     obind (assert_decide bottommost_decide () (test_key ''b'' 5 TYPE_DELETION) True Drop) (\<lambda>_. Ok ())))"

definition test_passthrough_keeps_everything :: "unit outcome" where
  "test_passthrough_keeps_everything =
     obind (assert_decide passthrough_decide () (test_key ''a'' 5 TYPE_DELETION) True Keep) (\<lambda>strat.
     obind (assert_decide passthrough_decide strat (test_key ''a'' 5 TYPE_DELETION) False Keep) (\<lambda>_. Ok ()))"

fun collect_decisions ::
    "SnapshotAwareStrategy \<Rightarrow> nat \<Rightarrow> (u64 \<times> u8) list \<Rightarrow> KeepDecision list \<Rightarrow> KeepDecision list outcome" where
  "collect_decisions strat i [] decisions = Ok decisions"
| "collect_decisions strat i ((seq, ty) # vs) decisions =
     obind (expect_ok (internal_key_split (test_key ''a'' seq ty))) (\<lambda>ik.
     let (d, strat') = snapshot_aware_decide strat ik (i = 0)
     in collect_decisions strat' (i + 1) vs (decisions @ [d]))"

definition test_snapshot_aware_keeps_newest_and_the_version_visible_to_snapshot :: "unit outcome" where
  "test_snapshot_aware_keeps_newest_and_the_version_visible_to_snapshot =
     obind (collect_decisions (snapshot_aware_new 5) 0
              [(10, TYPE_VALUE), (7, TYPE_VALUE), (4, TYPE_VALUE), (2, TYPE_VALUE)] []) (\<lambda>decisions.
     assert_eq decisions [Keep, Drop, Keep, Drop])"

definition test_snapshot_aware_keeps_tombstone_visible_to_snapshot :: "unit outcome" where
  "test_snapshot_aware_keeps_tombstone_visible_to_snapshot =
     obind (assert_decide snapshot_aware_decide (snapshot_aware_new 5) (test_key ''a'' 10 TYPE_VALUE) True Keep) (\<lambda>s1.
     obind (assert_decide snapshot_aware_decide s1 (test_key ''a'' 4 TYPE_DELETION) False Keep) (\<lambda>s2.
     obind (assert_decide snapshot_aware_decide s2 (test_key ''a'' 2 TYPE_VALUE) False Drop) (\<lambda>_. Ok ())))"

definition test_snapshot_aware_newest_version_below_snapshot_only_keeps_once :: "unit outcome" where
  "test_snapshot_aware_newest_version_below_snapshot_only_keeps_once =
     obind (assert_decide snapshot_aware_decide (snapshot_aware_new 100) (test_key ''a'' 5 TYPE_VALUE) True Keep) (\<lambda>s1.
     obind (assert_decide snapshot_aware_decide s1 (test_key ''a'' 3 TYPE_VALUE) False Drop) (\<lambda>_. Ok ()))"

section \<open>Comparators\<close>

definition test_orders_by_user_key_first :: "unit outcome" where
  "test_orders_by_user_key_first =
     obind (compare_internal_keys (test_key ''aaa'' 5 1) (test_key ''bbb'' 1 1)) (\<lambda>c. assert_eq c Less)"

definition test_same_user_key_higher_seq_first :: "unit outcome" where
  "test_same_user_key_higher_seq_first =
     (let newer = test_key ''key'' 10 1; older = test_key ''key'' 5 1
      in obind (compare_internal_keys newer older) (\<lambda>c.
         obind (assert_eq c Less) (\<lambda>_.
         obind (compare_internal_keys older newer) (\<lambda>c'. assert_eq c' Greater))))"

definition test_same_user_key_same_seq_higher_type_first :: "unit outcome" where
  "test_same_user_key_same_seq_higher_type_first =
     obind (compare_internal_keys (test_key ''key'' 5 7) (test_key ''key'' 5 1)) (\<lambda>c. assert_eq c Less)"

definition test_bytewise_comparator_matches_slice_cmp :: "unit outcome" where
  "test_bytewise_comparator_matches_slice_cmp =
     (let a = as_bytes ''abc''; b = as_bytes ''abd''
      in obind (compare BytewiseComparator a b) (\<lambda>c. assert_eq c (bytes_cmp a b)))"

definition test_bytewise_sort_prefix_agrees_with_compare_on_differing_prefixes :: "unit outcome" where
  "test_bytewise_sort_prefix_agrees_with_compare_on_differing_prefixes =
     (let a = as_bytes ''aaaaaaaaX''; b = as_bytes ''bbbbbbbbX'';
          pa = sort_prefix BytewiseComparator a; pb = sort_prefix BytewiseComparator b
      in obind (ensure (pa \<noteq> pb)) (\<lambda>_.
         obind (compare BytewiseComparator a b) (\<lambda>c. assert_eq (u64_cmp pa pb) c)))"

definition test_bytewise_sort_prefix_ties_on_shared_prefix_need_full_compare :: "unit outcome" where
  "test_bytewise_sort_prefix_ties_on_shared_prefix_need_full_compare =
     (let a = as_bytes ''aaaaaaaaX''; b = as_bytes ''aaaaaaaaY''
      in obind (assert_eq (sort_prefix BytewiseComparator a) (sort_prefix BytewiseComparator b)) (\<lambda>_.
         obind (compare BytewiseComparator a b) (\<lambda>c. assert_eq c Less)))"

definition test_internal_key_comparator_has_no_fast_path :: "unit outcome" where
  "test_internal_key_comparator_has_no_fast_path = ensure (\<not> has_sort_prefix InternalKeyComparator)"

section \<open>Oracle\<close>

definition test_keeps_newest_drops_tombstone_winner :: "unit outcome" where
  "test_keeps_newest_drops_tombstone_winner =
     (let sources =
        [[(test_key ''a'' 1 1, as_bytes ''old_a''), (test_key ''b'' 1 1, as_bytes ''only_b'')],
         [(test_key ''a'' 5 1, as_bytes ''new_a''), (test_key ''b'' 5 0, as_bytes '''')]]
      in obind (naive_compact sources) (\<lambda>out. assert_eq out [(as_bytes ''a'', as_bytes ''new_a'')]))"

section \<open>They pass\<close>

lemma strategy_tests_pass:
  "test_bottommost_keeps_only_newest_and_drops_tombstone_winner = Ok ()"
  "test_passthrough_keeps_everything = Ok ()"
  "test_snapshot_aware_keeps_newest_and_the_version_visible_to_snapshot = Ok ()"
  "test_snapshot_aware_keeps_tombstone_visible_to_snapshot = Ok ()"
  "test_snapshot_aware_newest_version_below_snapshot_only_keeps_once = Ok ()"
  by code_simp+

lemma comparator_tests_pass:
  "test_orders_by_user_key_first = Ok ()"
  "test_same_user_key_higher_seq_first = Ok ()"
  "test_same_user_key_same_seq_higher_type_first = Ok ()"
  "test_bytewise_comparator_matches_slice_cmp = Ok ()"
  "test_bytewise_sort_prefix_agrees_with_compare_on_differing_prefixes = Ok ()"
  "test_bytewise_sort_prefix_ties_on_shared_prefix_need_full_compare = Ok ()"
  "test_internal_key_comparator_has_no_fast_path = Ok ()"
  by code_simp+

lemma oracle_tests_pass: "test_keeps_newest_drops_tombstone_winner = Ok ()"
  by code_simp

end
