(* ===== verification/Spec2Isabelle.thy ===== *)
theory Spec2Isabelle
  imports Cli Shard_Tasks Shard_Balance Load_Panics Replay_Cost Merge_Bench Unit_Tests
begin

text \<open>
  The compactor (\<^verbatim>\<open>src/crates\<close>) reads RocksDB table files, merges them, drops the versions that a
  strategy allows to drop, and writes new table files. This development models the library
  \<^verbatim>\<open>compactor/src\<close> with its two programs and its benchmark, the reference implementation
  \<^verbatim>\<open>oracle/src/lib.rs\<close>, the differential tester \<^verbatim>\<open>fuzzer/src/lib.rs\<close> and the unit tests in these sources.

  Parts and theories, in the order of the imports:

  \<^item> \<open>Prelude\<close>: outcomes (\<open>Ok\<close>, \<open>Err\<close>, \<open>Panic\<close>), checked arithmetic, slices, little-endian bytes, byte
    order, callbacks as folds (\<open>feed\<close>).
  \<^item> \<open>Varint\<close> (\<^verbatim>\<open>format/varint.rs\<close>), \<open>Internal_Key\<close> (\<^verbatim>\<open>format/internal_key.rs\<close>), \<open>Key_Comparator\<close>
    (\<^verbatim>\<open>merge/cmp.rs\<close>): coding of numbers and keys; the comparators and the locale \<open>key_comparator\<close>, a
    comparator that orders its valid keys by a rank.
  \<^item> \<open>Merge_Source\<close> (\<^verbatim>\<open>merge/source.rs\<close>): vector and arena sources, the arena builder, shards and the
    binary search of \<open>lower_bound\<close>; the locale \<open>merge_source\<close>, interpreted on both sources; the sources
    that a program can reach with \<open>advance\<close> and \<open>shard\<close> (\<open>arena_live\<close>).
  \<^item> \<open>Binary_Heap\<close>: the heap of the standard library under the heap merger, with its array algorithm; the
    locale \<open>binary_heap\<close> says what it asks of the comparison and gives the refinement of a priority queue.
  \<^item> \<open>Merger\<close>, \<open>Loser_Tree\<close>, \<open>Heap_Merger\<close>, \<open>Merge_Termination\<close>, \<open>Replay_Cost\<close>
    (\<^verbatim>\<open>merge/merger.rs\<close>): both mergers, the specification \<open>kmerge\<close> of a merge, the invariant of the loser tree, correctness of both over any
    source and comparator (locale \<open>kway\<close>, which extends the two contracts and is a sublocale of
    \<open>binary_heap\<close> on its heap entries), that they end on every input (locale \<open>finite_source\<close>), and the
    cost of a turn of the loser tree: the calls of \<open>less\<close>, counted with a \<open>less\<close> that logs them, are one
    for each node of a path of logarithmic length. The merges of one and of two sources are also given
    for keys on which the comparator panics.
  \<^item> \<open>Strategy\<close> (\<^verbatim>\<open>compaction/strategy.rs\<close> and the callback of \<^verbatim>\<open>compaction/mod.rs\<close>): the three strategies
    and what a reader sees of their output. \<open>Oracle\<close>: the reference implementation.
  \<^item> \<open>Checksum\<close>, \<open>Footer\<close>, \<open>Block\<close>, \<open>Block_Builder\<close>, \<open>Table_Properties\<close>, \<open>Sst_Builder\<close> (\<^verbatim>\<open>format/\<close>): the
    file format, writers and readers. \<open>sst_layout\<close> is the relation between a file and its entries that
    the builder establishes and every reader relies on, \<open>sst_tail\<close> its part behind the data. \<open>Index_Walk\<close>: the walk over an index block as a
    step relation, and the entries it panics on.
  \<^item> \<open>Sst_Reader\<close> (\<^verbatim>\<open>sst/mod.rs\<close>, \<^verbatim>\<open>io/mod.rs\<close>): the incremental reader over a file reader (locale
    \<open>file_contents\<close>). \<open>Load\<close>: the whole-file loader of \<^verbatim>\<open>compaction/mod.rs\<close>;
    \<open>Load_Panics\<close>: the handles it comes to in an arbitrary file, and the files it panics on.
  \<^item> \<open>Compaction\<close> (\<^verbatim>\<open>compaction/mod.rs\<close>): \<open>compact\<close>, \<open>compact_with_strategy\<close>, \<open>compact_sharded\<close>; the
    abstract store (\<open>store_at\<close>), with the versions of a key and the range deletions that cover it, and the contract of a strategy (locale \<open>read_preserving\<close>). \<open>Shard_Tasks\<close>:
    the tasks of a sharded job and the caller that awaits them, as a step relation in which their steps
    interleave, one entry of one merge at a time. \<open>Shard_Balance\<close>: how even the shards are.
  \<^item> \<open>Fuzzer\<close> (\<^verbatim>\<open>fuzzer/src/lib.rs\<close>), \<open>Cli\<close> (\<^verbatim>\<open>bin/compact_files.rs\<close>, \<^verbatim>\<open>bin/compactor.rs\<close>), \<open>Merge_Bench\<close>
    (\<^verbatim>\<open>benches/merge_bench.rs\<close>) and \<open>Unit_Tests\<close> (the test modules of \<^verbatim>\<open>strategy.rs\<close>, \<^verbatim>\<open>cmp.rs\<close> and the oracle,
    run in the model).

  How the code is rendered. A struct is a record and an enum a datatype. A \<open>&mut\<close> argument or a captured
  variable is state that is passed and returned. \<open>usize\<close> values are natural numbers with checked
  operations, \<open>u32\<close>, \<open>u64\<close> and \<open>i64\<close> are words; an operation that overflows is a panic, as with the overflow
  checks of the development profile, and a cast cuts off. Asynchronous functions are ordinary functions:
  the code awaits one thing at a time, except in the sharded job. There \<open>compact_sharded\<close> computes the
  result from the results of its tasks, and \<open>Shard_Tasks\<close> shows that no schedule gives another. Loops are
  recursive functions with termination proofs; the two loops whose end depends on the sources,
  \<open>loser_tree_run\<close> and \<open>heap_merger_run\<close>, are partial functions with \<open>None\<close> for not ending, and
  \<open>merges_terminate\<close> shows that \<open>None\<close> does not occur. No fuel is used.

  Code outside the repository is a parameter: the hash functions and decompressors are the record \<open>ext\<close>,
  of which the theorems assume nothing; a decompressor may return bytes or an error or panic. The random
  generator of the fuzzer and the benchmark is the record \<open>rng\<close>, of which \<open>rng_ok\<close> assumes that it samples inside the requested range.

  What the theorems show. Compacting table files gives what the reference computes
  (\<open>compact_matches_oracle\<close>), leaves the store unchanged for the current reader and, with the
  snapshot-aware strategy, for the reader at the snapshot (\<open>compact_refines_store\<close>,
  \<open>snapshot_refines_store\<close>), as long as there are no range deletions and no merge operands among the
  entries, which the code does not treat as what they are (\<open>range_deletion_lost\<close>, \<open>merge_base_lost\<close>). It
  does so in shards as well as in one piece (\<open>sharded_matches_compact\<close>),
  under every schedule of the shards (\<open>every_schedule_delivers\<close>); the differential test and the
  command-line program do the same (\<open>differential_test_passes\<close>, \<open>compact_files_correct\<close>). Underneath: both
  mergers merge, the heap is a priority queue (\<open>heap_refines_queue\<close>), all formats round-trip, what a
  file says of itself is true (\<open>sst_properties_recorded\<close>), the two readers agree, the files on which opening or loading a table panics are known exactly
  (\<open>sst_reader_open_panics\<close>, \<open>load_arena_source_panics\<close>), as are the readers whose view a snapshot-aware
  compaction changes (\<open>snapshot_aware_reads_exact\<close>), the shards are even when the largest source has distinct user keys
  (\<open>shards_balanced\<close>), and the errors and panics on malformed input are stated as they are. The benchmark compares merges that
  give the same output (\<open>bench_mergers_agree\<close>, \<open>bench_comparators_agree\<close>).

  Bounds. The arena addresses its bytes with 32 bits, so the theorems about files bound their size by
  \<open>sst_size_bound\<close>, an upper bound on the length of a file with given entries, below 4 GiB. The number of
  shards is below \<open>2 ^ 32\<close> in \<open>sharded_matches_compact\<close>, so that the product in
  \<open>pick_shard_boundaries\<close> does not overflow. Keys that occur twice with the same sequence number are
  excluded where a result depends on the order of equal keys.

  Not modelled: the timing harness of the benchmark, the integration tests under \<^verbatim>\<open>tests/\<close>, the process
  entry points and tokio's runtime beyond the interleaving of spawned tasks, the text of error messages
  (kept as values with what they show), failures to print, capacities of vectors, and the failure of memory
  allocation below the size that no allocation can have. A source's position is a natural number: to
  overflow it, \<open>advance\<close> would have to be called \<open>2 ^ 64\<close> times. Paths
  are names: two different names of one file are not identified.
\<close>

section \<open>An example\<close>

text \<open>The default options, and two runs with an overwritten and a deleted key for the examples below.\<close>

abbreviation default_job :: CompactionOptions where
  "default_job \<equiv> \<lparr>sst_builder = sst_builder_options_default\<rparr>"

definition example_runs :: "entry list list" where
  "example_runs =
     [[([97, 1, 5, 0, 0, 0, 0, 0, 0], [1]), ([98, 0, 9, 0, 0, 0, 0, 0, 0], [])],
      [([97, 1, 3, 0, 0, 0, 0, 0, 0], [2]), ([99, 1, 4, 0, 0, 0, 0, 0, 0], [3])]]"

lemma example_runs_ok:
  "\<forall>es \<in> set example_runs. keys_valid es \<and> ik_sorted es"
  "distinct_versions (concat example_runs)"
  "sst_size_bound (sst_builder default_job) (concat example_runs) < 2 ^ 32"
  "opt_external_sst_global_seqno (sst_builder default_job) = None"
  "\<forall>e \<in> set (concat example_runs). point_entry e"
  by (simp add: example_runs_def ikrank_le ukey_def, code_simp,
      simp add: default_options_small example_runs_def, simp add: sst_builder_options_default_def, code_simp)

section \<open>Properties of the whole program\<close>

text \<open>
  C1. End to end, the compactor agrees with the reference implementation: when sorted runs, in which no
  version of a key occurs twice, are written to table files, the files loaded, compacted with the default
  strategy and the resulting file loaded again, every step succeeds, and what the result holds, without
  the sequence numbers, is what the reference computes from the runs.
\<close>

theorem compact_matches_oracle:
  assumes "\<forall>es \<in> set ess. keys_valid es \<and> ik_sorted es" and "distinct_versions (concat ess)"
    and "sst_size_bound (sst_builder opts) (concat ess) < 2 ^ 32"
    and "opt_external_sst_global_seqno (sst_builder opts) = None"
  shows "\<exists>disks ss disk s. omap (build_sst X (sst_builder opts)) ess = Ok disks \<and>
           omap (\<lambda>d. load_arena_source X (blocking_file_reader d)) disks = Ok ss \<and>
           compact X ss opts = Some (Ok disk) \<and> load_arena_source X (blocking_file_reader disk) = Ok s \<and>
           naive_compact ess = Ok (strip (arena_remaining s))"
proof -
  obtain disks ss where inputs: "omap (build_sst X (sst_builder opts)) ess = Ok disks"
      "omap (\<lambda>d. load_arena_source X (blocking_file_reader d)) disks = Ok ss"
      "\<forall>s \<in> set ss. whole_source s" "all_entries ss = concat ess"
    using input_files[OF assms(1,3,4)] by blast
  obtain xs disk s where job: "merged ss xs" "compact X ss opts = Some (Ok disk)"
      "load_arena_source X (blocking_file_reader disk) = Ok s"
      "arena_remaining s = filter live (newest_only None xs)"
    using compact_correct[OF whole_sources_sorted[OF inputs(3)] _ assms(4), of X] assms(3) inputs(4) by auto
  have "keys_valid (concat ess)" using assms(1) by fastforce
  moreover have "ik_sorted xs" "mset xs = mset (concat ess)"
    using job(1) unfolding merged_def inputs(4) by blast+
  ultimately have "naive_compact ess = Ok (strip (arena_remaining s))"
    using naive_compact_newest[OF _ assms(2), of xs] job(4) by simp
  with inputs(1,2) job(2,3) show ?thesis by blast
qed

theorem compact_matches_oracle_witness:
  "\<exists>disks ss disk s. omap (build_sst example_ext (sst_builder default_job)) example_runs = Ok disks \<and>
     omap (\<lambda>d. load_arena_source example_ext (blocking_file_reader d)) disks = Ok ss \<and>
     compact example_ext ss default_job = Some (Ok disk) \<and>
     load_arena_source example_ext (blocking_file_reader disk) = Ok s \<and>
     naive_compact example_runs = Ok (strip (arena_remaining s))"
  by (rule compact_matches_oracle) (use example_runs_ok in simp_all)

lemma omap_all2: "list_all2 (\<lambda>x y. f x = Ok y) xs ys \<Longrightarrow> omap f xs = Ok ys"
  by (induction rule: list_all2_induct) simp_all

text \<open>Sources in memory for the examples.\<close>

lemma example_sources:
  "\<forall>s \<in> set (map (\<lambda>es. arena_of es) example_runs). whole_source s"
  "all_entries (map (\<lambda>es. arena_of es) example_runs) = concat example_runs"
  "distinct (map fst (concat example_runs))"
proof -
  have small: "\<forall>es \<in> set example_runs. entries_size es < 2 ^ 32" by (simp add: example_runs_def)
  with example_runs_ok(1) show "\<forall>s \<in> set (map (\<lambda>es. arena_of es) example_runs). whole_source s"
    by (auto intro!: arena_of_whole)
  show "all_entries (map (\<lambda>es. arena_of es) example_runs) = concat example_runs"
    using small by (rule arenas_of_entries)
  show "distinct (map fst (concat example_runs))" by (simp add: example_runs_def)
qed

text \<open>
  C2. A sharded compaction is a compaction: for any number of shards, on sources in which no internal key
  occurs twice, no task panics, the shards' files laid end to end hold exactly the entries of the file
  that the job without shards writes, in strictly ascending user-key order, so that no user key is in
  two shards, and there is one file per shard (one file when there are no entries).
\<close>

theorem sharded_matches_compact:
  assumes "\<forall>s \<in> set ss. whole_source s" and "distinct (map fst (all_entries ss))"
    and "sst_size_bound (sst_builder opts) (all_entries ss) < 2 ^ 32"
    and "opt_external_sst_global_seqno (sst_builder opts) = None" and "num_shards < 2 ^ 32"
  shows "\<exists>disk s disks outs. compact X ss opts = Some (Ok disk) \<and>
           load_arena_source X (blocking_file_reader disk) = Ok s \<and>
           compact_sharded X ss num_shards opts = Some (Ok disks) \<and>
           omap (\<lambda>d. load_arena_source X (blocking_file_reader d)) disks = Ok outs \<and>
           concat (map arena_remaining outs) = arena_remaining s \<and>
           sorted_wrt (<) (map (\<lambda>e. ukey (fst e)) (arena_remaining s)) \<and>
           length disks = (if \<forall>s \<in> set ss. total_len s = 0 then 1 else max num_shards 1)"
proof -
  obtain xs disk s where job: "merged ss xs" "compact X ss opts = Some (Ok disk)"
      "load_arena_source X (blocking_file_reader disk) = Ok s"
      "arena_remaining s = filter live (newest_only None xs)"
    using compact_correct[OF whole_sources_sorted[OF assms(1)] assms(3,4)] by blast
  obtain disks outs where sharded: "compact_sharded X ss num_shards opts = Some (Ok disks)"
      "list_all2 (\<lambda>d s. load_arena_source X (blocking_file_reader d) = Ok s \<and> wf_arena s) disks outs"
      "concat (map arena_remaining outs) = filter live (newest_only None xs)"
      "length disks = (if \<forall>s \<in> set ss. total_len s = 0 then 1 else max num_shards 1)"
    using compact_sharded_correct[OF assms(1) job(1) assms(3,4,2,5)] by blast
  have "omap (\<lambda>d. load_arena_source X (blocking_file_reader d)) disks = Ok outs"
    by (rule omap_all2[OF list_all2_mono[OF sharded(2)]]) blast
  moreover have "ik_sorted xs" using job(1) unfolding merged_def by (rule conjunct1)
  then have "sorted_wrt (<) (map (\<lambda>e. ukey (fst e)) (arena_remaining s))"
    using newest_only_strict[OF ik_sorted_ukey, of xs None]
    by (simp add: job(4) sorted_wrt_map sorted_wrt_filter)
  moreover have "concat (map arena_remaining outs) = arena_remaining s"
    using sharded(3) job(4) by (rule trans[OF _ sym])
  ultimately show ?thesis using job(2,3) sharded(1,4) by blast
qed

theorem sharded_matches_compact_witness:
  "\<exists>disk s disks outs. compact example_ext (map (\<lambda>es. arena_of es) example_runs) default_job = Some (Ok disk) \<and>
     load_arena_source example_ext (blocking_file_reader disk) = Ok s \<and>
     compact_sharded example_ext (map (\<lambda>es. arena_of es) example_runs) 4 default_job = Some (Ok disks) \<and>
     omap (\<lambda>d. load_arena_source example_ext (blocking_file_reader d)) disks = Ok outs \<and>
     concat (map arena_remaining outs) = arena_remaining s"
  using sharded_matches_compact[OF example_sources(1), of default_job 4 example_ext]
    example_sources(2,3) example_runs_ok(3,4)
  by auto

text \<open>
  C3. On point entries, compaction does not change the store: when the sources hold values, blob references,
  deletions and single deletions only, no range deletions and no merge operands, a reader of the
  compacted file gets for every user key what a reader of all the sources together gets, where the
  newest version decides and a deletion hides the key. (What becomes of the other entries is stated by
  \<open>range_deletion_lost\<close> and \<open>merge_base_lost\<close> below.)
\<close>

theorem compact_refines_store:
  assumes "\<forall>s \<in> set ss. sorted_source s" and "distinct (map fst (all_entries ss))"
    and "sst_size_bound (sst_builder opts) (all_entries ss) < 2 ^ 32"
    and "opt_external_sst_global_seqno (sst_builder opts) = None"
    and "\<forall>e \<in> set (all_entries ss). point_entry e"
  shows "\<exists>disk s. compact X ss opts = Some (Ok disk) \<and>
           load_arena_source X (blocking_file_reader disk) = Ok s \<and>
           store (arena_remaining s) = store (all_entries ss)"
proof -
  obtain disk st' s where "compact_with_strategy X bottommost_decide ss opts () = Some (Ok (disk, st'))"
      "load_arena_source X (blocking_file_reader disk) = Ok s"
      "store_at (- 1) (arena_remaining s) = store_at (- 1) (all_entries ss)"
    using bottommost.job_refines_store[OF assms(1,3,4,2,5), of "- 1" X] latest_visible_max by auto
  then show ?thesis by (auto simp: compact_def store_def)
qed

theorem compact_refines_store_witness:
  "\<exists>disk s. compact example_ext (map (\<lambda>es. arena_of es) example_runs) default_job = Some (Ok disk) \<and>
     load_arena_source example_ext (blocking_file_reader disk) = Ok s \<and>
     store (arena_remaining s) = store (all_entries (map (\<lambda>es. arena_of es) example_runs))"
  by (rule compact_refines_store[OF whole_sources_sorted[OF example_sources(1)]])
     (use example_sources(2,3) example_runs_ok(3-5) in simp_all)

text \<open>
  C4. On point entries, with no range deletions and no merge operands among them, snapshot-aware compaction
  keeps two readers: the one at the snapshot and the current one see the same store in the compacted
  file as in the sources.
\<close>

theorem snapshot_refines_store:
  assumes "\<forall>s \<in> set ss. sorted_source s" and "distinct (map fst (all_entries ss))"
    and "sst_size_bound (sst_builder opts) (all_entries ss) < 2 ^ 32"
    and "opt_external_sst_global_seqno (sst_builder opts) = None"
    and "\<forall>e \<in> set (all_entries ss). point_entry e"
  shows "\<exists>disk st' s. compact_with_strategy X snapshot_aware_decide ss opts (snapshot_aware_new q) = Some (Ok (disk, st')) \<and>
           load_arena_source X (blocking_file_reader disk) = Ok s \<and>
           store_at q (arena_remaining s) = store_at q (all_entries ss) \<and>
           store (arena_remaining s) = store (all_entries ss)"
proof -
  obtain disk st' s where job: "compact_with_strategy X snapshot_aware_decide ss opts (snapshot_aware_new q) = Some (Ok (disk, st'))"
      "load_arena_source X (blocking_file_reader disk) = Ok s"
      "store_at q (arena_remaining s) = store_at q (all_entries ss)"
    using snapshot.job_refines_store[OF assms(1,3,4,2,5) refl, of X] by blast
  moreover have "store (arena_remaining s) = store (all_entries ss)"
    using snapshot_latest.job_refines_store[OF assms(1,3,4,2,5), of "- 1" X q] latest_visible_max job(1,2)
    by (auto simp: store_def)
  ultimately show ?thesis by blast
qed

theorem snapshot_refines_store_witness:
  "\<exists>disk st' s. compact_with_strategy example_ext snapshot_aware_decide (map (\<lambda>es. arena_of es) example_runs)
       default_job (snapshot_aware_new 4) = Some (Ok (disk, st')) \<and>
     load_arena_source example_ext (blocking_file_reader disk) = Ok s \<and>
     store_at 4 (arena_remaining s) = store_at 4 (all_entries (map (\<lambda>es. arena_of es) example_runs)) \<and>
     store (arena_remaining s) = store (all_entries (map (\<lambda>es. arena_of es) example_runs))"
  by (rule snapshot_refines_store[OF whole_sources_sorted[OF example_sources(1)]])
     (use example_sources(2,3) example_runs_ok(3-5) in simp_all)

text \<open>
  The restriction to point entries is needed. A range deletion is compacted like a version of the key it
  starts at: a newer version of that key makes the job drop it, and a key that it had deleted, \<open>b\<close> below,
  is back in the store. The job also drops the value below a merge operand, which the operand is to
  be applied to.
\<close>

lemma single_run_job:
  assumes "keys_valid es" and "ik_sorted es" and "distinct (map fst es)"
    and "sst_size_bound (sst_builder default_job) es < 2 ^ 32"
  shows "\<exists>disk s. compact X [arena_of es] default_job = Some (Ok disk) \<and>
    load_arena_source X (blocking_file_reader disk) = Ok s \<and> arena_remaining s = filter live (newest_only None es)"
proof -
  have "whole_source (arena_of es)"
    using assms(1,2) size_bound_fits[OF assms(4)] by (intro arena_of_whole)
  then have "sorted_source (arena_of es)" "arena_remaining (arena_of es) = es"
    using whole_sources_sorted[of "[arena_of es]"] arena_of_correct[OF size_bound_fits[OF assms(4)]] by simp_all
  then show ?thesis
    using compact_correct_unique[of "[arena_of es]" default_job es X] assms example_runs_ok(4)
    by (auto simp: merged_def)
qed

theorem range_deletion_lost:
  "\<exists>disk s. compact X [arena_of [([97, 1, 12, 0, 0, 0, 0, 0, 0], [1]), ([97, 15, 9, 0, 0, 0, 0, 0, 0], [99]),
       ([98, 1, 3, 0, 0, 0, 0, 0, 0], [2])]] default_job = Some (Ok disk) \<and>
     load_arena_source X (blocking_file_reader disk) = Ok s \<and>
     store [([97, 1, 12, 0, 0, 0, 0, 0, 0], [1]), ([97, 15, 9, 0, 0, 0, 0, 0, 0], [99]),
       ([98, 1, 3, 0, 0, 0, 0, 0, 0], [2])] [98] = NotFound \<and>
     store (arena_remaining s) [98] = Found [2]"
proof -
  let ?es = "[([97, 1, 12, 0, 0, 0, 0, 0, 0], [1]), ([97, 15, 9, 0, 0, 0, 0, 0, 0], [99]),
    ([98, 1, 3, 0, 0, 0, 0, 0, 0], [2])] :: entry list"
  have "store ?es [98] = NotFound" "store (filter live (newest_only None ?es)) [98] = Found [2]" by code_simp+
  moreover have "keys_valid ?es" "ik_sorted ?es" "distinct (map fst ?es)"
      "sst_size_bound (sst_builder default_job) ?es < 2 ^ 32"
    by (simp_all add: ikrank_le ukey_def packed_def default_options_small)
  ultimately show ?thesis using single_run_job[of ?es X] by auto
qed

theorem merge_base_lost:
  "\<exists>disk s. compact X [arena_of [([97, 2, 9, 0, 0, 0, 0, 0, 0], [1]), ([97, 1, 3, 0, 0, 0, 0, 0, 0], [2])]]
       default_job = Some (Ok disk) \<and>
     load_arena_source X (blocking_file_reader disk) = Ok s \<and>
     arena_remaining s = [([97, 2, 9, 0, 0, 0, 0, 0, 0], [1])] \<and> vtype [97, 2, 9, 0, 0, 0, 0, 0, 0] = Merge"
proof -
  let ?es = "[([97, 2, 9, 0, 0, 0, 0, 0, 0], [1]), ([97, 1, 3, 0, 0, 0, 0, 0, 0], [2])] :: entry list"
  have "filter live (newest_only None ?es) = [([97, 2, 9, 0, 0, 0, 0, 0, 0], [1])]"
      "vtype [97, 2, 9, 0, 0, 0, 0, 0, 0] = Merge"
    by code_simp+
  moreover have "keys_valid ?es" "ik_sorted ?es" "distinct (map fst ?es)"
      "sst_size_bound (sst_builder default_job) ?es < 2 ^ 32"
    by (simp_all add: ikrank_le ukey_def packed_def default_options_small)
  ultimately show ?thesis using single_run_job[of ?es X] by auto
qed

lemma newest_only_id:
  assumes "sorted_wrt (<) (map (\<lambda>e. ukey (fst e)) es)" and "\<forall>e \<in> set es. p \<noteq> Some (ukey (fst e))"
  shows "newest_only p es = es"
  using assms
proof (induction es arbitrary: p)
  case (Cons e es)
  then have "\<forall>x \<in> set es. Some (ukey (fst e)) \<noteq> Some (ukey (fst x))" by auto
  with Cons show ?case by simp
qed simp

text \<open>
  C18. Compacting a compacted file changes nothing: a second job, on the source loaded from the first
  job's file, writes a file with the same entries.
\<close>

theorem compact_idempotent:
  assumes "\<forall>s \<in> set ss. sorted_source s" and "distinct (map fst (all_entries ss))"
    and "sst_size_bound (sst_builder opts) (all_entries ss) < 2 ^ 32"
    and "opt_external_sst_global_seqno (sst_builder opts) = None"
  shows "\<exists>disk s disk' s'. compact X ss opts = Some (Ok disk) \<and>
           load_arena_source X (blocking_file_reader disk) = Ok s \<and>
           compact X [s] opts = Some (Ok disk') \<and>
           load_arena_source X (blocking_file_reader disk') = Ok s' \<and> arena_remaining s' = arena_remaining s"
proof -
  obtain xs disk st' s where "merged ss xs" and job:
      "compact_with_strategy X bottommost_decide ss opts () = Some (Ok (disk, st'))"
      "load_arena_source X (blocking_file_reader disk) = Ok s" "sorted_source s"
      "mset (arena_remaining s) \<subseteq># mset (all_entries ss)"
    using bottommost.job_keeps_reads[OF assms(1,3,4), of X] by blast
  have c: "compact X ss opts = Some (Ok disk)" using job(1) by (simp add: compact_def)
  then obtain ys where ys: "merged ss ys" "arena_remaining s = filter live (newest_only None ys)"
    using compact_correct[OF assms(1,3,4), of X] job(2) by auto
  have "sorted (map (\<lambda>e. ukey (fst e)) ys)" using ys(1) unfolding merged_def by (intro ik_sorted_ukey) blast
  then have "sorted_wrt (<) (map (\<lambda>e. ukey (fst e)) (arena_remaining s))"
    using newest_only_strict[of ys None] unfolding ys(2) by (simp add: sorted_wrt_map sorted_wrt_filter)
  then have fixed: "filter live (newest_only None (arena_remaining s)) = arena_remaining s"
    by (simp add: newest_only_id) (simp add: ys(2))
  have "merged [s] (arena_remaining s)" using job(3) by (simp add: merged_def sorted_source_def)
  moreover have "sst_size_bound (sst_builder opts) (all_entries [s]) < 2 ^ 32"
    using size_bound_mono[OF job(4), of "sst_builder opts"] assms(3) by simp
  moreover have "distinct (map fst (all_entries [s]))" using mset_subset_distinct[OF job(4) assms(2)] by simp
  ultimately show ?thesis
    using compact_correct_unique[of "[s]" opts "arena_remaining s" X] job(2,3) c assms(4) fixed by auto
qed

theorem compact_idempotent_witness:
  "\<exists>disk s disk' s'. compact example_ext (map (\<lambda>es. arena_of es) example_runs) default_job = Some (Ok disk) \<and>
     load_arena_source example_ext (blocking_file_reader disk) = Ok s \<and>
     compact example_ext [s] default_job = Some (Ok disk') \<and>
     load_arena_source example_ext (blocking_file_reader disk') = Ok s' \<and> arena_remaining s' = arena_remaining s"
  by (rule compact_idempotent[OF whole_sources_sorted[OF example_sources(1)]])
     (use example_sources(2,3) example_runs_ok(3,4) in simp_all)

text \<open>
  C17. Every job ends, with or without shards, whatever the sources, the strategy and the options are.
\<close>

theorem jobs_terminate:
  "compact_with_strategy X decide ss opts st \<noteq> None \<and> compact_sharded X ss num_shards opts \<noteq> None"
  using compact_with_strategy_ends[of X decide ss opts st] compact_ends[of X _ opts]
    await_tasks_ends[of "map (\<lambda>ts. compact X ts opts) _"]
  by (auto simp: compact_sharded_def split: outcome.split)

text \<open>
  C21. Malformed keys, with no room for the suffix, in sources that need not be sorted. A job on one source
  skips the entries that have them, as the callback says. A job on two sources that share no key panics
  exactly when, as the smaller of the two front keys is taken time after time, a malformed key comes to
  the front of one source while the other one still has entries, because the comparator is called on
  it before the callback could skip it; otherwise the malformed keys come up after the other source is
  exhausted, where nothing is compared, and they are skipped.
\<close>

theorem malformed_keys:
  assumes "wf_arena s" and "wf_arena t"
    and "\<forall>x \<in> set (arena_remaining s). \<forall>y \<in> set (arena_remaining t). fst x \<noteq> fst y"
  shows "(\<exists>st'. compact_with_strategy X decide [s] opts st =
            Some (obind (build_sst X (sst_builder opts)
                    (keep_run decide None st (filter (\<lambda>e. valid_key (fst e)) (arena_remaining s))))
                   (\<lambda>disk. Ok (disk, st')))) \<and>
         (\<exists>st'. compact_with_strategy X decide [s, t] opts st = Some
            (if malformed_meets (arena_remaining s) (arena_remaining t) then Panic
             else obind (build_sst X (sst_builder opts) (keep_run decide None st
                    (filter (\<lambda>e. valid_key (fst e)) (two_way (arena_remaining s) (arena_remaining t)))))
                   (\<lambda>disk. Ok (disk, st'))))"
  using compact_single_source[OF assms(1)] compact_two_sources[OF assms] by (intro conjI)

text \<open>
  Two malformed keys at the front panic; a malformed key behind one that is greater than all keys of the
  other source is skipped.
\<close>

theorem malformed_keys_witness:
  "compact_with_strategy example_ext passthrough_decide [arena_of [([1], [])], arena_of [([2], [])]] default_job () =
     Some Panic \<and>
   (\<exists>st'. compact_with_strategy example_ext passthrough_decide
       [arena_of [([98, 1, 5, 0, 0, 0, 0, 0, 0], [1]), ([1], [])], arena_of [([97, 1, 5, 0, 0, 0, 0, 0, 0], [2])]]
       default_job () =
     Some (obind (build_sst example_ext (sst_builder default_job)
       [([97, 1, 5, 0, 0, 0, 0, 0, 0], [2]), ([98, 1, 5, 0, 0, 0, 0, 0, 0], [1])]) (\<lambda>disk. Ok (disk, st'))))"
proof
  show "compact_with_strategy example_ext passthrough_decide [arena_of [([1], [])], arena_of [([2], [])]] default_job () =
      Some Panic"
    using malformed_keys[of "arena_of [([1], [])]" "arena_of [([2], [])]" example_ext passthrough_decide default_job "()"]
      arena_of_correct[of "[([1], [])]"] arena_of_correct[of "[([2], [])]"]
    by simp
  let ?s = "[([98, 1, 5, 0, 0, 0, 0, 0, 0], [1]), ([1], [])] :: entry list"
  let ?t = "[([97, 1, 5, 0, 0, 0, 0, 0, 0], [2])] :: entry list"
  have "malformed_meets ?s ?t = False" "filter (\<lambda>e. valid_key (fst e)) (two_way ?s ?t) = ?t @ [hd ?s]"
    by (simp_all add: ikrank_def ukey_def)
  then show "\<exists>st'. compact_with_strategy example_ext passthrough_decide [arena_of ?s, arena_of ?t] default_job () =
      Some (obind (build_sst example_ext (sst_builder default_job)
        [([97, 1, 5, 0, 0, 0, 0, 0, 0], [2]), ([98, 1, 5, 0, 0, 0, 0, 0, 0], [1])]) (\<lambda>disk. Ok (disk, st')))"
    using malformed_keys[of "arena_of ?s" "arena_of ?t" example_ext passthrough_decide default_job "()"]
      arena_of_correct[of ?s] arena_of_correct[of ?t]
    by (simp add: passthrough_decide_def Let_def ikrank_def ukey_def)
qed

end
